(* ===== verification/Prelude.thy ===== *)
theory Prelude
  imports Main "HOL-Library.Word"
begin

text \<open>
  Shared vocabulary of the development: the machine types of the build target (little-endian,
  64-bit \<open>long\<close>, 32-bit \<open>int\<close>), the byte/word views of a memory buffer that the C
  code obtains by pointer casts, \<open>memcpy\<close> into a buffer, the cutting of a byte string into
  blocks, and the generic facts about lists and words every component uses.
\<close>

unbundle bit_operations_syntax

type_synonym u8 = "8 word"
type_synonym u16 = "16 word"
type_synonym u32 = "32 word"
type_synonym u64 = "64 word"
type_synonym bytes = "8 word list"

named_theorems frame_simps \<open>what an operation leaves unchanged\<close>
named_theorems length_simps \<open>lengths of buffers and tables\<close>

section \<open>Byte order\<close>

text \<open>
  The two macros of \<open>include/platform.h\<close> as they are on the target. The models keep the
  source's tests on them.
\<close>

definition BB_BIG_ENDIAN :: bool where "BB_BIG_ENDIAN = False"
definition BB_LITTLE_ENDIAN :: bool where "BB_LITTLE_ENDIAN = True"

definition le32 :: "u8 \<Rightarrow> u8 \<Rightarrow> u8 \<Rightarrow> u8 \<Rightarrow> u32" where
  "le32 b0 b1 b2 b3 =
     ucast b0 OR push_bit 8 (ucast b1) OR push_bit 16 (ucast b2) OR push_bit 24 (ucast b3)"

definition load32 :: "bytes \<Rightarrow> nat \<Rightarrow> u32" where
  "load32 buf i = le32 (buf ! (4*i)) (buf ! (4*i+1)) (buf ! (4*i+2)) (buf ! (4*i+3))"

definition load64 :: "bytes \<Rightarrow> nat \<Rightarrow> u64" where
  "load64 buf i = ucast (load32 buf (2*i)) OR push_bit 32 (ucast (load32 buf (2*i+1)))"

definition store32 :: "u32 \<Rightarrow> bytes" where
  "store32 v = [ucast v, ucast (drop_bit 8 v), ucast (drop_bit 16 v), ucast (drop_bit 24 v)]"

definition store64 :: "u64 \<Rightarrow> bytes" where
  "store64 v = store32 (ucast v) @ store32 (ucast (drop_bit 32 v))"

definition bswap32 :: "u32 \<Rightarrow> u32" where
  "bswap32 x = push_bit 24 x OR push_bit 8 (x AND 0xff00) OR drop_bit 8 (x AND 0xff0000)
     OR drop_bit 24 x"

definition bswap64 :: "u64 \<Rightarrow> u64" where
  "bswap64 x = push_bit 32 (ucast (bswap32 (ucast x))) OR ucast (bswap32 (ucast (drop_bit 32 x)))"

definition SWAP_BE32 :: "u32 \<Rightarrow> u32" where
  "SWAP_BE32 x = (if BB_BIG_ENDIAN then x else bswap32 x)"

definition SWAP_BE64 :: "u64 \<Rightarrow> u64" where
  "SWAP_BE64 x = (if BB_BIG_ENDIAN then x else bswap64 x)"

definition SWAP_LE32 :: "u32 \<Rightarrow> u32" where
  "SWAP_LE32 x = (if BB_BIG_ENDIAN then bswap32 x else x)"

lemma length_store32 [simp, length_simps]: "length (store32 v) = 4"
  by (simp add: store32_def)

lemma length_store64 [simp, length_simps]: "length (store64 v) = 8"
  by (simp add: store64_def)

lemma byte_bit_beyond [simp]: "8 \<le> n \<Longrightarrow> \<not> bit (a::u8) n"
  by (auto dest: bit_imp_le_length)

lemma mask_ff00: "(0xff00::u32) = push_bit 8 (mask 8)"
  by (simp add: mask_eq_exp_minus_1)

lemma mask_ff0000: "(0xff0000::u32) = push_bit 16 (mask 8)"
  by (simp add: mask_eq_exp_minus_1)

lemma bswap32_le32: "bswap32 (le32 a b c d) = le32 d c b a"
proof (rule bit_word_eqI)
  fix n assume "n < LENGTH(32)"
  then consider "n < 8" | "8 \<le> n" "n < 16" | "16 \<le> n" "n < 24" | "24 \<le> n" "n < 32"
    by fastforce
  then show "bit (bswap32 (le32 a b c d)) n = bit (le32 d c b a) n"
    by cases (auto simp: bswap32_def le32_def bit_simps mask_ff00 mask_ff0000)
qed

lemma le32_bytes:
  "le32 (ucast v) (ucast (drop_bit 8 v)) (ucast (drop_bit 16 v)) (ucast (drop_bit 24 v)) = v"
proof (rule bit_word_eqI)
  fix n assume "n < LENGTH(32)"
  then consider "n < 8" | "8 \<le> n" "n < 16" | "16 \<le> n" "n < 24" | "24 \<le> n" "n < 32"
    by fastforce
  then show "bit (le32 (ucast v) (ucast (drop_bit 8 v)) (ucast (drop_bit 16 v))
      (ucast (drop_bit 24 v))) n = bit v n"
    by cases (auto simp: le32_def bit_simps)
qed

lemma load32_store32: "load32 (store32 v) 0 = v"
  by (simp add: load32_def store32_def le32_bytes)

lemma load64_store64: "load64 (store64 v) 0 = v"
proof -
  have "load32 (store64 v) 0 = ucast v" "load32 (store64 v) (Suc 0) = ucast (drop_bit 32 v)"
    using load32_store32 [of "ucast v"] load32_store32 [of "ucast (drop_bit 32 v)"]
    by (simp_all add: store64_def load32_def nth_append numeral_2_eq_2)
  then show ?thesis
    by (auto simp: load64_def bit_simps intro!: bit_word_eqI)
qed

lemma bswap32_bswap32 [simp]: "bswap32 (bswap32 v) = v"
  using bswap32_le32 le32_bytes [of v] by metis

section \<open>Writing into a buffer\<close>

text \<open>
  \<open>blit buf pos d\<close> is \<open>memcpy(buf + pos, d, len)\<close>. It keeps the buffer's length
  exactly when the copy is in bounds.
\<close>

definition blit :: "'a list \<Rightarrow> nat \<Rightarrow> 'a list \<Rightarrow> 'a list" where
  "blit buf pos d = take pos buf @ d @ drop (pos + length d) buf"

lemma length_blit [simp, length_simps]:
  "pos + length d \<le> length buf \<Longrightarrow> length (blit buf pos d) = length buf"
  by (simp add: blit_def)

lemma blit_Nil [simp]: "blit buf pos [] = buf"
  by (simp add: blit_def)

lemma blit_Cons:
  "pos + length (b # d) \<le> length buf \<Longrightarrow> blit buf pos (b # d) = blit (buf[pos := b]) (Suc pos) d"
  by (simp add: blit_def take_Suc_conv_app_nth)

lemma blit_full: "length d = length buf \<Longrightarrow> blit buf 0 d = d"
  by (simp add: blit_def)

lemma take_blit: "pos \<le> length buf \<Longrightarrow> take (pos + length d) (blit buf pos d) = take pos buf @ d"
  by (simp add: blit_def)

section \<open>Blocks of a byte string\<close>

text \<open>
  \<open>chunks n xs\<close> are the complete blocks of \<open>n\<close> elements of \<open>xs\<close> in order,
  \<open>leftover n xs\<close> is the incomplete tail.
\<close>

function chunks :: "nat \<Rightarrow> 'a list \<Rightarrow> 'a list list" where
  "chunks n xs = (if n = 0 \<or> length xs < n then [] else take n xs # chunks n (drop n xs))"
  by pat_completeness auto
termination
  by (relation "measure (\<lambda>(n, xs). length xs)") auto

declare chunks.simps [simp del]

definition leftover :: "nat \<Rightarrow> 'a list \<Rightarrow> 'a list" where
  "leftover n xs = drop (n * (length xs div n)) xs"

lemma chunks_short [simp]: "length xs < n \<Longrightarrow> chunks n xs = []"
  by (simp add: chunks.simps)

lemma leftover_short [simp]: "length xs < n \<Longrightarrow> leftover n xs = xs"
  by (simp add: leftover_def)

lemma chunks_block [simp]:
  "0 < n \<Longrightarrow> length b = n \<Longrightarrow> chunks n (b @ xs) = b # chunks n xs"
  by (simp add: chunks.simps [of n "b @ xs"])

lemma chunks_one [simp]: "0 < n \<Longrightarrow> length b = n \<Longrightarrow> chunks n b = [b]"
  using chunks_block [of n b "[]"] by simp

lemma leftover_block [simp]:
  assumes "0 < n" "length b = n"
  shows "leftover n (b @ xs) = leftover n xs"
proof -
  have "(length b + length xs) div n = Suc (length xs div n)"
    using assms by (metis add.commute div_add_self2 Suc_eq_plus1 neq0_conv)
  then show ?thesis using assms by (simp add: leftover_def)
qed

lemma length_leftover [simp]: "length (leftover n xs) = length xs mod n"
  by (simp add: leftover_def minus_mult_div_eq_mod)

lemma block_induct [case_names pos short block]:
  assumes n: "0 < n"
    and short: "\<And>xs. length xs < n \<Longrightarrow> P xs"
    and block: "\<And>b xs. length b = n \<Longrightarrow> P xs \<Longrightarrow> P (b @ xs)"
  shows "P xs"
proof (induction xs rule: length_induct)
  case (1 xs)
  show ?case
  proof (cases "length xs < n")
    case False
    then have "P (take n xs @ drop n xs)"
      using n 1 by (intro block) auto
    then show ?thesis by simp
  qed (rule short)
qed

lemma chunks_append:
  assumes n: "0 < n"
  shows "chunks n (xs @ ys) = chunks n xs @ chunks n (leftover n xs @ ys)"
  by (induction xs rule: block_induct [OF n]) (auto simp: n)

lemma leftover_append:
  assumes n: "0 < n"
  shows "leftover n (xs @ ys) = leftover n (leftover n xs @ ys)"
  by (induction xs rule: block_induct [OF n]) (auto simp: n)

lemma chunks_exact_append:
  "0 < n \<Longrightarrow> n dvd length xs \<Longrightarrow> chunks n (xs @ ys) = chunks n xs @ chunks n ys"
  using chunks_append [of n xs ys] by (simp add: leftover_def)

text \<open>The index ranges of loops with a constant bound.\<close>

lemma upt_0_4: "[0..<4::nat] = [0, 1, 2, 3]"
  by code_simp

lemma foldl_cong_set:
  "(\<And>q t. t \<in> set ts \<Longrightarrow> f q t = g q t) \<Longrightarrow> foldl f q ts = foldl g q ts"
  by (rule foldl_cong) auto

lemma length_foldl:
  assumes "\<And>h b. length h = m \<Longrightarrow> length (f h b) = m" and "length h = m"
  shows "length (foldl f h bs) = m"
  using assms(2) by (induction bs arbitrary: h) (simp_all add: assms)

lemma u64_less: "unat (a::u64) < 2 ^ 64"
proof -
  have "unat a < 2 ^ LENGTH(64)" by (rule unsigned_less)
  then show ?thesis by simp
qed

lemma unat_ucast_up:
  assumes "LENGTH('a::len) \<le> LENGTH('b::len)"
  shows "unat (ucast (x :: 'a word) :: 'b word) = unat x"
proof -
  have "unat x < 2 ^ LENGTH('a)" by (rule unsigned_less)
  also have "\<dots> \<le> 2 ^ LENGTH('b)" using assms by simp
  finally show ?thesis by (simp add: unsigned_ucast_eq take_bit_nat_eq_self)
qed

end
