(* ===== verification/Hash_Ctx.thy ===== *)
theory Hash_Ctx
  imports Prelude
begin

text \<open>
  \<open>libbb/hash_md5_sha.c\<close>, the parts all 64-byte-block hashes share: the rotations and the
  context \<open>struct md5_ctx_t\<close> of \<open>include/libbb.h\<close>, which MD5, SHA-1 and SHA-256
  use alike. The context's function pointer \<open>process_block\<close> only ever holds one of three
  functions; it is modelled by their names (\<open>block_fn\<close>) and called by
  \<open>call_process_block\<close> in theory \<open>Hash64\<close>.
\<close>

section \<open>Rotations\<close>

definition rotl32 :: "u32 \<Rightarrow> nat \<Rightarrow> u32" where
  "rotl32 x n = push_bit n x OR drop_bit (32 - n) x"

definition rotr32 :: "u32 \<Rightarrow> nat \<Rightarrow> u32" where
  "rotr32 x n = drop_bit n x OR push_bit (32 - n) x"

definition rotr64 :: "u64 \<Rightarrow> nat \<Rightarrow> u64" where
  "rotr64 x n = drop_bit n x OR push_bit (64 - n) x"

definition rotl64 :: "u64 \<Rightarrow> nat \<Rightarrow> u64" where
  "rotl64 x n = push_bit n x OR drop_bit (64 - n) x"

lemma shifts_rotl:
  fixes x :: "'a::len word"
  assumes n: "n < LENGTH('a)"
  shows "push_bit n x OR drop_bit (LENGTH('a) - n) x = word_rotl n x"
proof (rule bit_word_eqI)
  fix k assume k: "k < LENGTH('a)"
  show "bit (push_bit n x OR drop_bit (LENGTH('a) - n) x) k = bit (word_rotl n x) k"
  proof (cases "k < n")
    case True
    with n k have "(k + (LENGTH('a) - n)) mod LENGTH('a) = LENGTH('a) - n + k" by simp
    with True n k show ?thesis by (auto simp: bit_simps)
  next
    case False
    then have "k + (LENGTH('a) - n) = k - n + LENGTH('a)" using n by simp
    moreover have "(k - n + LENGTH('a)) mod LENGTH('a) = k - n" using k by simp
    ultimately have "(k + (LENGTH('a) - n)) mod LENGTH('a) = k - n" by (simp only:)
    with False n k show ?thesis by (auto simp: bit_simps dest: bit_imp_le_length)
  qed
qed

lemma shifts_rotr:
  fixes x :: "'a::len word"
  assumes n: "n < LENGTH('a)"
  shows "drop_bit n x OR push_bit (LENGTH('a) - n) x = word_rotr n x"
proof (rule bit_word_eqI)
  fix k assume k: "k < LENGTH('a)"
  show "bit (drop_bit n x OR push_bit (LENGTH('a) - n) x) k = bit (word_rotr n x) k"
  proof (cases "k + n < LENGTH('a)")
    case False
    then have "(k + n) mod LENGTH('a) = k - (LENGTH('a) - n)" using n k by (simp add: mod_if)
    with False n k show ?thesis by (auto simp: bit_simps ac_simps dest: bit_imp_le_length)
  qed (use n k in \<open>auto simp: bit_simps ac_simps\<close>)
qed

lemma rotl32_word_rotl: "n < 32 \<Longrightarrow> rotl32 x n = word_rotl n x"
  using shifts_rotl [of n x] by (simp add: rotl32_def)

lemma rotl64_word_rotl: "n < 64 \<Longrightarrow> rotl64 x n = word_rotl n x"
  using shifts_rotl [of n x] by (simp add: rotl64_def)

lemma rotr32_word_rotr: "n < 32 \<Longrightarrow> rotr32 x n = word_rotr n x"
  using shifts_rotr [of n x] by (simp add: rotr32_def)

lemma rotr64_word_rotr: "n < 64 \<Longrightarrow> rotr64 x n = word_rotr n x"
  using shifts_rotr [of n x] by (simp add: rotr64_def)

lemmas rot_words = rotl32_word_rotl rotl64_word_rotl rotr32_word_rotr rotr64_word_rotr

section \<open>The context of the 64-byte-block hashes\<close>

datatype block_fn = Md5_block | Sha1_block | Sha256_block

record md5_ctx =
  wbuffer :: bytes
  process_block :: block_fn
  total64 :: u64
  hash :: "u32 list"

text \<open>The sizes the C declaration fixes.\<close>

definition ctx_wf :: "md5_ctx \<Rightarrow> bool" where
  "ctx_wf ctx \<longleftrightarrow> length (wbuffer ctx) = 64 \<and> length (hash ctx) = 8"

end
