(* ===== verification/Md5.thy ===== *)
theory Md5
  imports Hash_Ctx
begin

text \<open>
  MD5's block function \<open>md5_process_block64\<close> of \<open>libbb/hash_md5_sha.c\<close> in its four
  compile-time variants (\<open>MD5_SMALL\<close> 0 to 3, from unrolled to smallest), the operations of
  RFC 1321 as the reference, and the proof that all four variants compute them.
\<close>

section \<open>The tables and macros\<close>

definition MD5_SMALL :: nat where "MD5_SMALL = 1"

definition C_array :: "u32 list" where
  "C_array = concat [
     [0xd76aa478, 0xe8c7b756, 0x242070db, 0xc1bdceee],
     [0xf57c0faf, 0x4787c62a, 0xa8304613, 0xfd469501],
     [0x698098d8, 0x8b44f7af, 0xffff5bb1, 0x895cd7be],
     [0x6b901122, 0xfd987193, 0xa679438e, 0x49b40821],
     [0xf61e2562, 0xc040b340, 0x265e5a51, 0xe9b6c7aa],
     [0xd62f105d, 0x02441453, 0xd8a1e681, 0xe7d3fbc8],
     [0x21e1cde6, 0xc33707d6, 0xf4d50d87, 0x455a14ed],
     [0xa9e3e905, 0xfcefa3f8, 0x676f02d9, 0x8d2a4c8a],
     [0xfffa3942, 0x8771f681, 0x6d9d6122, 0xfde5380c],
     [0xa4beea44, 0x4bdecfa9, 0xf6bb4b60, 0xbebfbc70],
     [0x289b7ec6, 0xeaa127fa, 0xd4ef3085, 0x4881d05],
     [0xd9d4d039, 0xe6db99e5, 0x1fa27cf8, 0xc4ac5665],
     [0xf4292244, 0x432aff97, 0xab9423a7, 0xfc93a039],
     [0x655b59c3, 0x8f0ccc92, 0xffeff47d, 0x85845dd1],
     [0x6fa87e4f, 0xfe2ce6e0, 0xa3014314, 0x4e0811a1],
     [0xf7537e82, 0xbd3af235, 0x2ad7d2bb, 0xeb86d391]]"

definition P_array :: "nat \<Rightarrow> nat list" where
  "P_array small =
     (if small > 1 then [0, 1, 2, 3, 4, 5, 6, 7, 8, 9, 10, 11, 12, 13, 14, 15] else []) @
     [1, 6, 11, 0, 5, 10, 15, 4, 9, 14, 3, 8, 13, 2, 7, 12] @
     [5, 8, 11, 14, 1, 4, 7, 10, 13, 0, 3, 6, 9, 12, 15, 2] @
     [0, 7, 14, 5, 12, 3, 10, 1, 8, 15, 6, 13, 4, 11, 2, 9]"

definition S_array :: "nat list" where
  "S_array = [7, 12, 17, 22] @ [5, 9, 14, 20] @ [4, 11, 16, 23] @ [6, 10, 15, 21]"

definition FF :: "u32 \<Rightarrow> u32 \<Rightarrow> u32 \<Rightarrow> u32" where "FF b c d = d XOR (b AND (c XOR d))"
definition FG :: "u32 \<Rightarrow> u32 \<Rightarrow> u32 \<Rightarrow> u32" where "FG b c d = FF d b c"
definition FH :: "u32 \<Rightarrow> u32 \<Rightarrow> u32 \<Rightarrow> u32" where "FH b c d = b XOR c XOR d"
definition FI :: "u32 \<Rightarrow> u32 \<Rightarrow> u32 \<Rightarrow> u32" where "FI b c d = c XOR (b OR NOT d)"

text \<open>The macro \<open>OP\<close>, with the message word and the constant already fetched.\<close>

definition OP :: "(u32 \<Rightarrow> u32 \<Rightarrow> u32 \<Rightarrow> u32) \<Rightarrow> u32 \<Rightarrow> u32 \<Rightarrow> u32 \<Rightarrow> u32 \<Rightarrow> u32 \<Rightarrow> nat \<Rightarrow> u32 \<Rightarrow> u32" where
  "OP f a b c d w s T = rotl32 (a + (f b c d + w + T)) s + b"

type_synonym quad = "u32 \<times> u32 \<times> u32 \<times> u32"

section \<open>The four variants of the rounds\<close>

subsection \<open>\<open>MD5_SMALL == 1\<close>: four loops of four operations\<close>

text \<open>
  The pointers \<open>pc\<close> and \<open>pp\<close> advance once per operation, so in the loop number
  \<open>r\<close> (from 0) they stand at \<open>16 * r + 4 * i\<close> and \<open>16 * (r - 1) + 4 * i\<close> when
  iteration \<open>i\<close> starts; in round 1 the message words are read through \<open>words++\<close>.
\<close>

definition round1_iter :: "u32 list \<Rightarrow> quad \<Rightarrow> nat \<Rightarrow> quad" where
  "round1_iter words = (\<lambda>(A, B, C, D) i.
     let A = OP FF A B C D (words ! (4*i)) 7 (C_array ! (4*i));
         D = OP FF D A B C (words ! (4*i+1)) 12 (C_array ! (4*i+1));
         C = OP FF C D A B (words ! (4*i+2)) 17 (C_array ! (4*i+2));
         B = OP FF B C D A (words ! (4*i+3)) 22 (C_array ! (4*i+3))
     in (A, B, C, D))"

definition round2_iter :: "u32 list \<Rightarrow> quad \<Rightarrow> nat \<Rightarrow> quad" where
  "round2_iter words = (\<lambda>(A, B, C, D) i.
     let A = OP FG A B C D (words ! (P_array 1 ! (4*i))) 5 (C_array ! (16+4*i));
         D = OP FG D A B C (words ! (P_array 1 ! (4*i+1))) 9 (C_array ! (16+4*i+1));
         C = OP FG C D A B (words ! (P_array 1 ! (4*i+2))) 14 (C_array ! (16+4*i+2));
         B = OP FG B C D A (words ! (P_array 1 ! (4*i+3))) 20 (C_array ! (16+4*i+3))
     in (A, B, C, D))"

definition round3_iter :: "u32 list \<Rightarrow> quad \<Rightarrow> nat \<Rightarrow> quad" where
  "round3_iter words = (\<lambda>(A, B, C, D) i.
     let A = OP FH A B C D (words ! (P_array 1 ! (16+4*i))) 4 (C_array ! (32+4*i));
         D = OP FH D A B C (words ! (P_array 1 ! (16+4*i+1))) 11 (C_array ! (32+4*i+1));
         C = OP FH C D A B (words ! (P_array 1 ! (16+4*i+2))) 16 (C_array ! (32+4*i+2));
         B = OP FH B C D A (words ! (P_array 1 ! (16+4*i+3))) 23 (C_array ! (32+4*i+3))
     in (A, B, C, D))"

definition round4_iter :: "u32 list \<Rightarrow> quad \<Rightarrow> nat \<Rightarrow> quad" where
  "round4_iter words = (\<lambda>(A, B, C, D) i.
     let A = OP FI A B C D (words ! (P_array 1 ! (32+4*i))) 6 (C_array ! (48+4*i));
         D = OP FI D A B C (words ! (P_array 1 ! (32+4*i+1))) 10 (C_array ! (48+4*i+1));
         C = OP FI C D A B (words ! (P_array 1 ! (32+4*i+2))) 15 (C_array ! (48+4*i+2));
         B = OP FI B C D A (words ! (P_array 1 ! (32+4*i+3))) 21 (C_array ! (48+4*i+3))
     in (A, B, C, D))"

definition md5_rounds_small1 :: "u32 list \<Rightarrow> quad \<Rightarrow> quad" where
  "md5_rounds_small1 words q =
     foldl (round4_iter words) (foldl (round3_iter words) (foldl (round2_iter words)
       (foldl (round1_iter words) q [0..<4]) [0..<4]) [0..<4]) [0..<4]"

subsection \<open>\<open>MD5_SMALL == 0\<close>: unrolled\<close>

text \<open>
  The straight-line code is a list of its 64 lines: the function, the register the line assigns
  (\<open>OP(D, A, B, C, ...)\<close> assigns \<open>D\<close> from \<open>A, B, C\<close>), the index of the
  message word, the shift and the constant.
\<close>

datatype reg = RA | RB | RC | RD

type_synonym op_line = "(u32 \<Rightarrow> u32 \<Rightarrow> u32 \<Rightarrow> u32) \<times> reg \<times> nat \<times> nat \<times> u32"

fun exec_line :: "u32 list \<Rightarrow> quad \<Rightarrow> op_line \<Rightarrow> quad" where
  "exec_line words (A, B, C, D) (f, RA, k, s, T) = (OP f A B C D (words ! k) s T, B, C, D)"
| "exec_line words (A, B, C, D) (f, RD, k, s, T) = (A, B, C, OP f D A B C (words ! k) s T)"
| "exec_line words (A, B, C, D) (f, RC, k, s, T) = (A, B, OP f C D A B (words ! k) s T, D)"
| "exec_line words (A, B, C, D) (f, RB, k, s, T) = (A, OP f B C D A (words ! k) s T, C, D)"

definition unrolled_lines :: "op_line list" where
  "unrolled_lines = concat [
     [(FF, RA, 0, 7, 0xd76aa478), (FF, RD, 1, 12, 0xe8c7b756)],
     [(FF, RC, 2, 17, 0x242070db), (FF, RB, 3, 22, 0xc1bdceee)],
     [(FF, RA, 4, 7, 0xf57c0faf), (FF, RD, 5, 12, 0x4787c62a)],
     [(FF, RC, 6, 17, 0xa8304613), (FF, RB, 7, 22, 0xfd469501)],
     [(FF, RA, 8, 7, 0x698098d8), (FF, RD, 9, 12, 0x8b44f7af)],
     [(FF, RC, 10, 17, 0xffff5bb1), (FF, RB, 11, 22, 0x895cd7be)],
     [(FF, RA, 12, 7, 0x6b901122), (FF, RD, 13, 12, 0xfd987193)],
     [(FF, RC, 14, 17, 0xa679438e), (FF, RB, 15, 22, 0x49b40821)],
     [(FG, RA, 1, 5, 0xf61e2562), (FG, RD, 6, 9, 0xc040b340)],
     [(FG, RC, 11, 14, 0x265e5a51), (FG, RB, 0, 20, 0xe9b6c7aa)],
     [(FG, RA, 5, 5, 0xd62f105d), (FG, RD, 10, 9, 0x02441453)],
     [(FG, RC, 15, 14, 0xd8a1e681), (FG, RB, 4, 20, 0xe7d3fbc8)],
     [(FG, RA, 9, 5, 0x21e1cde6), (FG, RD, 14, 9, 0xc33707d6)],
     [(FG, RC, 3, 14, 0xf4d50d87), (FG, RB, 8, 20, 0x455a14ed)],
     [(FG, RA, 13, 5, 0xa9e3e905), (FG, RD, 2, 9, 0xfcefa3f8)],
     [(FG, RC, 7, 14, 0x676f02d9), (FG, RB, 12, 20, 0x8d2a4c8a)],
     [(FH, RA, 5, 4, 0xfffa3942), (FH, RD, 8, 11, 0x8771f681)],
     [(FH, RC, 11, 16, 0x6d9d6122), (FH, RB, 14, 23, 0xfde5380c)],
     [(FH, RA, 1, 4, 0xa4beea44), (FH, RD, 4, 11, 0x4bdecfa9)],
     [(FH, RC, 7, 16, 0xf6bb4b60), (FH, RB, 10, 23, 0xbebfbc70)],
     [(FH, RA, 13, 4, 0x289b7ec6), (FH, RD, 0, 11, 0xeaa127fa)],
     [(FH, RC, 3, 16, 0xd4ef3085), (FH, RB, 6, 23, 0x04881d05)],
     [(FH, RA, 9, 4, 0xd9d4d039), (FH, RD, 12, 11, 0xe6db99e5)],
     [(FH, RC, 15, 16, 0x1fa27cf8), (FH, RB, 2, 23, 0xc4ac5665)],
     [(FI, RA, 0, 6, 0xf4292244), (FI, RD, 7, 10, 0x432aff97)],
     [(FI, RC, 14, 15, 0xab9423a7), (FI, RB, 5, 21, 0xfc93a039)],
     [(FI, RA, 12, 6, 0x655b59c3), (FI, RD, 3, 10, 0x8f0ccc92)],
     [(FI, RC, 10, 15, 0xffeff47d), (FI, RB, 1, 21, 0x85845dd1)],
     [(FI, RA, 8, 6, 0x6fa87e4f), (FI, RD, 15, 10, 0xfe2ce6e0)],
     [(FI, RC, 6, 15, 0xa3014314), (FI, RB, 13, 21, 0x4e0811a1)],
     [(FI, RA, 4, 6, 0xf7537e82), (FI, RD, 11, 10, 0xbd3af235)],
     [(FI, RC, 2, 15, 0x2ad7d2bb), (FI, RB, 9, 21, 0xeb86d391)]]"

definition md5_rounds_small0 :: "u32 list \<Rightarrow> quad \<Rightarrow> quad" where
  "md5_rounds_small0 words q = foldl (exec_line words) q unrolled_lines"

subsection \<open>\<open>MD5_SMALL == 2\<close> and \<open>MD5_SMALL == 3\<close>: the registers rotate\<close>

definition rotating_iter ::
  "(u32 \<Rightarrow> u32 \<Rightarrow> u32 \<Rightarrow> u32) \<Rightarrow> u32 \<Rightarrow> u32 \<Rightarrow> nat \<Rightarrow> quad \<Rightarrow> quad" where
  "rotating_iter f w T s = (\<lambda>(A, B, C, D).
     let temp = A + f B C D + w + T;
         temp = rotl32 temp s;
         temp = temp + B
     in (D, temp, B, C))"

definition md5_rounds_small2 :: "u32 list \<Rightarrow> quad \<Rightarrow> quad" where
  "md5_rounds_small2 words q =
     (let q = foldl (\<lambda>q i. rotating_iter FF (words ! (P_array 2 ! i)) (C_array ! i)
                (S_array ! (i mod 4)) q) q [0..<16];
          q = foldl (\<lambda>q i. rotating_iter FG (words ! (P_array 2 ! (16+i))) (C_array ! (16+i))
                (S_array ! (4 + i mod 4)) q) q [0..<16];
          q = foldl (\<lambda>q i. rotating_iter FH (words ! (P_array 2 ! (32+i))) (C_array ! (32+i))
                (S_array ! (8 + i mod 4)) q) q [0..<16];
          q = foldl (\<lambda>q i. rotating_iter FI (words ! (P_array 2 ! (48+i))) (C_array ! (48+i))
                (S_array ! (12 + i mod 4)) q) q [0..<16]
      in q)"

text \<open>
  In variant 3 the shift pointer \<open>ps\<close> starts four entries before the table and advances by
  four whenever \<open>i & 0x0f\<close> is 0, so it stands at \<open>4 * (i div 16)\<close> in iteration
  \<open>i\<close>.
\<close>

definition md5_rounds_small3 :: "u32 list \<Rightarrow> quad \<Rightarrow> quad" where
  "md5_rounds_small3 words q =
     foldl (\<lambda>q i. rotating_iter
         (case i div 16 of 0 \<Rightarrow> FF | Suc 0 \<Rightarrow> FG | Suc (Suc 0) \<Rightarrow> FH | _ \<Rightarrow> FI)
         (words ! (P_array 3 ! i)) (C_array ! i) (S_array ! (4 * (i div 16) + i mod 4)) q)
       q [0..<64]"

definition md5_rounds :: "nat \<Rightarrow> u32 list \<Rightarrow> quad \<Rightarrow> quad" where
  "md5_rounds small =
     (if small = 0 then md5_rounds_small0 else if small = 1 then md5_rounds_small1
      else if small = 2 then md5_rounds_small2 else md5_rounds_small3)"

section \<open>The block function\<close>

definition md5_block :: "nat \<Rightarrow> md5_ctx \<Rightarrow> md5_ctx" where
  "md5_block small ctx =
     (let words = map (load32 (wbuffer ctx)) [0..<16];
          h = hash ctx;
          (A, B, C, D) = md5_rounds small words (h ! 0, h ! 1, h ! 2, h ! 3)
      in ctx\<lparr>hash := h[0 := h ! 0 + A, 1 := h ! 1 + B, 2 := h ! 2 + C, 3 := h ! 3 + D]\<rparr>)"

definition md5_process_block64 :: "md5_ctx \<Rightarrow> md5_ctx" where
  "md5_process_block64 = md5_block MD5_SMALL"

section \<open>The operations of RFC 1321\<close>

text \<open>
  Operation \<open>t\<close> (0 to 63) of RFC 1321, section 3.4: the auxiliary function of its round, the
  index of its message word, its shift amount. The constants are the table \<open>C_array\<close>.
\<close>

definition rfc_F :: "nat \<Rightarrow> u32 \<Rightarrow> u32 \<Rightarrow> u32 \<Rightarrow> u32" where
  "rfc_F t x y z =
     (if t < 16 then (x AND y) OR (NOT x AND z)
      else if t < 32 then (x AND z) OR (y AND NOT z)
      else if t < 48 then x XOR y XOR z
      else y XOR (x OR NOT z))"

definition rfc_k :: "nat \<Rightarrow> nat" where
  "rfc_k t =
     (if t < 16 then t else if t < 32 then (5 * t + 1) mod 16
      else if t < 48 then (3 * t + 5) mod 16 else (7 * t) mod 16)"

definition rfc_s :: "nat \<Rightarrow> nat" where
  "rfc_s t = [[7, 12, 17, 22], [5, 9, 14, 20], [4, 11, 16, 23], [6, 10, 15, 21]]
     ! (t div 16) ! (t mod 4)"

definition rfc_step :: "u32 list \<Rightarrow> quad \<Rightarrow> nat \<Rightarrow> quad" where
  "rfc_step X = (\<lambda>(a, b, c, d) t.
     (d, b + word_rotl (rfc_s t) (a + rfc_F t b c d + X ! rfc_k t + C_array ! t), b, c))"

definition rfc_md5_compress :: "u32 list \<Rightarrow> bytes \<Rightarrow> u32 list" where
  "rfc_md5_compress h block =
     (let (a, b, c, d) = foldl (rfc_step (map (load32 block) [0..<16]))
            (h ! 0, h ! 1, h ! 2, h ! 3) [0..<64]
      in h[0 := h ! 0 + a, 1 := h ! 1 + b, 2 := h ! 2 + c, 3 := h ! 3 + d])"

subsection \<open>The macros are the RFC's functions\<close>

lemma FF_rfc: "FF x y z = (x AND y) OR (NOT x AND z)"
  by (rule bit_word_eqI) (auto simp: FF_def bit_simps)

lemma FG_rfc: "FG x y z = (x AND z) OR (y AND NOT z)"
  by (rule bit_word_eqI) (auto simp: FG_def FF_def bit_simps)

lemma rfc_F_FF: "t < 16 \<Longrightarrow> rfc_F t = FF"
  by (simp add: fun_eq_iff rfc_F_def FF_rfc)

lemma rfc_F_FG: "16 \<le> t \<Longrightarrow> t < 32 \<Longrightarrow> rfc_F t = FG"
  by (simp add: fun_eq_iff rfc_F_def FG_rfc)

lemma rfc_F_FH: "32 \<le> t \<Longrightarrow> t < 48 \<Longrightarrow> rfc_F t = FH"
  by (simp add: fun_eq_iff rfc_F_def FH_def)

lemma rfc_F_FI: "48 \<le> t \<Longrightarrow> rfc_F t = FI"
  by (simp add: fun_eq_iff rfc_F_def FI_def)

lemmas rfc_F_macros = rfc_F_FF rfc_F_FG rfc_F_FH rfc_F_FI

subsection \<open>The tables are the RFC's schedules\<close>

lemma upt_nat_cases:
  assumes "t < 64"
  shows "P_array 2 ! t = rfc_k t \<and> S_array ! (4 * (t div 16) + t mod 4) = rfc_s t
    \<and> rfc_k t < 16 \<and> rfc_s t < 32"
proof -
  have "list_all (\<lambda>t. P_array 2 ! t = rfc_k t \<and> S_array ! (4 * (t div 16) + t mod 4) = rfc_s t
    \<and> rfc_k t < 16 \<and> rfc_s t < 32) [0..<64]"
    by code_simp
  then show ?thesis using assms by (simp add: list_all_iff)
qed

lemmas rfc_k_table = upt_nat_cases [THEN conjunct1]
lemmas rfc_s_table = upt_nat_cases [THEN conjunct2, THEN conjunct1]
lemmas rfc_s_bound = upt_nat_cases [THEN conjunct2, THEN conjunct2, THEN conjunct2]

subsection \<open>Every variant runs the RFC's 64 operations\<close>

lemma rfc_step_rotating:
  "t < 64 \<Longrightarrow> rfc_step X q t =
     rotating_iter (rfc_F t) (X ! rfc_k t) (C_array ! t) (rfc_s t) q"
  by (cases q) (simp add: rfc_step_def rotating_iter_def rfc_s_bound rotl32_word_rotl Let_def
      add.commute)

lemma small3_rfc: "md5_rounds_small3 words q = foldl (rfc_step words) q [0..<64]"
  unfolding md5_rounds_small3_def
proof (rule foldl_cong_set)
  fix q t assume "t \<in> set [0..<64::nat]"
  then have t: "t < 64" by simp
  have "P_array 3 ! t = rfc_k t"
    using rfc_k_table [OF t] by (simp add: P_array_def)
  moreover have "(case t div 16 of 0 \<Rightarrow> FF | Suc 0 \<Rightarrow> FG | Suc (Suc 0) \<Rightarrow> FH | _ \<Rightarrow> FI) = rfc_F t"
  proof -
    consider "t < 16" | "16 \<le> t" "t < 32" | "32 \<le> t" "t < 48" | "48 \<le> t" by linarith
    then show ?thesis
    proof cases
      case 2
      then have "t div 16 = 1" by auto
      with 2 show ?thesis by (simp add: rfc_F_macros)
    next
      case 3
      then have "t div 16 = 2" by auto
      with 3 show ?thesis by (simp add: rfc_F_macros numeral_2_eq_2)
    next
      case 4
      then have "t div 16 = 3" using t by auto
      with 4 show ?thesis by (simp add: rfc_F_macros numeral_3_eq_3)
    qed (simp add: rfc_F_macros)
  qed
  ultimately show "rotating_iter
      (case t div 16 of 0 \<Rightarrow> FF | Suc 0 \<Rightarrow> FG | Suc (Suc 0) \<Rightarrow> FH | _ \<Rightarrow> FI)
      (words ! (P_array 3 ! t)) (C_array ! t) (S_array ! (4 * (t div 16) + t mod 4)) q
    = rfc_step words q t"
    using t by (simp only: rfc_step_rotating rfc_s_table)
qed

text \<open>A loop of 16 iterations in variant 2 is 16 operations of the RFC.\<close>

lemma foldl_shifted: "foldl (\<lambda>q i. g q (n + i)) q [0..<k] = foldl g q [n..<n + k]"
proof -
  have "[n..<n + k] = map (\<lambda>i. n + i) [0..<k]"
    by (simp add: map_add_upt add.commute)
  then show ?thesis by (simp add: foldl_map)
qed

lemma small2_loop:
  assumes "r < 4" and "\<And>t. t div 16 = r \<Longrightarrow> t < 64 \<Longrightarrow> rfc_F t = f"
  shows "foldl (\<lambda>q i. rotating_iter f (words ! (P_array 2 ! (16*r+i))) (C_array ! (16*r+i))
           (S_array ! (4*r + i mod 4)) q) q [0..<16] = foldl (rfc_step words) q [16*r..<16*r+16]"
proof -
  have "foldl (\<lambda>q i. rotating_iter f (words ! (P_array 2 ! (16*r+i))) (C_array ! (16*r+i))
           (S_array ! (4*r + i mod 4)) q) q [0..<16]
      = foldl (\<lambda>q i. rfc_step words q (16*r+i)) q [0..<16]"
  proof (rule foldl_cong_set)
    fix q i assume "i \<in> set [0..<16::nat]"
    then have i: "i < 16" by simp
    then have t: "16*r+i < 64" and d: "(16*r+i) div 16 = r" and m: "(16*r+i) mod 4 = i mod 4"
      using assms(1) by (auto simp: mod_add_eq mod_mult_right_eq) presburger+
    from rfc_s_table [OF t] d m have "S_array ! (4*r + i mod 4) = rfc_s (16*r+i)" by simp
    then show "rotating_iter f (words ! (P_array 2 ! (16*r+i))) (C_array ! (16*r+i))
        (S_array ! (4*r + i mod 4)) q = rfc_step words q (16*r+i)"
      using rfc_k_table [OF t] assms(2) [OF d t] t by (simp only: rfc_step_rotating)
  qed
  then show ?thesis by (simp only: foldl_shifted)
qed

lemma upt_64_split: "[0..<64::nat] = [0..<16] @ [16..<32] @ [32..<48] @ [48..<64]"
  by code_simp

lemma small2_rfc: "md5_rounds_small2 words q = foldl (rfc_step words) q [0..<64]"
  using small2_loop [of 0 FF words] small2_loop [of 1 FG words] small2_loop [of 2 FH words]
    small2_loop [of 3 FI words]
  unfolding md5_rounds_small2_def upt_64_split
  by (simp add: rfc_F_macros Let_def )

text \<open>An iteration of variant 1 is four operations, after which the registers are back in place.\<close>

lemma rfc_step_OP:
  "t < 64 \<Longrightarrow> rfc_F t = f \<Longrightarrow> rfc_s t = s \<Longrightarrow>
   rfc_step words (a, b, c, d) t = (d, OP f a b c d (words ! rfc_k t) s (C_array ! t), b, c)"
  using rfc_s_bound [of t]
  by (auto simp: rfc_step_def OP_def rotl32_word_rotl ac_simps)

lemma quad_steps:
  assumes "t + 3 < 64"
    and "rfc_F t = f" "rfc_F (t + 1) = f" "rfc_F (t + 2) = f" "rfc_F (t + 3) = f"
    and "rfc_s t = s0" "rfc_s (t + 1) = s1" "rfc_s (t + 2) = s2" "rfc_s (t + 3) = s3"
  shows "foldl (rfc_step words) (A, B, C, D) [t..<t + 4] =
    (let A = OP f A B C D (words ! rfc_k t) s0 (C_array ! t);
         D = OP f D A B C (words ! rfc_k (t+1)) s1 (C_array ! (t+1));
         C = OP f C D A B (words ! rfc_k (t+2)) s2 (C_array ! (t+2));
         B = OP f B C D A (words ! rfc_k (t+3)) s3 (C_array ! (t+3))
     in (A, B, C, D))"
proof -
  have "[t..<t + 4] = [t, t+1, t+2, t+3]"
    by (simp add: upt_conv_Cons)
  then show ?thesis
    using assms(1) by (simp add: rfc_step_OP [OF _ assms(2) assms(6)] Let_def
      rfc_step_OP [OF _ assms(3) assms(7)] rfc_step_OP [OF _ assms(4) assms(8)]
      rfc_step_OP [OF _ assms(5) assms(9)] del: One_nat_def add_2_eq_Suc' add_Suc_right)
qed

lemma below_4: "i < (4::nat) \<Longrightarrow> i = 0 \<or> i = 1 \<or> i = 2 \<or> i = 3"
  by auto

lemma round1_rfc: "i < 4 \<Longrightarrow> round1_iter words q i = foldl (rfc_step words) q [4*i..<4*i+4]"
  by (cases q; drule below_4; elim disjE; hypsubst; subst quad_steps;
      simp add: rfc_F_macros rfc_k_def rfc_s_def round1_iter_def)

lemma round2_rfc: "i < 4 \<Longrightarrow> round2_iter words q i = foldl (rfc_step words) q [16+4*i..<16+4*i+4]"
  by (cases q; drule below_4; elim disjE; hypsubst; subst quad_steps;
      simp add: rfc_F_macros rfc_k_def rfc_s_def round2_iter_def P_array_def)

lemma round3_rfc: "i < 4 \<Longrightarrow> round3_iter words q i = foldl (rfc_step words) q [32+4*i..<32+4*i+4]"
  by (cases q; drule below_4; elim disjE; hypsubst; subst quad_steps;
      simp add: rfc_F_macros rfc_k_def rfc_s_def round3_iter_def P_array_def)

lemma round4_rfc: "i < 4 \<Longrightarrow> round4_iter words q i = foldl (rfc_step words) q [48+4*i..<48+4*i+4]"
  by (cases q; drule below_4; elim disjE; hypsubst; subst quad_steps;
      simp add: rfc_F_macros rfc_k_def rfc_s_def round4_iter_def P_array_def)

lemma upt_quads:
  "[n..<n + 16] = [n..<n + 4] @ [n + 4..<n + 8] @ [n + 8..<n + 12] @ [n + 12..<n + 16::nat]"
  by (simp add: upt_add_eq_append [of n] upt_conv_Cons)

lemma four_iterations:
  assumes "\<And>q i. i < 4 \<Longrightarrow> f q i = foldl g q [n+4*i..<n+4*i+4]"
  shows "foldl f q [0..<4::nat] = foldl g q [n..<n+16::nat]"
  using assms [of 0] assms [of 1] assms [of 2] assms [of 3]
  by (simp add: upt_0_4 upt_quads [of n] add.commute)

lemma small1_rfc: "md5_rounds_small1 words q = foldl (rfc_step words) q [0..<64]"
  using four_iterations [of "round1_iter words" "rfc_step words" 0]
    four_iterations [of "round2_iter words" "rfc_step words" 16]
    four_iterations [of "round3_iter words" "rfc_step words" 32]
    four_iterations [of "round4_iter words" "rfc_step words" 48]
  by (simp add: md5_rounds_small1_def upt_64_split round1_rfc round2_rfc round3_rfc round4_rfc
      del: upt_rec_numeral)

text \<open>Each line of the unrolled variant is the corresponding operation.\<close>

definition rfc_line :: "nat \<Rightarrow> op_line" where
  "rfc_line t = (if t < 16 then FF else if t < 32 then FG else if t < 48 then FH else FI,
     [RA, RD, RC, RB] ! (t mod 4), rfc_k t, rfc_s t, C_array ! t)"

lemma length_C_array [simp, length_simps]: "length C_array = 64"
  by (simp add: C_array_def)

lemma unrolled_lines_rfc: "unrolled_lines = map rfc_line [0..<64]"
proof -
  have "map rfc_line [0..<64] = map2 (\<lambda>t T. (fst (rfc_line t), [RA, RD, RC, RB] ! (t mod 4),
      rfc_k t, rfc_s t, T)) [0..<64] C_array"
    by (rule nth_equalityI) (simp_all add: rfc_line_def)
  then show ?thesis
    by (simp add: unrolled_lines_def rfc_line_def rfc_k_def rfc_s_def C_array_def upt_conv_Cons)
qed

lemma exec_quad:
  assumes "i < 16"
  shows "foldl (\<lambda>q t. exec_line words q (rfc_line t)) q [4*i..<4*i+4]
    = foldl (rfc_step words) q [4*i..<4*i+4]"
proof -
  obtain A B C D where q: "q = (A, B, C, D)" by (cases q)
  have m: "(4*i) mod 4 = 0" "(4*i+1) mod 4 = 1" "(4*i+2) mod 4 = 2" "(4*i+3) mod 4 = 3"
    by presburger+
  have F: "fst (rfc_line t) = rfc_F t" for t
    by (simp add: rfc_line_def rfc_F_macros)
  define f where "f = rfc_F (4*i)"
  have f: "rfc_F (4*i) = f" "rfc_F (4*i+1) = f" "rfc_F (4*i+2) = f" "rfc_F (4*i+3) = f"
    by (auto simp: f_def rfc_F_def fun_eq_iff)
  have "[4*i..<4*i+4] = [4*i, 4*i+1, 4*i+2, 4*i+3]"
    by (simp add: upt_conv_Cons)
  moreover have "rfc_line t = (rfc_F t, snd (rfc_line t))" for t
    using F [of t] by (metis prod.collapse)
  ultimately show ?thesis
    using assms f m unfolding q
    by (subst quad_steps [OF _ f]) (simp_all add: rfc_line_def Let_def)
qed

lemma upt_64_quads: "[0..<64] = concat (map (\<lambda>i. [4*i..<4*i+4]) [0..<16])"
  by code_simp

lemma foldl_concat_cong:
  "(\<And>q i. i \<in> set is \<Longrightarrow> foldl f q (ts i) = foldl g q (ts i)) \<Longrightarrow>
   foldl f q (concat (map ts is)) = foldl g q (concat (map ts is))"
  by (induction "is" arbitrary: q) auto

lemma small0_rfc: "md5_rounds_small0 words q = foldl (rfc_step words) q [0..<64]"
proof -
  have "md5_rounds_small0 words q = foldl (\<lambda>q t. exec_line words q (rfc_line t)) q [0..<64]"
    by (simp only: md5_rounds_small0_def unrolled_lines_rfc foldl_map)
  also have "\<dots> = foldl (rfc_step words) q [0..<64]"
    unfolding upt_64_quads by (rule foldl_concat_cong) (simp only: set_upt atLeastLessThan_iff exec_quad)
  finally show ?thesis .
qed

lemma md5_rounds_rfc: "md5_rounds small words q = foldl (rfc_step words) q [0..<64]"
  by (auto simp only: md5_rounds_def small0_rfc small1_rfc small2_rfc small3_rfc split: if_split)

lemma md5_block_rfc: "md5_block small ctx = ctx\<lparr>hash := rfc_md5_compress (hash ctx) (wbuffer ctx)\<rparr>"
  by (simp only: md5_block_def md5_rounds_rfc rfc_md5_compress_def Let_def)
     (simp add: split_beta)

lemma length_rfc_md5_compress [simp, length_simps]: "length (rfc_md5_compress h b) = length h"
  by (simp add: rfc_md5_compress_def split_beta Let_def)

section \<open>Properties\<close>

text \<open>
  Property C29: whatever value of \<open>MD5_SMALL\<close> the code is compiled with (unrolled, four
  loops, rotating registers, one loop), the block function changes the context's \<open>hash\<close> to
  the compression function of RFC 1321 applied to it and the buffered block, and nothing else.
\<close>

theorem md5_all_variants_rfc1321:
  "md5_block small ctx = ctx\<lparr>hash := rfc_md5_compress (hash ctx) (wbuffer ctx)\<rparr>"
  by (rule md5_block_rfc)

end
