(* ===== verification/Sha1.thy ===== *)
theory Sha1
  imports Hash_Ctx
begin

text \<open>
  SHA-1's block function \<open>sha1_process_block64\<close> of \<open>libbb/hash_md5_sha.c\<close>, which
  keeps only the last 16 words of the message schedule, in a buffer of 32 words that is written
  twice so that no index wraps; and FIPS 180's description with the full schedule of 80 words.
\<close>

section \<open>The block function\<close>

definition rconsts :: "u32 list" where
  "rconsts = [0x5A827999, 0x6ED9EBA1, 0x8F1BBCDC, 0xCA62C1D6]"

record sha1_locals =
  W1 :: "u32 list"
  cnt :: nat
  rega :: u32
  regb :: u32
  regc :: u32
  regd :: u32
  rege :: u32

text \<open>The label \<open>ge16\<close>: extend the schedule in place and add the new word.\<close>

definition sha1_ge16 :: "sha1_locals \<Rightarrow> u32 \<Rightarrow> u32 list \<times> u32" where
  "sha1_ge16 s work =
     (let w = W1 s; n = cnt s;
          v = rotl32 (w ! (n+13) XOR w ! (n+8) XOR w ! (n+2) XOR w ! n) 1
      in (w[n+16 := v, n := v], work + v))"

text \<open>The body of the \<open>do ... while (--j >= 0)\<close> loop.\<close>

definition sha1_body :: "nat \<Rightarrow> sha1_locals \<Rightarrow> nat \<Rightarrow> sha1_locals" where
  "sha1_body i s j =
     (let a = rega s; b = regb s; c = regc s; d = regd s; e = rege s;
          work = c XOR d;
          (w, work) =
            (if i = 0
             then (let work = (work AND b) XOR d
                   in if j \<le> 3 then sha1_ge16 s work else (W1 s, work + W1 s ! cnt s))
             else sha1_ge16 s
               (if i = 2 then ((b OR c) AND d) OR (b AND c) else work XOR b));
          work = work + (e + rotl32 a 5 + rconsts ! i)
      in s\<lparr>W1 := w, cnt := (cnt s + 1) AND 15, rega := work, regb := a, regc := rotl32 b 30,
           regd := c, rege := d\<rparr>)"

definition sha1_rounds :: "sha1_locals \<Rightarrow> sha1_locals" where
  "sha1_rounds s = foldl (\<lambda>s i. foldl (sha1_body i) s (rev [0..<20])) s [0..<4]"

definition sha1_process_block64 :: "md5_ctx \<Rightarrow> md5_ctx" where
  "sha1_process_block64 ctx =
     (let m = map (\<lambda>i. SWAP_BE32 (load32 (wbuffer ctx) i)) [0..<16];
          h = hash ctx;
          s = sha1_rounds \<lparr>W1 = m @ m, cnt = 0, rega = h ! 0, regb = h ! 1, regc = h ! 2,
                regd = h ! 3, rege = h ! 4\<rparr>
      in ctx\<lparr>hash := h[0 := h ! 0 + rega s, 1 := h ! 1 + regb s, 2 := h ! 2 + regc s,
                      3 := h ! 3 + regd s, 4 := h ! 4 + rege s]\<rparr>)"

section \<open>FIPS 180\<close>

text \<open>
  \<open>expand f M k\<close> appends \<open>k\<close> words to a message schedule, each computed by \<open>f\<close>
  from the words before it.
\<close>

primrec expand :: "('w list \<Rightarrow> 'w) \<Rightarrow> 'w list \<Rightarrow> nat \<Rightarrow> 'w list" where
  "expand f M 0 = M"
| "expand f M (Suc k) = (let w = expand f M k in w @ [f w])"

lemma length_expand [simp, length_simps]: "length (expand f M k) = length M + k"
  by (induction k) (simp_all add: Let_def)

lemma expand_add: "expand f M (k + l) = expand f (expand f M k) l"
  by (induction l) (simp_all add: Let_def)

lemma nth_expand_prefix: "i < length M \<Longrightarrow> expand f M k ! i = M ! i"
  by (induction k) (simp_all add: Let_def nth_append)

lemma nth_expand_stable:
  assumes "i < length M + k" "k \<le> l"
  shows "expand f M l ! i = expand f M k ! i"
proof -
  have "expand f M l = expand f (expand f M k) (l - k)"
    using assms(2) by (metis expand_add le_add_diff_inverse)
  then show ?thesis using assms(1) by (simp add: nth_expand_prefix)
qed

lemma nth_expand_last:
  "k < l \<Longrightarrow> expand f M l ! (length M + k) = f (expand f M k)"
  by (subst nth_expand_stable [of _ M "Suc k"]) (simp_all add: Let_def nth_append)

definition sha1_next :: "u32 list \<Rightarrow> u32" where
  "sha1_next w = (let t = length w in
     word_rotl 1 (w ! (t - 3) XOR w ! (t - 8) XOR w ! (t - 14) XOR w ! (t - 16)))"

definition sha1_schedule :: "u32 list \<Rightarrow> u32 list" where
  "sha1_schedule M = expand sha1_next M 64"

definition fips_f :: "nat \<Rightarrow> u32 \<Rightarrow> u32 \<Rightarrow> u32 \<Rightarrow> u32" where
  "fips_f t x y z =
     (if t < 20 then (x AND y) XOR (NOT x AND z)
      else if t < 40 then x XOR y XOR z
      else if t < 60 then (x AND y) XOR (x AND z) XOR (y AND z)
      else x XOR y XOR z)"

type_synonym pent = "u32 \<times> u32 \<times> u32 \<times> u32 \<times> u32"

text \<open>The constants as the standard lists them, by the number of the operation.\<close>

definition fips_sha1_K :: "nat \<Rightarrow> u32" where
  "fips_sha1_K t =
     (if t \<le> 19 then 0x5A827999 else if t \<le> 39 then 0x6ED9EBA1
      else if t \<le> 59 then 0x8F1BBCDC else 0xCA62C1D6)"

definition fips_sha1_step :: "u32 list \<Rightarrow> pent \<Rightarrow> nat \<Rightarrow> pent" where
  "fips_sha1_step w = (\<lambda>(a, b, c, d, e) t.
     (word_rotl 5 a + fips_f t b c d + e + fips_sha1_K t + w ! t,
      a, word_rotl 30 b, c, d))"

definition be32_words :: "bytes \<Rightarrow> u32 list" where
  "be32_words block =
     map (\<lambda>i. le32 (block ! (4*i+3)) (block ! (4*i+2)) (block ! (4*i+1)) (block ! (4*i))) [0..<16]"

definition fips_sha1_compress :: "u32 list \<Rightarrow> bytes \<Rightarrow> u32 list" where
  "fips_sha1_compress h block =
     (let (a, b, c, d, e) = foldl (fips_sha1_step (sha1_schedule (be32_words block)))
            (h ! 0, h ! 1, h ! 2, h ! 3, h ! 4) [0..<80]
      in h[0 := h ! 0 + a, 1 := h ! 1 + b, 2 := h ! 2 + c, 3 := h ! 3 + d, 4 := h ! 4 + e])"

lemma rconsts_fips: "t < 80 \<Longrightarrow> rconsts ! (t div 20) = fips_sha1_K t"
proof -
  assume "t < 80"
  then consider "t < 20" "t div 20 = 0" | "20 \<le> t" "t < 40" "t div 20 = 1"
    | "40 \<le> t" "t < 60" "t div 20 = 2" | "60 \<le> t" "t div 20 = 3" by fastforce
  then show ?thesis by cases (simp_all add: rconsts_def fips_sha1_K_def)
qed

text \<open>They are the square roots of 2, 3, 5 and 10 with thirty bits after the point.\<close>

lemma fips_sha1_K_roots:
  "list_all2 (\<lambda>t n. (unat (fips_sha1_K t))\<^sup>2 \<le> n * 2 ^ 60 \<and> n * 2 ^ 60 < (unat (fips_sha1_K t) + 1)\<^sup>2)
     [0, 20, 40, 60] [2, 3, 5, 10]"
  by (simp add: fips_sha1_K_def power2_eq_square)

section \<open>The circular schedule\<close>

lemma sha1_schedule_first: "length M = 16 \<Longrightarrow> t < 16 \<Longrightarrow> sha1_schedule M ! t = M ! t"
  by (simp add: sha1_schedule_def nth_expand_prefix)

lemma sha1_schedule_next:
  assumes "length M = 16" "16 \<le> t" "t < 80"
  shows "sha1_schedule M ! t =
    word_rotl 1 (sha1_schedule M ! (t - 3) XOR sha1_schedule M ! (t - 8)
      XOR sha1_schedule M ! (t - 14) XOR sha1_schedule M ! (t - 16))"
proof -
  have *: "sha1_schedule M ! (t - r) = expand sha1_next M (t - 16) ! (t - r)" if "0 < r" for r
    using assms that by (auto simp: sha1_schedule_def intro: nth_expand_stable)
  have "sha1_schedule M ! t = sha1_next (expand sha1_next M (t - 16))"
    using nth_expand_last [of "t - 16" 64 sha1_next M] assms by (simp add: sha1_schedule_def)
  then show ?thesis
    using assms by (simp add: sha1_next_def * Let_def)
qed

text \<open>
  What the 32-word buffer holds when operation \<open>t\<close> starts: both halves agree, and the 16
  words from \<open>cnt\<close> on are the last 16 schedule words (at first: the message, rotated).
\<close>

definition circ :: "u32 list \<Rightarrow> nat \<Rightarrow> u32 list \<Rightarrow> nat \<Rightarrow> bool" where
  "circ M t w n \<longleftrightarrow> length w = 32 \<and> n = t mod 16 \<and> (\<forall>p < 16. w ! (p + 16) = w ! p) \<and>
     (\<forall>r < 16. w ! (n + r) = sha1_schedule M ! (if t < 16 then (t + r) mod 16 else t - 16 + r))"

lemma circ_start: "length M = 16 \<Longrightarrow> circ M 0 (M @ M) 0"
  by (simp add: circ_def nth_append sha1_schedule_first)

lemma circ_ge16:
  assumes "circ M t w n" "length M = 16" "16 \<le> t" "t < 80"
  shows "rotl32 (w ! (n+13) XOR w ! (n+8) XOR w ! (n+2) XOR w ! n) 1 = sha1_schedule M ! t"
proof -
  have "w ! (n + r) = sha1_schedule M ! (t - (16 - r))" if "r < 16" for r
    using assms that by (auto simp: circ_def)
  from this [of 13] this [of 8] this [of 2] this [of 0] show ?thesis
    using assms by (simp add: sha1_schedule_next rotl32_word_rotl)
qed

lemma and_15: "(n::nat) AND 15 = n mod 16"
  using take_bit_eq_mask [of 4 n] by (simp add: take_bit_eq_mod mask_eq_exp_minus_1)

lemma circ_advance:
  assumes "length w = 32" "n = t mod 16" "\<forall>p < 16. w ! (p + 16) = w ! p"
    and step: "\<And>r. r < 16 \<Longrightarrow> w ! (n + 1 + r) =
      sha1_schedule M ! (if Suc t < 16 then (Suc t + r) mod 16 else Suc t - 16 + r)"
  shows "circ M (Suc t) w ((n + 1) AND 15)"
proof (cases "n = 15")
  case True
  then have "Suc t mod 16 = 0" using assms(2) by (simp add: mod_Suc)
  moreover have "w ! r = w ! (n + 1 + r)" if "r < 16" for r
    using assms(3) that True by (simp add: add.commute)
  ultimately show ?thesis
    using assms(1,3) step True by (auto simp: circ_def and_15)
next
  case False
  then have "Suc t mod 16 = n + 1" using assms(2) by (simp add: mod_Suc)
  then show ?thesis
    using assms(1,3) step False by (auto simp: circ_def and_15 simp del: One_nat_def)
qed

lemma circ_early:
  assumes "circ M t w n" "t < 16"
  shows "circ M (Suc t) w ((n + 1) AND 15)"
proof (rule circ_advance)
  fix r :: nat assume r: "r < 16"
  have n: "n = t" and w: "w ! (t + 16) = w ! t"
    and at: "\<And>r. r < 16 \<Longrightarrow> w ! (t + r) = sha1_schedule M ! ((t + r) mod 16)"
    using assms by (auto simp: circ_def)
  have "w ! (t + Suc r) = sha1_schedule M ! ((t + Suc r) mod 16)"
  proof (cases "r = 15")
    case True
    then show ?thesis using w at [of 0] assms(2) by simp
  qed (use r at [of "Suc r"] in simp)
  then show "w ! (n + 1 + r) =
      sha1_schedule M ! (if Suc t < 16 then (Suc t + r) mod 16 else Suc t - 16 + r)"
    using n r assms(2) by (cases "t = 15") auto
qed (use assms in \<open>auto simp: circ_def\<close>)

lemma circ_store:
  assumes "circ M t w n" "16 \<le> t" "v = sha1_schedule M ! t"
  shows "circ M (Suc t) (w[n + 16 := v, n := v]) ((n + 1) AND 15)"
proof (rule circ_advance)
  have n: "n < 16" and len: "length w = 32" using assms by (auto simp: circ_def)
  have sym: "\<forall>p < 16. w ! (p + 16) = w ! p" using assms by (simp add: circ_def)
  then show "\<forall>p < 16. w[n + 16 := v, n := v] ! (p + 16) = w[n + 16 := v, n := v] ! p"
    using n len by (auto simp: nth_list_update)
  fix r :: nat assume r: "r < 16"
  show "w[n + 16 := v, n := v] ! (n + 1 + r) =
      sha1_schedule M ! (if Suc t < 16 then (Suc t + r) mod 16 else Suc t - 16 + r)"
  proof (cases "r = 15")
    case True
    then show ?thesis using assms n len by (simp add: nth_list_update)
  next
    case False
    have "w ! (n + r) = sha1_schedule M ! (t - 16 + r)" if "r < 16" for r
      using assms that by (auto simp: circ_def)
    from this [of "Suc r"] have "w ! (n + Suc r) = sha1_schedule M ! (t - 16 + Suc r)"
      using r False by simp
    moreover have "Suc (t + r - 16) = t + r - 15" using assms(2) by simp
    ultimately show ?thesis using assms(2) n len r False by (auto simp: nth_list_update)
  qed
qed (use assms in \<open>auto simp: circ_def\<close>)

section \<open>The code computes FIPS 180's compression\<close>

definition pent_of :: "sha1_locals \<Rightarrow> pent" where
  "pent_of s = (rega s, regb s, regc s, regd s, rege s)"

lemma ch_code: "((c XOR d) AND b) XOR d = (b AND c) XOR (NOT b AND d)" for b c d :: u32
  by (rule bit_word_eqI) (auto simp: bit_simps)

lemma parity_code: "(c XOR d) XOR b = b XOR c XOR d" for b c d :: u32
  by (simp add: ac_simps)

lemma maj_code: "((b OR c) AND d) OR (b AND c) = (b AND c) XOR (b AND d) XOR (c AND d)"
  for b c d :: u32
  by (rule bit_word_eqI) (auto simp: bit_simps)

lemma sha1_body_step:
  assumes "circ M t (W1 s) (cnt s)" "length M = 16" "i = t div 20" "j = 19 - t mod 20" "t < 80"
  shows "circ M (Suc t) (W1 (sha1_body i s j)) (cnt (sha1_body i s j)) \<and>
    pent_of (sha1_body i s j) = fips_sha1_step (sha1_schedule M) (pent_of s) t"
proof (cases "t < 16")
  have K: "rconsts ! i = fips_sha1_K t" using rconsts_fips [OF assms(5)] assms(3) by simp
  case True
  then have i: "i = 0" and j: "\<not> j \<le> 3" using assms by auto
  have "W1 s ! cnt s = sha1_schedule M ! t"
    using assms(1) True by (auto simp: circ_def dest: spec [of _ 0])
  then show ?thesis
    using circ_early [OF assms(1) True] i j True K
    by (simp add: sha1_body_def pent_of_def fips_sha1_step_def fips_f_def rotl32_word_rotl ch_code
        Let_def add_ac)
next
  have K: "rconsts ! i = fips_sha1_K t" using rconsts_fips [OF assms(5)] assms(3) by simp
  case False
  define v where "v = sha1_schedule M ! t"
  have v: "rotl32 (W1 s ! (cnt s+13) XOR W1 s ! (cnt s+8) XOR W1 s ! (cnt s+2) XOR W1 s ! cnt s) 1 = v"
    using circ_ge16 [OF assms(1,2)] False assms(5) by (simp add: v_def)
  note store = circ_store [OF assms(1) _ v_def]
  consider "t < 20" "i = 0" "j \<le> 3" | "20 \<le> t" "t < 40" "i = 1" | "40 \<le> t" "t < 60" "i = 2"
    | "60 \<le> t" "i = 3"
    using assms False by fastforce
  then show ?thesis
    using store v False K
    by cases (simp_all add: sha1_body_def sha1_ge16_def pent_of_def fips_sha1_step_def fips_f_def
        rotl32_word_rotl ch_code parity_code maj_code Let_def v_def add_ac)
qed

lemma upt_80_split: "[0..<80::nat] = [0..<20] @ [20..<40] @ [40..<60] @ [60..<80]"
  by code_simp

lemma sha1_inner:
  assumes "circ M (20*i) (W1 s) (cnt s)" "length M = 16" "i < 4" "k \<le> 20"
  shows "circ M (20*i+k) (W1 (foldl (sha1_body i) s (take k (rev [0..<20]))))
           (cnt (foldl (sha1_body i) s (take k (rev [0..<20])))) \<and>
     pent_of (foldl (sha1_body i) s (take k (rev [0..<20]))) =
       foldl (fips_sha1_step (sha1_schedule M)) (pent_of s) [20*i..<20*i+k]"
  using assms(4)
proof (induction k)
  case (Suc k)
  let ?s = "foldl (sha1_body i) s (take k (rev [0..<20]))"
  have k: "k < 20" and t: "20*i+k < 80" "i = (20*i+k) div 20" "19 - k = 19 - (20*i+k) mod 20"
    using Suc.prems assms(3) by auto
  have "take (Suc k) (rev [0..<20]) = take k (rev [0..<20]) @ [19 - k]"
    using k by (simp add: take_Suc_conv_app_nth rev_nth del: upt_rec_numeral)
  then have next_s: "foldl (sha1_body i) s (take (Suc k) (rev [0..<20])) = sha1_body i ?s (19 - k)"
    by (simp del: upt_rec_numeral)
  show ?case
    unfolding next_s
    using sha1_body_step [OF _ assms(2) t(2,3,1), of ?s] Suc.IH k
    by (simp del: upt_rec_numeral)
qed (use assms in simp)

lemma sha1_outer:
  assumes "circ M (20*i) (W1 s) (cnt s)" "length M = 16" "i < 4"
  shows "circ M (20*i+20) (W1 (foldl (sha1_body i) s (rev [0..<20])))
           (cnt (foldl (sha1_body i) s (rev [0..<20]))) \<and>
     pent_of (foldl (sha1_body i) s (rev [0..<20])) =
       foldl (fips_sha1_step (sha1_schedule M)) (pent_of s) [20*i..<20*i+20]"
  using sha1_inner [OF assms, of 20] by (simp del: upt_rec_numeral)

lemma sha1_rounds_fips:
  assumes "W1 s = M @ M" "cnt s = 0" "length M = 16"
  shows "pent_of (sha1_rounds s) = foldl (fips_sha1_step (sha1_schedule M)) (pent_of s) [0..<80]"
proof -
  define f where "f = (\<lambda>s i. foldl (sha1_body i) s (rev [0..<20]))"
  have four: "sha1_rounds s = f (f (f (f s 0) 1) 2) 3"
    by (simp add: sha1_rounds_def f_def upt_0_4)
  have outer: "circ M (20*i) (W1 s) (cnt s) \<Longrightarrow> i < 4 \<Longrightarrow> circ M (20*i+20) (W1 (f s i)) (cnt (f s i)) \<and>
     pent_of (f s i) = foldl (fips_sha1_step (sha1_schedule M)) (pent_of s) [20*i..<20*i+20]" for s i
    using sha1_outer [OF _ assms(3)] by (simp add: f_def)
  have "circ M 0 (W1 s) (cnt s)"
    using assms circ_start by simp
  with outer [of 0 s] outer [of 1 "f s 0"] outer [of 2 "f (f s 0) 1"] outer [of 3 "f (f (f s 0) 1) 2"]
  show ?thesis
    unfolding four upt_80_split by (simp del: upt_rec_numeral)
qed

lemma SWAP_BE32_load32:
  "SWAP_BE32 (load32 buf i) = le32 (buf ! (4*i+3)) (buf ! (4*i+2)) (buf ! (4*i+1)) (buf ! (4*i))"
  by (simp add: SWAP_BE32_def BB_BIG_ENDIAN_def load32_def bswap32_le32)

lemma sha1_block_fips:
  "sha1_process_block64 ctx = ctx\<lparr>hash := fips_sha1_compress (hash ctx) (wbuffer ctx)\<rparr>"
proof -
  define m where "m = map (\<lambda>i. SWAP_BE32 (load32 (wbuffer ctx) i)) [0..<16]"
  have m: "m = be32_words (wbuffer ctx)"
    by (simp only: m_def be32_words_def SWAP_BE32_load32)
  define s where "s = \<lparr>W1 = m @ m, cnt = 0, rega = hash ctx ! 0, regb = hash ctx ! 1,
    regc = hash ctx ! 2, regd = hash ctx ! 3, rege = hash ctx ! 4\<rparr>"
  have "pent_of (sha1_rounds s) = foldl (fips_sha1_step (sha1_schedule m)) (pent_of s) [0..<80]"
    by (rule sha1_rounds_fips) (simp_all add: s_def m_def)
  then have "foldl (fips_sha1_step (sha1_schedule (be32_words (wbuffer ctx))))
      (hash ctx ! 0, hash ctx ! 1, hash ctx ! 2, hash ctx ! 3, hash ctx ! 4) [0..<80]
    = (rega (sha1_rounds s), regb (sha1_rounds s), regc (sha1_rounds s), regd (sha1_rounds s),
       rege (sha1_rounds s))"
    by (simp add: pent_of_def s_def m del: upt_rec_numeral)
  then show ?thesis
    unfolding sha1_process_block64_def fips_sha1_compress_def m_def [symmetric] Let_def
      s_def [symmetric]
    by (simp del: upt_rec_numeral)
qed

lemma length_fips_sha1_compress [simp, length_simps]: "length (fips_sha1_compress h b) = length h"
  by (simp add: fips_sha1_compress_def split_beta Let_def)

section \<open>Properties\<close>

text \<open>
  Property C30: the SHA-1 block function, with its 32-word circular message schedule, adds FIPS
  180's compression of the buffered block (80 operations over the full 80-word schedule) to the
  context's \<open>hash\<close>, and changes nothing else.
\<close>

theorem sha1_process_block64_fips:
  "sha1_process_block64 ctx = ctx\<lparr>hash := fips_sha1_compress (hash ctx) (wbuffer ctx)\<rparr>"
  by (rule sha1_block_fips)

end
