(* ===== verification/Sha2.thy ===== *)
theory Sha2
  imports Sha1
begin

text \<open>
  The block functions of SHA-256 and SHA-512 of \<open>libbb/hash_md5_sha.c\<close>, their shared
  constant table \<open>sha_K\<close> (SHA-256 takes the upper halves of SHA-512's constants), the
  context \<open>sha512_ctx_t\<close>, and FIPS 180's compression functions. The constants themselves
  are checked against their definition in the standard: the fractional parts of the cube roots of
  the first 80 primes, and of the square roots of the first 8.
\<close>

section \<open>Constants\<close>

definition sha_K :: "u64 list" where
  "sha_K = concat [
     [0x428a2f98d728ae22, 0x7137449123ef65cd],
     [0xb5c0fbcfec4d3b2f, 0xe9b5dba58189dbbc],
     [0x3956c25bf348b538, 0x59f111f1b605d019],
     [0x923f82a4af194f9b, 0xab1c5ed5da6d8118],
     [0xd807aa98a3030242, 0x12835b0145706fbe],
     [0x243185be4ee4b28c, 0x550c7dc3d5ffb4e2],
     [0x72be5d74f27b896f, 0x80deb1fe3b1696b1],
     [0x9bdc06a725c71235, 0xc19bf174cf692694],
     [0xe49b69c19ef14ad2, 0xefbe4786384f25e3],
     [0x0fc19dc68b8cd5b5, 0x240ca1cc77ac9c65],
     [0x2de92c6f592b0275, 0x4a7484aa6ea6e483],
     [0x5cb0a9dcbd41fbd4, 0x76f988da831153b5],
     [0x983e5152ee66dfab, 0xa831c66d2db43210],
     [0xb00327c898fb213f, 0xbf597fc7beef0ee4],
     [0xc6e00bf33da88fc2, 0xd5a79147930aa725],
     [0x06ca6351e003826f, 0x142929670a0e6e70],
     [0x27b70a8546d22ffc, 0x2e1b21385c26c926],
     [0x4d2c6dfc5ac42aed, 0x53380d139d95b3df],
     [0x650a73548baf63de, 0x766a0abb3c77b2a8],
     [0x81c2c92e47edaee6, 0x92722c851482353b],
     [0xa2bfe8a14cf10364, 0xa81a664bbc423001],
     [0xc24b8b70d0f89791, 0xc76c51a30654be30],
     [0xd192e819d6ef5218, 0xd69906245565a910],
     [0xf40e35855771202a, 0x106aa07032bbd1b8],
     [0x19a4c116b8d2d0c8, 0x1e376c085141ab53],
     [0x2748774cdf8eeb99, 0x34b0bcb5e19b48a8],
     [0x391c0cb3c5c95a63, 0x4ed8aa4ae3418acb],
     [0x5b9cca4f7763e373, 0x682e6ff3d6b2b8a3],
     [0x748f82ee5defb2fc, 0x78a5636f43172f60],
     [0x84c87814a1f0ab72, 0x8cc702081a6439ec],
     [0x90befffa23631e28, 0xa4506cebde82bde9],
     [0xbef9a3f7b2c67915, 0xc67178f2e372532b],
     [0xca273eceea26619c, 0xd186b8c721c0c207],
     [0xeada7dd6cde0eb1e, 0xf57d4f7fee6ed178],
     [0x06f067aa72176fba, 0x0a637dc5a2c898a6],
     [0x113f9804bef90dae, 0x1b710b35131c471b],
     [0x28db77f523047d84, 0x32caab7b40c72493],
     [0x3c9ebe0a15c9bebc, 0x431d67c49c100d4c],
     [0x4cc5d4becb3e42b6, 0x597f299cfc657e2a],
     [0x5fcb6fab3ad6faec, 0x6c44198c4a475817]]"

definition init256 :: "u32 list" where
  "init256 = [0, 0] @ [0x6a09e667, 0xbb67ae85] @ [0x3c6ef372, 0xa54ff53a]
     @ [0x510e527f, 0x9b05688c] @ [0x1f83d9ab, 0x5be0cd19]"

definition init512_lo :: "u32 list" where
  "init512_lo = [0, 0] @ [0xf3bcc908, 0x84caa73b] @ [0xfe94f82b, 0x5f1d36f1]
     @ [0xade682d1, 0x2b3e6c1f] @ [0xfb41bd6b, 0x137e2179]"

section \<open>The block functions\<close>

definition Ch :: "'a::len word \<Rightarrow> 'a word \<Rightarrow> 'a word \<Rightarrow> 'a word" where
  "Ch x y z = (x AND y) XOR (NOT x AND z)"

definition Maj :: "'a::len word \<Rightarrow> 'a word \<Rightarrow> 'a word \<Rightarrow> 'a word" where
  "Maj x y z = (x AND y) XOR (x AND z) XOR (y AND z)"

definition S0_256 :: "u32 \<Rightarrow> u32" where
  "S0_256 x = rotr32 x 2 XOR rotr32 x 13 XOR rotr32 x 22"
definition S1_256 :: "u32 \<Rightarrow> u32" where
  "S1_256 x = rotr32 x 6 XOR rotr32 x 11 XOR rotr32 x 25"
definition R0_256 :: "u32 \<Rightarrow> u32" where
  "R0_256 x = rotr32 x 7 XOR rotr32 x 18 XOR drop_bit 3 x"
definition R1_256 :: "u32 \<Rightarrow> u32" where
  "R1_256 x = rotr32 x 17 XOR rotr32 x 19 XOR drop_bit 10 x"

definition S0_512 :: "u64 \<Rightarrow> u64" where
  "S0_512 x = rotr64 x 28 XOR rotr64 x 34 XOR rotr64 x 39"
definition S1_512 :: "u64 \<Rightarrow> u64" where
  "S1_512 x = rotr64 x 14 XOR rotr64 x 18 XOR rotr64 x 41"
definition R0_512 :: "u64 \<Rightarrow> u64" where
  "R0_512 x = rotr64 x 1 XOR rotr64 x 8 XOR drop_bit 7 x"
definition R1_512 :: "u64 \<Rightarrow> u64" where
  "R1_512 x = rotr64 x 19 XOR rotr64 x 61 XOR drop_bit 6 x"

type_synonym 'a oct = "'a word \<times> 'a word \<times> 'a word \<times> 'a word \<times> 'a word \<times> 'a word \<times> 'a word \<times> 'a word"

text \<open>The array \<open>W\<close> is filled in index order, so it is the list of the entries so far.\<close>

definition sha256_W :: "(nat \<Rightarrow> u32) \<Rightarrow> u32 list" where
  "sha256_W words =
     (let W = foldl (\<lambda>W t. W @ [SWAP_BE32 (words t)]) [] [0..<16]
      in foldl (\<lambda>W t. W @ [R1_256 (W ! (t - 2)) + W ! (t - 7) + R0_256 (W ! (t - 15)) + W ! (t - 16)])
           W [16..<64])"

definition sha256_round :: "u32 list \<Rightarrow> 32 oct \<Rightarrow> nat \<Rightarrow> 32 oct" where
  "sha256_round W = (\<lambda>(a, b, c, d, e, f, g, h) t.
     let K_t = ucast (drop_bit 32 (sha_K ! t));
         T1 = h + S1_256 e + Ch e f g + K_t + W ! t;
         T2 = S0_256 a + Maj a b c
     in (T1 + T2, a, b, c, d + T1, e, f, g))"

definition sha256_process_block64 :: "md5_ctx \<Rightarrow> md5_ctx" where
  "sha256_process_block64 ctx =
     (let W = sha256_W (load32 (wbuffer ctx));
          i = hash ctx;
          (a, b, c, d, e, f, g, h) =
            foldl (sha256_round W) (i ! 0, i ! 1, i ! 2, i ! 3, i ! 4, i ! 5, i ! 6, i ! 7) [0..<64]
      in ctx\<lparr>hash := [i ! 0 + a, i ! 1 + b, i ! 2 + c, i ! 3 + d, i ! 4 + e, i ! 5 + f,
                      i ! 6 + g, i ! 7 + h]\<rparr>)"

record sha512_ctx =
  s5_total64 :: "u64 list"
  s5_hash :: "u64 list"
  s5_wbuffer :: bytes

definition sha512_wf :: "sha512_ctx \<Rightarrow> bool" where
  "sha512_wf ctx \<longleftrightarrow> length (s5_total64 ctx) = 2 \<and> length (s5_hash ctx) = 8 \<and> length (s5_wbuffer ctx) = 128"

definition sha512_W :: "(nat \<Rightarrow> u64) \<Rightarrow> u64 list" where
  "sha512_W words =
     (let W = foldl (\<lambda>W t. W @ [SWAP_BE64 (words t)]) [] [0..<16]
      in foldl (\<lambda>W t. W @ [R1_512 (W ! (t - 2)) + W ! (t - 7) + R0_512 (W ! (t - 15)) + W ! (t - 16)])
           W [16..<80])"

definition sha512_round :: "u64 list \<Rightarrow> 64 oct \<Rightarrow> nat \<Rightarrow> 64 oct" where
  "sha512_round W = (\<lambda>(a, b, c, d, e, f, g, h) t.
     let T1 = h + S1_512 e + Ch e f g + sha_K ! t + W ! t;
         T2 = S0_512 a + Maj a b c
     in (T1 + T2, a, b, c, d + T1, e, f, g))"

definition sha512_process_block128 :: "sha512_ctx \<Rightarrow> sha512_ctx" where
  "sha512_process_block128 ctx =
     (let i = s5_hash ctx;
          W = sha512_W (load64 (s5_wbuffer ctx));
          (a, b, c, d, e, f, g, h) =
            foldl (sha512_round W) (i ! 0, i ! 1, i ! 2, i ! 3, i ! 4, i ! 5, i ! 6, i ! 7) [0..<80]
      in ctx\<lparr>s5_hash := [i ! 0 + a, i ! 1 + b, i ! 2 + c, i ! 3 + d, i ! 4 + e, i ! 5 + f,
                         i ! 6 + g, i ! 7 + h]\<rparr>)"

section \<open>FIPS 180\<close>

text \<open>
  The compression of SHA-2 for either word size, over the standard's functions: \<open>bs0\<close>,
  \<open>bs1\<close> the big sigmas of the working variables, \<open>ss0\<close>, \<open>ss1\<close> the small sigmas of
  the schedule, \<open>K\<close> the constants, \<open>n\<close> the number of rounds.
\<close>

definition sha2_next :: "('a::len word \<Rightarrow> 'a word) \<Rightarrow> ('a word \<Rightarrow> 'a word) \<Rightarrow> 'a word list \<Rightarrow> 'a word" where
  "sha2_next ss0 ss1 w = (let t = length w in
     ss1 (w ! (t - 2)) + w ! (t - 7) + ss0 (w ! (t - 15)) + w ! (t - 16))"

definition sha2_step ::
  "('a::len word \<Rightarrow> 'a word) \<Rightarrow> ('a word \<Rightarrow> 'a word) \<Rightarrow> (nat \<Rightarrow> 'a word) \<Rightarrow> 'a word list
     \<Rightarrow> 'a oct \<Rightarrow> nat \<Rightarrow> 'a oct" where
  "sha2_step bs0 bs1 K w = (\<lambda>(a, b, c, d, e, f, g, h) t.
     let t1 = h + bs1 e + ((e AND f) XOR (NOT e AND g)) + K t + w ! t
     in (t1 + (bs0 a + ((a AND b) XOR (a AND c) XOR (b AND c))), a, b, c, d + t1, e, f, g))"

definition sha2_compress ::
  "('a::len word \<Rightarrow> 'a word) \<times> ('a word \<Rightarrow> 'a word) \<times> ('a word \<Rightarrow> 'a word) \<times> ('a word \<Rightarrow> 'a word)
     \<Rightarrow> (nat \<Rightarrow> 'a word) \<Rightarrow> nat \<Rightarrow> 'a word list \<Rightarrow> 'a word list \<Rightarrow> 'a word list" where
  "sha2_compress sigmas K n i M =
     (case sigmas of (bs0, bs1, ss0, ss1) \<Rightarrow>
      let w = expand (sha2_next ss0 ss1) M (n - 16);
          (a, b, c, d, e, f, g, h) =
            foldl (sha2_step bs0 bs1 K w)
              (i ! 0, i ! 1, i ! 2, i ! 3, i ! 4, i ! 5, i ! 6, i ! 7) [0..<n]
      in map2 (+) i [a, b, c, d, e, f, g, h])"

definition fips_sha256_compress :: "u32 list \<Rightarrow> bytes \<Rightarrow> u32 list" where
  "fips_sha256_compress i block =
     sha2_compress
       (\<lambda>x. word_rotr 2 x XOR word_rotr 13 x XOR word_rotr 22 x,
        \<lambda>x. word_rotr 6 x XOR word_rotr 11 x XOR word_rotr 25 x,
        \<lambda>x. word_rotr 7 x XOR word_rotr 18 x XOR drop_bit 3 x,
        \<lambda>x. word_rotr 17 x XOR word_rotr 19 x XOR drop_bit 10 x)
       (\<lambda>t. ucast (drop_bit 32 (sha_K ! t))) 64 i (be32_words block)"

definition be32_at :: "bytes \<Rightarrow> nat \<Rightarrow> u32" where
  "be32_at block k = le32 (block ! (k+3)) (block ! (k+2)) (block ! (k+1)) (block ! k)"

definition be64_words :: "bytes \<Rightarrow> u64 list" where
  "be64_words block =
     map (\<lambda>i. push_bit 32 (ucast (be32_at block (8*i))) OR ucast (be32_at block (8*i+4))) [0..<16]"

definition fips_sha512_compress :: "u64 list \<Rightarrow> bytes \<Rightarrow> u64 list" where
  "fips_sha512_compress i block =
     sha2_compress
       (\<lambda>x. word_rotr 28 x XOR word_rotr 34 x XOR word_rotr 39 x,
        \<lambda>x. word_rotr 14 x XOR word_rotr 18 x XOR word_rotr 41 x,
        \<lambda>x. word_rotr 1 x XOR word_rotr 8 x XOR drop_bit 7 x,
        \<lambda>x. word_rotr 19 x XOR word_rotr 61 x XOR drop_bit 6 x)
       ((!) sha_K) 80 i (be64_words block)"

section \<open>The constants are the standard's\<close>

text \<open>
  \<open>is_root_frac k n w p r\<close>: \<open>w\<close> is the first \<open>n\<close> bits of the fractional part of
  the \<open>k\<close>-th root of \<open>p\<close>, whose integer part is \<open>r\<close>.
\<close>

definition is_root_frac :: "nat \<Rightarrow> nat \<Rightarrow> nat \<Rightarrow> nat \<Rightarrow> nat \<Rightarrow> bool" where
  "is_root_frac k n w p r \<longleftrightarrow> w < 2 ^ n \<and>
     (2 ^ n * r + w) ^ k \<le> p * 2 ^ (n * k) \<and> p * 2 ^ (n * k) < (2 ^ n * r + w + 1) ^ k"

definition first_primes :: "nat list" where
  "first_primes =
    [2, 3, 5, 7, 11, 13, 17, 19, 23, 29, 31, 37, 41, 43, 47, 53, 59, 61, 67, 71,
     73, 79, 83, 89, 97, 101, 103, 107, 109, 113, 127, 131, 137, 139, 149, 151, 157, 163, 167, 173,
     179, 181, 191, 193, 197, 199, 211, 223, 227, 229, 233, 239, 241, 251, 257, 263, 269, 271, 277, 281,
     283, 293, 307, 311, 313, 317, 331, 337, 347, 349, 353, 359, 367, 373, 379, 383, 389, 397, 401, 409]"

definition root_floor :: "nat \<Rightarrow> nat \<Rightarrow> nat" where
  "root_floor k p = length (filter (\<lambda>r. r ^ k \<le> p) [1, 2, 3, 4, 5, 6, 7, 8])"

lemma sha_K_roots_check:
  "list_all2 (\<lambda>w p. is_root_frac 3 64 (unat w) p (root_floor 3 p)) sha_K first_primes"
  by (simp add: sha_K_def first_primes_def is_root_frac_def root_floor_def)

lemma init_roots_check:
  "list_all2 (\<lambda>(hi, lo) p. is_root_frac 2 64 (unat hi * 2 ^ 32 + unat lo) p (root_floor 2 p))
     (zip (drop 2 init256) (drop 2 init512_lo)) (take 8 first_primes)"
  by (simp add: init256_def init512_lo_def first_primes_def is_root_frac_def root_floor_def)

section \<open>The code computes FIPS 180's compressions\<close>

lemma foldl_fill: "foldl (\<lambda>W t. W @ [g t]) [] [0..<n] = map g [0..<n]"
  by (induction n) auto

lemma foldl_expand:
  "length M = n \<Longrightarrow> foldl (\<lambda>W t. W @ [g t W]) M [n..<n+k] = expand (\<lambda>W. g (length W) W) M k"
  by (induction k) (simp_all add: Let_def)

lemma sha256_W_expand:
  "sha256_W words = expand (sha2_next R0_256 R1_256) (map (\<lambda>t. SWAP_BE32 (words t)) [0..<16]) 48"
  using foldl_expand [of "map (\<lambda>t. SWAP_BE32 (words t)) [0..<16]" 16
    "\<lambda>t W. R1_256 (W ! (t - 2)) + W ! (t - 7) + R0_256 (W ! (t - 15)) + W ! (t - 16)" 48]
  by (simp add: sha256_W_def foldl_fill sha2_next_def [abs_def] Let_def del: upt_rec_numeral)

lemma sha512_W_expand:
  "sha512_W words = expand (sha2_next R0_512 R1_512) (map (\<lambda>t. SWAP_BE64 (words t)) [0..<16]) 64"
  using foldl_expand [of "map (\<lambda>t. SWAP_BE64 (words t)) [0..<16]" 16
    "\<lambda>t W. R1_512 (W ! (t - 2)) + W ! (t - 7) + R0_512 (W ! (t - 15)) + W ! (t - 16)" 64]
  by (simp add: sha512_W_def foldl_fill sha2_next_def [abs_def] Let_def del: upt_rec_numeral)

lemma sigmas_256:
  "S0_256 = (\<lambda>x. word_rotr 2 x XOR word_rotr 13 x XOR word_rotr 22 x)"
  "S1_256 = (\<lambda>x. word_rotr 6 x XOR word_rotr 11 x XOR word_rotr 25 x)"
  "R0_256 = (\<lambda>x. word_rotr 7 x XOR word_rotr 18 x XOR drop_bit 3 x)"
  "R1_256 = (\<lambda>x. word_rotr 17 x XOR word_rotr 19 x XOR drop_bit 10 x)"
  by (simp_all add: fun_eq_iff S0_256_def S1_256_def R0_256_def R1_256_def rot_words)

lemma sigmas_512:
  "S0_512 = (\<lambda>x. word_rotr 28 x XOR word_rotr 34 x XOR word_rotr 39 x)"
  "S1_512 = (\<lambda>x. word_rotr 14 x XOR word_rotr 18 x XOR word_rotr 41 x)"
  "R0_512 = (\<lambda>x. word_rotr 1 x XOR word_rotr 8 x XOR drop_bit 7 x)"
  "R1_512 = (\<lambda>x. word_rotr 19 x XOR word_rotr 61 x XOR drop_bit 6 x)"
  by (simp_all add: fun_eq_iff S0_512_def S1_512_def R0_512_def R1_512_def rot_words)

lemma sha256_round_step:
  "sha256_round W = sha2_step S0_256 S1_256 (\<lambda>t. ucast (drop_bit 32 (sha_K ! t))) W"
  by (simp add: fun_eq_iff sha256_round_def sha2_step_def Ch_def Maj_def Let_def)

lemma sha512_round_step: "sha512_round W = sha2_step S0_512 S1_512 ((!) sha_K) W"
  by (simp add: fun_eq_iff sha512_round_def sha2_step_def Ch_def Maj_def Let_def)

lemma list8: "length xs = 8 \<Longrightarrow>
  xs = [xs ! 0, xs ! 1, xs ! 2, xs ! 3, xs ! 4, xs ! 5, xs ! 6, xs ! 7]"
  by (rule nth_equalityI) (auto simp: numeral_eq_Suc less_Suc_eq)

lemma map2_list8:
  "length xs = 8 \<Longrightarrow> map2 f xs [a, b, c, d, e, g, h, i] =
    [f (xs ! 0) a, f (xs ! 1) b, f (xs ! 2) c, f (xs ! 3) d, f (xs ! 4) e, f (xs ! 5) g,
     f (xs ! 6) h, f (xs ! 7) i]"
  by (subst list8) simp_all

lemma sha256_block_fips:
  assumes "length (hash ctx) = 8"
  shows "sha256_process_block64 ctx = ctx\<lparr>hash := fips_sha256_compress (hash ctx) (wbuffer ctx)\<rparr>"
  using assms
  by (simp add: sha256_process_block64_def fips_sha256_compress_def sha2_compress_def map2_list8
      sha256_W_expand sha256_round_step be32_words_def SWAP_BE32_load32 Let_def split_beta
      flip: sigmas_256 del: upt_rec_numeral)

lemma length_fips_sha256_compress [simp, length_simps]:
  "length i = 8 \<Longrightarrow> length (fips_sha256_compress i b) = 8"
  by (simp add: fips_sha256_compress_def sha2_compress_def split_beta Let_def)

lemma low_half: "(ucast (ucast lo OR push_bit 32 (ucast hi) :: u64) :: u32) = lo" for lo hi :: u32
  by (rule bit_word_eqI) (auto simp: bit_simps)

lemma high_half:
  "(ucast (drop_bit 32 (ucast lo OR push_bit 32 (ucast hi) :: u64)) :: u32) = hi" for lo hi :: u32
  by (rule bit_word_eqI) (auto simp: bit_simps dest: bit_imp_le_length)

lemma SWAP_BE64_load64:
  "SWAP_BE64 (load64 buf i) =
     push_bit 32 (ucast (be32_at buf (8*i))) OR ucast (be32_at buf (8*i+4))"
  unfolding SWAP_BE64_def BB_BIG_ENDIAN_def load64_def bswap64_def low_half high_half load32_def
    bswap32_le32 be32_at_def
  by (simp add: algebra_simps)

lemma sha512_block_fips:
  assumes "length (s5_hash ctx) = 8"
  shows "sha512_process_block128 ctx =
    ctx\<lparr>s5_hash := fips_sha512_compress (s5_hash ctx) (s5_wbuffer ctx)\<rparr>"
  unfolding fips_sha512_compress_def sigmas_512 [symmetric]
  using assms
  by (simp add: sha512_process_block128_def sha2_compress_def map2_list8 sha512_W_expand
      sha512_round_step be64_words_def SWAP_BE64_load64 Let_def split_beta del: upt_rec_numeral)

lemma length_fips_sha512_compress [simp, length_simps]:
  "length i = 8 \<Longrightarrow> length (fips_sha512_compress i b) = 8"
  by (simp add: fips_sha512_compress_def sha2_compress_def split_beta Let_def)

section \<open>Properties\<close>

text \<open>
  Property C31: the 80 constants of \<open>sha_K\<close> are, as FIPS 180 defines them, the first 64 bits
  of the fractional parts of the cube roots of the first 80 primes; and the initial values
  assembled from \<open>init256\<close> (upper halves) and \<open>init512_lo\<close> (lower halves) those of the
  square roots of the first 8 primes.
\<close>

theorem sha2_constants_are_root_fractions:
  "list_all2 (\<lambda>w p. is_root_frac 3 64 (unat w) p (root_floor 3 p)) sha_K first_primes \<and>
   list_all2 (\<lambda>(hi, lo) p. is_root_frac 2 64 (unat hi * 2 ^ 32 + unat lo) p (root_floor 2 p))
     (zip (drop 2 init256) (drop 2 init512_lo)) (take 8 first_primes)"
  using sha_K_roots_check init_roots_check by (rule conjI)

end
