(* ===== verification/Block_Buffer.thy ===== *)
theory Block_Buffer
  imports Prelude
begin

text \<open>
  The contract shared by the three copies of the hashing loop of
  \<open>libbb/hash_md5_sha.c\<close> (\<open>md5_hash\<close>, \<open>sha512_hash\<close>, \<open>sha3_hash\<close>):
  input bytes are put one after the other into a block buffer, and each time the buffer is full
  the block is processed. \<open>byte_absorber\<close> says what such a loop promises, that is, it acts
  as if the bytes arrived one at a time; \<open>block_chain\<close> adds a chaining value and
  describes the result by the complete blocks of the input.
\<close>

fun put_all :: "(nat \<Rightarrow> 'b \<Rightarrow> 'c \<Rightarrow> 'c) \<Rightarrow> 'c \<Rightarrow> nat \<Rightarrow> 'b list \<Rightarrow> 'c" where
  "put_all put c p [] = c"
| "put_all put c p (b # bs) = put_all put (put p b c) (Suc p) bs"

locale byte_absorber =
  fixes N :: "'c \<Rightarrow> nat"
    and put :: "nat \<Rightarrow> u8 \<Rightarrow> 'c \<Rightarrow> 'c"
    and proc :: "'c \<Rightarrow> 'c"
    and loop :: "'c \<Rightarrow> nat \<Rightarrow> bytes \<Rightarrow> 'c \<times> nat"
    and inv :: "'c \<Rightarrow> bool"
  assumes N_pos: "inv c \<Longrightarrow> 0 < N c"
    and N_put: "N (put p b c) = N c"
    and N_proc: "N (proc c) = N c"
    and inv_put: "inv c \<Longrightarrow> p < N c \<Longrightarrow> inv (put p b c)"
    and inv_proc: "inv c \<Longrightarrow> inv (proc c)"
    and loop_eq: "inv c \<Longrightarrow> p < N c \<Longrightarrow> loop c p d =
      (let r = min (N c - p) (length d); c1 = put_all put c p (take r d)
       in if p + r \<noteq> N c then (c1, p + r) else loop (proc c1) 0 (drop r d))"
begin

lemmas N_frame = N_put N_proc

definition feed :: "'c \<times> nat \<Rightarrow> u8 \<Rightarrow> 'c \<times> nat" where
  "feed s b = (let c1 = put (snd s) b (fst s)
     in if Suc (snd s) = N (fst s) then (proc c1, 0) else (c1, Suc (snd s)))"

definition ok :: "'c \<times> nat \<Rightarrow> bool" where
  "ok s \<longleftrightarrow> inv (fst s) \<and> snd s < N (fst s)"

lemma feed_pair:
  "feed (c, p) b = (if Suc p = N c then (proc (put p b c), 0) else (put p b c, Suc p))"
  by (simp add: feed_def Let_def)

lemma ok_feed: "ok s \<Longrightarrow> ok (feed s b)"
  by (auto simp: ok_def feed_def Let_def N_frame intro: inv_put inv_proc N_pos)

lemma ok_feeds: "ok s \<Longrightarrow> ok (foldl feed s d)"
  by (induction d arbitrary: s) (simp_all add: ok_feed)

lemma N_feeds: "N (fst (foldl feed s d)) = N (fst s)"
proof (induction d arbitrary: s)
  case (Cons b d)
  then show ?case by (simp add: feed_def Let_def N_frame)
qed simp

lemma snd_feed: "ok s \<Longrightarrow> snd (feed s b) = Suc (snd s) mod N (fst s)"
  by (auto simp: ok_def feed_def Let_def)

lemma snd_feeds: "ok s \<Longrightarrow> snd (foldl feed s d) = (snd s + length d) mod N (fst s)"
proof (induction d arbitrary: s)
  case Nil
  then show ?case by (simp add: ok_def)
next
  case (Cons b d)
  have "N (fst (feed s b)) = N (fst s)"
    using N_feeds [of s "[b]"] by simp
  with Cons show ?case
    by (simp add: ok_feed snd_feed N_feeds mod_simps)
qed

lemma feeds_short:
  "p + length d < N c \<Longrightarrow> foldl feed (c, p) d = (put_all put c p d, p + length d)"
  by (induction d arbitrary: c p) (auto simp: feed_pair N_frame)

lemma feeds_full:
  "d \<noteq> [] \<Longrightarrow> p + length d = N c \<Longrightarrow> foldl feed (c, p) d = (proc (put_all put c p d), 0)"
proof (induction d arbitrary: c p)
  case (Cons b d)
  show ?case
  proof (cases "d = []")
    case False
    then have "Suc p \<noteq> N c" using Cons.prems by (cases d) auto
    with False Cons show ?thesis by (simp add: feed_pair N_frame)
  qed (use Cons.prems in \<open>simp add: feed_pair\<close>)
qed simp

lemma inv_put_all: "inv c \<Longrightarrow> p + length d \<le> N c \<Longrightarrow> inv (put_all put c p d)"
  by (induction d arbitrary: c p) (simp_all add: inv_put N_frame)

lemma N_put_all: "N (put_all put c p d) = N c"
  by (induction d arbitrary: c p) (auto simp: N_frame)

text \<open>The loop is the byte-at-a-time machine.\<close>

lemma loop_feed: "inv c \<Longrightarrow> p < N c \<Longrightarrow> loop c p d = foldl feed (c, p) d"
proof (induction "length d" arbitrary: c p d rule: less_induct)
  case less
  define r where "r = min (N c - p) (length d)"
  show ?case
  proof (cases "length d < N c - p")
    case True
    then have "p + length d < N c" by simp
    with True show ?thesis
      using less.prems by (subst loop_eq) (simp_all add: feeds_short Let_def)
  next
    case False
    then have r: "r = N c - p" and ne: "take r d \<noteq> []" and len: "p + length (take r d) = N c"
      using less.prems by (auto simp: r_def)
    have "loop c p d = loop (proc (put_all put c p (take r d))) 0 (drop r d)"
      using less.prems r r_def by (subst loop_eq) (simp_all add: Let_def)
    also have "\<dots> = foldl feed (proc (put_all put c p (take r d)), 0) (drop r d)"
      using less.prems r False N_pos [of c] len
      by (intro less.hyps) (auto simp: N_frame N_put_all intro!: inv_proc inv_put_all)
    also have "\<dots> = foldl feed (foldl feed (c, p) (take r d)) (drop r d)"
      using feeds_full [OF ne len] by simp
    also have "\<dots> = foldl feed (c, p) d"
      by (simp flip: foldl_append)
    finally show ?thesis .
  qed
qed

lemma loop_pos: "inv c \<Longrightarrow> p < N c \<Longrightarrow> snd (loop c p d) = (p + length d) mod N c"
  using snd_feeds [of "(c, p)"] by (simp add: loop_feed ok_def)

lemma loop_N: "inv c \<Longrightarrow> p < N c \<Longrightarrow> N (fst (loop c p d)) = N c"
  by (simp add: loop_feed N_feeds)

lemma loop_inv: "inv c \<Longrightarrow> p < N c \<Longrightarrow> inv (fst (loop c p d))"
  using ok_feeds [of "(c, p)" d] by (simp add: loop_feed ok_def)

text \<open>Feeding the input in two pieces is feeding it at once.\<close>

lemma loop_append:
  assumes "inv c" "p < N c"
  shows "loop c p (a @ b) = loop (fst (loop c p a)) (snd (loop c p a)) b"
proof -
  have "ok (foldl feed (c, p) a)"
    using assms by (intro ok_feeds) (simp add: ok_def)
  then show ?thesis
    using assms by (simp add: loop_feed ok_def N_feeds)
qed

end

locale block_chain = byte_absorber N put proc loop inv
  for N :: "'c \<Rightarrow> nat" and put proc loop inv +
  fixes buf :: "'c \<Rightarrow> bytes"
    and chain :: "'c \<Rightarrow> 'h"
    and step :: "'h \<Rightarrow> bytes \<Rightarrow> 'h"
  assumes length_buf: "inv c \<Longrightarrow> length (buf c) = N c"
    and buf_put [simp]: "buf (put p b c) = (buf c)[p := b]"
    and buf_proc [simp]: "buf (proc c) = buf c"
    and chain_put [simp]: "chain (put p b c) = chain c"
    and chain_proc: "inv c \<Longrightarrow> chain (proc c) = step (chain c) (buf c)"
begin

lemma feeds_chain:
  assumes "ok s"
  shows "chain (fst (foldl feed s d)) =
           foldl step (chain (fst s)) (chunks (N (fst s)) (take (snd s) (buf (fst s)) @ d)) \<and>
         take (snd (foldl feed s d)) (buf (fst (foldl feed s d))) =
           leftover (N (fst s)) (take (snd s) (buf (fst s)) @ d)"
  using assms
proof (induction d arbitrary: s)
  case Nil
  then show ?case by (simp add: ok_def length_buf)
next
  case (Cons b d)
  obtain c p where s: "s = (c, p)" by force
  have c: "inv c" "p < N c" "0 < N c" "length (buf c) = N c"
    using Cons.prems by (auto simp: s ok_def length_buf)
  have step: "take (Suc p) ((buf c)[p := b]) = take p (buf c) @ [b]"
    using c by (simp add: take_Suc_conv_app_nth)
  note IH = Cons.IH [OF ok_feed [OF Cons.prems, of b]]
  show ?case
  proof (cases "Suc p = N c")
    case False
    then have "feed s b = (put p b c, Suc p)"
      by (simp add: s feed_pair)
    then show ?thesis
      using IH c step by (simp add: s N_frame)
  next
    case True
    then have full: "(buf c)[p := b] = take p (buf c) @ [b]"
      using step c by simp
    then have len: "length (take p (buf c) @ [b]) = N c"
      using c True by simp
    have "feed s b = (proc (put p b c), 0)"
      using True by (simp add: s feed_pair)
    moreover have "chain (proc (put p b c)) = step (chain c) (take p (buf c) @ [b])"
      using c full by (simp add: chain_proc inv_put)
    ultimately show ?thesis
      using IH chunks_block [OF c(3) len, of d] leftover_block [OF c(3) len, of d]
      by (simp add: s N_frame)
  qed
qed

lemma loop_chain:
  "inv c \<Longrightarrow> p < N c \<Longrightarrow>
   chain (fst (loop c p d)) = foldl step (chain c) (chunks (N c) (take p (buf c) @ d))"
  using feeds_chain [of "(c, p)" d] by (simp add: loop_feed ok_def)

lemma loop_pending:
  "inv c \<Longrightarrow> p < N c \<Longrightarrow>
   take ((p + length d) mod N c) (buf (fst (loop c p d))) = leftover (N c) (take p (buf c) @ d)"
  using feeds_chain [of "(c, p)" d] loop_pos [of c p d] by (simp add: loop_feed ok_def)

end

end
