(* ===== verification/Hash64.thy ===== *)
theory Hash64
  imports Md5 Sha2 Block_Buffer
begin

text \<open>
  The operations on the shared context of MD5, SHA-1 and SHA-256 in
  \<open>libbb/hash_md5_sha.c\<close>: \<open>md5_begin\<close>, \<open>sha1_begin\<close>, \<open>sha256_begin\<close>,
  \<open>md5_hash\<close> (also \<open>sha1_hash\<close> and \<open>sha256_hash\<close>), \<open>common64_end\<close>,
  \<open>md5_end\<close> and \<open>sha1_end\<close> (also \<open>sha256_end\<close>). The buffering is an instance of
  \<open>block_chain\<close>; the digests are those of RFC 1321 and FIPS 180, however the message is cut
  into calls.
\<close>

section \<open>The operations\<close>

definition call_process_block :: "md5_ctx \<Rightarrow> md5_ctx" where
  "call_process_block ctx =
     (case process_block ctx of
        Md5_block \<Rightarrow> md5_process_block64 ctx
      | Sha1_block \<Rightarrow> sha1_process_block64 ctx
      | Sha256_block \<Rightarrow> sha256_process_block64 ctx)"

text \<open>
  The loop of \<open>md5_hash\<close>; the result carries the final \<open>bufpos\<close>. The code tests the
  end with \<open>bufpos -= 64; if (bufpos != 0) break;\<close>.
\<close>

function md5_hash_loop :: "md5_ctx \<Rightarrow> nat \<Rightarrow> bytes \<Rightarrow> md5_ctx \<times> nat" where
  "md5_hash_loop ctx bufpos buffer =
     (let remaining = 64 - bufpos;
          remaining = (if remaining > length buffer then length buffer else remaining);
          ctx = ctx\<lparr>wbuffer := blit (wbuffer ctx) bufpos (take remaining buffer)\<rparr>;
          bufpos = bufpos + remaining
      in if bufpos \<noteq> 64 then (ctx, bufpos)
         else md5_hash_loop (call_process_block ctx) 0 (drop remaining buffer))"
  by pat_completeness auto
termination
  by (relation "measure (\<lambda>(ctx, bufpos, buffer). 2 * length buffer + (if bufpos = 64 then 1 else 0))")
     (auto split: if_splits)

declare md5_hash_loop.simps [simp del]

definition md5_hash :: "md5_ctx \<Rightarrow> bytes \<Rightarrow> md5_ctx" where
  "md5_hash ctx buffer =
     (let bufpos = unat (total64 ctx AND 63);
          ctx = ctx\<lparr>total64 := total64 ctx + of_nat (length buffer)\<rparr>
      in fst (md5_hash_loop ctx bufpos buffer))"

function common64_end_loop :: "bool \<Rightarrow> md5_ctx \<Rightarrow> nat \<Rightarrow> md5_ctx" where
  "common64_end_loop swap_needed ctx bufpos =
     (let remaining = 64 - bufpos;
          ctx = ctx\<lparr>wbuffer := blit (wbuffer ctx) bufpos (replicate remaining 0)\<rparr>;
          ctx = (if remaining \<ge> 8
                 then (let t = push_bit 3 (total64 ctx);
                           t = (if swap_needed then bswap64 t else t)
                       in ctx\<lparr>wbuffer := blit (wbuffer ctx) (64 - 8) (store64 t)\<rparr>)
                 else ctx);
          ctx = call_process_block ctx
      in if remaining \<ge> 8 then ctx else common64_end_loop swap_needed ctx 0)"
  by pat_completeness auto
termination
  by (relation "measure (\<lambda>(swap_needed, ctx, bufpos). if bufpos \<le> 56 then 0 else 1)") auto

declare common64_end_loop.simps [simp del]

definition common64_end :: "md5_ctx \<Rightarrow> bool \<Rightarrow> md5_ctx" where
  "common64_end ctx swap_needed =
     (let bufpos = unat (total64 ctx AND 63);
          ctx = ctx\<lparr>wbuffer := (wbuffer ctx)[bufpos := 0x80]\<rparr>
      in common64_end_loop swap_needed ctx (bufpos + 1))"

definition md5_begin :: "md5_ctx \<Rightarrow> md5_ctx" where
  "md5_begin ctx = ctx\<lparr>hash := (hash ctx)[0 := 0x67452301, 1 := 0xefcdab89, 2 := 0x98badcfe,
     3 := 0x10325476], total64 := 0, process_block := Md5_block\<rparr>"

definition sha1_begin :: "md5_ctx \<Rightarrow> md5_ctx" where
  "sha1_begin ctx = ctx\<lparr>hash := (hash ctx)[0 := 0x67452301, 1 := 0xefcdab89, 2 := 0x98badcfe,
     3 := 0x10325476, 4 := 0xc3d2e1f0], total64 := 0, process_block := Sha1_block\<rparr>"

text \<open>
  \<open>sha256_begin\<close> copies the ten words of \<open>init256\<close> over \<open>total64\<close> and the eight
  words of \<open>hash\<close> that follow it.
\<close>

definition sha256_begin :: "md5_ctx \<Rightarrow> md5_ctx" where
  "sha256_begin ctx = ctx\<lparr>total64 := ucast (init256 ! 0) OR push_bit 32 (ucast (init256 ! 1)),
     hash := drop 2 init256, process_block := Sha256_block\<rparr>"

text \<open>
  The two ends return the context and the bytes written to \<open>resbuf\<close>; the C functions' return
  value is the number of these bytes.
\<close>

definition md5_end :: "md5_ctx \<Rightarrow> md5_ctx \<times> bytes" where
  "md5_end ctx =
     (let ctx = common64_end ctx BB_BIG_ENDIAN;
          h = hash ctx;
          ctx = (if BB_BIG_ENDIAN
                 then ctx\<lparr>hash := h[0 := SWAP_LE32 (h ! 0), 1 := SWAP_LE32 (h ! 1),
                   2 := SWAP_LE32 (h ! 2), 3 := SWAP_LE32 (h ! 3)]\<rparr>
                 else ctx)
      in (ctx, concat (map store32 (take 4 (hash ctx)))))"

definition sha1_end :: "md5_ctx \<Rightarrow> md5_ctx \<times> bytes" where
  "sha1_end ctx =
     (let ctx = common64_end ctx BB_LITTLE_ENDIAN;
          hash_size = (if process_block ctx = Sha1_block then 5 else 8);
          ctx = (if BB_LITTLE_ENDIAN
                 then ctx\<lparr>hash := foldl (\<lambda>h i. h[i := SWAP_BE32 (h ! i)]) (hash ctx) [0..<hash_size]\<rparr>
                 else ctx)
      in (ctx, concat (map store32 (take hash_size (hash ctx)))))"

section \<open>The buffering contract\<close>

definition compress64 :: "block_fn \<Rightarrow> u32 list \<Rightarrow> bytes \<Rightarrow> u32 list" where
  "compress64 f =
     (case f of Md5_block \<Rightarrow> rfc_md5_compress | Sha1_block \<Rightarrow> fips_sha1_compress
      | Sha256_block \<Rightarrow> fips_sha256_compress)"

lemma call_process_block_compress:
  "ctx_wf ctx \<Longrightarrow>
   call_process_block ctx = ctx\<lparr>hash := compress64 (process_block ctx) (hash ctx) (wbuffer ctx)\<rparr>"
  by (cases "process_block ctx")
     (simp_all add: call_process_block_def compress64_def md5_process_block64_def md5_block_rfc
        sha1_block_fips sha256_block_fips ctx_wf_def)

lemma length_compress64 [simp, length_simps]:
  "length h = 8 \<Longrightarrow> length (compress64 f h b) = 8"
  by (cases f) (simp_all add: compress64_def)

lemma ctx_wf_process: "ctx_wf ctx \<Longrightarrow> ctx_wf (call_process_block ctx)"
  by (simp add: call_process_block_compress) (simp add: ctx_wf_def)

lemma wbuffer_process [simp, frame_simps]: "wbuffer (call_process_block ctx) = wbuffer ctx"
  and process_block_process [simp, frame_simps]:
    "process_block (call_process_block ctx) = process_block ctx"
  and total64_process [simp, frame_simps]: "total64 (call_process_block ctx) = total64 ctx"
  by (simp_all add: call_process_block_def md5_process_block64_def md5_block_rfc sha1_block_fips
      sha256_process_block64_def Let_def split_beta split: block_fn.split)

lemma process_total64 [frame_simps]:
  "call_process_block (ctx\<lparr>total64 := t\<rparr>) = (call_process_block ctx)\<lparr>total64 := t\<rparr>"
  by (simp add: call_process_block_def md5_process_block64_def md5_block_rfc sha1_block_fips
      sha256_process_block64_def Let_def split_beta split: block_fn.split)

definition put64 :: "nat \<Rightarrow> u8 \<Rightarrow> md5_ctx \<Rightarrow> md5_ctx" where
  "put64 p b ctx = ctx\<lparr>wbuffer := (wbuffer ctx)[p := b]\<rparr>"

lemma put_all_put64:
  "p + length d \<le> length (wbuffer ctx) \<Longrightarrow>
   put_all put64 ctx p d = ctx\<lparr>wbuffer := blit (wbuffer ctx) p d\<rparr>"
proof (induction d arbitrary: ctx p)
  case (Cons b d)
  then show ?case by (simp add: put64_def blit_Cons)
qed simp

interpretation h64: block_chain "\<lambda>_. 64" put64 call_process_block md5_hash_loop ctx_wf wbuffer
  "\<lambda>ctx. (process_block ctx, hash ctx)" "\<lambda>(f, h) b. (f, compress64 f h b)"
proof
  fix ctx :: md5_ctx and p :: nat and d :: bytes
  assume wf: "ctx_wf ctx" and p: "p < 64"
  define r where "r = min (64 - p) (length d)"
  have min: "(if 64 - p > length d then length d else 64 - p) = r"
    by (simp add: r_def)
  have "put_all put64 ctx p (take r d) = ctx\<lparr>wbuffer := blit (wbuffer ctx) p (take r d)\<rparr>"
    using wf p by (intro put_all_put64) (auto simp: ctx_wf_def r_def)
  then show "md5_hash_loop ctx p d =
    (let r = min (64 - p) (length d); c1 = put_all put64 ctx p (take r d)
     in if p + r \<noteq> 64 then (c1, p + r) else md5_hash_loop (call_process_block c1) 0 (drop r d))"
    unfolding r_def [symmetric] Let_def
    by (subst md5_hash_loop.simps) (simp only: Let_def min)
qed (auto simp: put64_def ctx_wf_process call_process_block_compress, auto simp: ctx_wf_def)

section \<open>Splitting the input does not change the context\<close>

definition fill :: "nat \<Rightarrow> bytes \<Rightarrow> nat" where
  "fill p d = (if 64 - p > length d then length d else 64 - p)"

definition filled :: "md5_ctx \<Rightarrow> nat \<Rightarrow> bytes \<Rightarrow> md5_ctx" where
  "filled ctx p d = ctx\<lparr>wbuffer := blit (wbuffer ctx) p (take (fill p d) d)\<rparr>"

lemma md5_hash_loop_unfold:
  "md5_hash_loop ctx p d =
     (if p + fill p d \<noteq> 64 then (filled ctx p d, p + fill p d)
      else md5_hash_loop (call_process_block (filled ctx p d)) 0 (drop (fill p d) d))"
  by (subst md5_hash_loop.simps) (simp only: Let_def fill_def filled_def)

lemma filled_total64: "filled (ctx\<lparr>total64 := t\<rparr>) p d = (filled ctx p d)\<lparr>total64 := t\<rparr>"
  by (simp add: filled_def)

lemma loop_total64:
  "md5_hash_loop (ctx\<lparr>total64 := t\<rparr>) p d =
     ((fst (md5_hash_loop ctx p d))\<lparr>total64 := t\<rparr>, snd (md5_hash_loop ctx p d))"
proof (induction ctx p d rule: md5_hash_loop.induct)
  case (1 ctx p d)
  let ?r = "fill p d" and ?c = "call_process_block (filled ctx p d)"
  have IH: "md5_hash_loop (?c\<lparr>total64 := t\<rparr>) 0 (drop ?r d) =
      ((fst (md5_hash_loop ?c 0 (drop ?r d)))\<lparr>total64 := t\<rparr>, snd (md5_hash_loop ?c 0 (drop ?r d)))"
    if "p + ?r = 64"
    using "1" [OF refl refl refl refl] that by (simp only: fill_def filled_def not_not simp_thms)
  show ?case
  proof (cases "p + ?r = 64")
    case True
    have "md5_hash_loop (ctx\<lparr>total64 := t\<rparr>) p d = md5_hash_loop (?c\<lparr>total64 := t\<rparr>) 0 (drop ?r d)"
      using True by (subst md5_hash_loop_unfold) (simp only: filled_total64 process_total64 simp_thms if_False)
    moreover have "md5_hash_loop ctx p d = md5_hash_loop ?c 0 (drop ?r d)"
      using True by (subst md5_hash_loop_unfold) (simp only: simp_thms if_False)
    ultimately show ?thesis using IH [OF True] by (simp only:)
  next
    case False
    have "md5_hash_loop (ctx\<lparr>total64 := t\<rparr>) p d = ((filled ctx p d)\<lparr>total64 := t\<rparr>, p + ?r)"
      using False by (subst md5_hash_loop_unfold) (simp only: filled_total64 simp_thms if_True)
    moreover have "md5_hash_loop ctx p d = (filled ctx p d, p + ?r)"
      using False by (subst md5_hash_loop_unfold) (simp only: simp_thms if_True)
    ultimately show ?thesis by (simp only: fst_conv snd_conv)
  qed
qed

lemma total64_loop [simp, frame_simps]: "total64 (fst (md5_hash_loop ctx p d)) = total64 ctx"
proof -
  have "total64 (fst (md5_hash_loop (ctx\<lparr>total64 := total64 ctx\<rparr>) p d)) = total64 ctx"
    by (subst loop_total64) simp
  then show ?thesis by simp
qed

lemma mask_63: "(63::u64) = mask 6"
  by (simp add: mask_eq_exp_minus_1)

lemma and_63: "(t::u64) AND 63 = take_bit 6 t"
  by (simp only: take_bit_eq_mask mask_63)

lemma pos_mod: "unat ((t::u64) AND 63) = unat t mod 64"
  using unsigned_take_bit_eq [of 6 t] by (simp only: and_63) (simp add: take_bit_eq_mod)

lemma pos_less [simp]: "unat ((t::u64) AND 63) < 64"
  by (simp add: pos_mod)

lemma unat_add_mod_64: "unat ((t::u64) + of_nat n) mod 64 = (unat t mod 64 + n) mod 64"
  by (simp add: unat_word_ariths unat_of_nat mod_mod_cancel mod_simps)

lemma pos_add: "unat (((t::u64) + of_nat n) AND 63) = (unat (t AND 63) + n) mod 64"
  by (simp only: pos_mod unat_add_mod_64)

text \<open>\<open>md5_hash\<close> as the client sees it: the loop's result with the new total.\<close>

lemma md5_hash_eq:
  "md5_hash ctx d = (fst (md5_hash_loop ctx (unat (total64 ctx AND 63)) d))
     \<lparr>total64 := total64 ctx + of_nat (length d)\<rparr>"
  by (simp add: md5_hash_def Let_def loop_total64)

lemma ctx_wf_total64 [simp]: "ctx_wf (ctx\<lparr>total64 := t\<rparr>) = ctx_wf ctx"
  by (simp add: ctx_wf_def)

lemma md5_hash_wf: "ctx_wf ctx \<Longrightarrow> ctx_wf (md5_hash ctx d)"
  by (simp add: md5_hash_eq h64.loop_inv)

lemma md5_hash_append:
  assumes "ctx_wf ctx"
  shows "md5_hash (md5_hash ctx a) b = md5_hash ctx (a @ b)"
proof -
  define p where "p = unat (total64 ctx AND 63)"
  have p: "p < 64" by (simp add: p_def)
  have snd: "snd (md5_hash_loop ctx p a) = unat ((total64 ctx + of_nat (length a)) AND 63)"
    using h64.loop_pos [OF assms p, of a] by (simp add: pos_add p_def)
  show ?thesis
    using h64.loop_append [OF assms p, of a b] snd
    by (simp add: md5_hash_eq loop_total64 flip: p_def)
qed

section \<open>Padding and the digest\<close>

text \<open>
  The padding of RFC 1321 and FIPS 180 for 64-byte blocks: a byte 0x80, the least number of zero
  bytes that leaves room for eight more in the last block, and the length field.
\<close>

definition md_pad :: "bytes \<Rightarrow> nat \<Rightarrow> bytes" where
  "md_pad len_field n = 0x80 # replicate ((119 - n mod 64) mod 64) 0 @ len_field"

definition length_field :: "bool \<Rightarrow> u64 \<Rightarrow> bytes" where
  "length_field swap_needed tot =
     (let t = push_bit 3 tot in store64 (if swap_needed then bswap64 t else t))"

lemma end_last_block:
  assumes "ctx_wf ctx" "pos \<le> 56"
  shows "common64_end_loop swap ctx pos =
    call_process_block (ctx\<lparr>wbuffer := take pos (wbuffer ctx) @ replicate (56 - pos) 0 @
      length_field swap (total64 ctx)\<rparr>)"
proof -
  have len: "length (take pos (wbuffer ctx)) = pos"
    using assms by (simp add: ctx_wf_def)
  have "replicate (64 - pos) (0::u8) = replicate (56 - pos) 0 @ replicate 8 0"
    using assms(2) by (simp flip: replicate_add)
  then have "blit (blit (wbuffer ctx) pos (replicate (64 - pos) 0)) 56 f =
      take pos (wbuffer ctx) @ replicate (56 - pos) 0 @ f" if "length f = 8" for f
    using assms len that by (simp add: blit_def ctx_wf_def)
  then show ?thesis
    using assms(2)
    by (subst common64_end_loop.simps) (simp add: Let_def length_field_def)
qed

lemma end_two_blocks:
  assumes "ctx_wf ctx" "56 < pos" "pos \<le> 64"
  shows "common64_end_loop swap ctx pos =
    common64_end_loop swap (call_process_block
      (ctx\<lparr>wbuffer := take pos (wbuffer ctx) @ replicate (64 - pos) 0\<rparr>)) 0"
  using assms
  by (subst common64_end_loop.simps) (simp add: Let_def blit_def ctx_wf_def)

lemma hash_process:
  "ctx_wf ctx \<Longrightarrow> hash (call_process_block ctx) = compress64 (process_block ctx) (hash ctx) (wbuffer ctx)"
  by (simp add: call_process_block_compress)

lemma hash_process_wbuffer:
  "ctx_wf ctx \<Longrightarrow> length b = 64 \<Longrightarrow>
   hash (call_process_block (ctx\<lparr>wbuffer := b\<rparr>)) = compress64 (process_block ctx) (hash ctx) b"
  using hash_process [of "ctx\<lparr>wbuffer := b\<rparr>"] by (simp add: ctx_wf_def)

lemma pad_one_block: "(p::nat) < 56 \<Longrightarrow> (119 - p) mod 64 = 56 - Suc p"
  using mod_add_self2 [of "55 - p" 64] by simp

text \<open>The end processes the pending bytes followed by the padding, in one or in two blocks.\<close>

lemma common64_end_hash:
  assumes wf: "ctx_wf ctx" and n: "n mod 64 = unat (total64 ctx AND 63)"
  shows "hash (common64_end ctx swap) =
    foldl (compress64 (process_block ctx)) (hash ctx)
      (chunks 64 (take (unat (total64 ctx AND 63)) (wbuffer ctx) @
        md_pad (length_field swap (total64 ctx)) n))"
proof -
  define p where "p = unat (total64 ctx AND 63)"
  define pend where "pend = take p (wbuffer ctx) @ [0x80]"
  define f where "f = length_field swap (total64 ctx)"
  define c where "c = ctx\<lparr>wbuffer := (wbuffer ctx)[p := 0x80]\<rparr>"
  have p: "p < 64" and np: "n mod 64 = p" by (simp_all add: p_def n)
  have f: "length f = 8" by (simp add: f_def length_field_def Let_def)
  have lenp: "length pend = Suc p" using wf p by (simp add: pend_def ctx_wf_def)
  have c: "ctx_wf c" "take (Suc p) (wbuffer c) = pend"
    using wf p by (simp_all add: c_def ctx_wf_def pend_def take_Suc_conv_app_nth)
  have fr: "total64 c = total64 ctx" "hash c = hash ctx" "process_block c = process_block ctx"
    by (simp_all add: c_def)
  have end_c: "common64_end ctx swap = common64_end_loop swap c (Suc p)"
    by (simp add: common64_end_def c_def p_def Let_def)
  have pad: "take p (wbuffer ctx) @ md_pad f n = pend @ replicate ((119 - p) mod 64) 0 @ f"
    by (simp add: md_pad_def pend_def np)
  have "hash (common64_end ctx swap) =
    foldl (compress64 (process_block ctx)) (hash ctx) (chunks 64 (pend @ replicate ((119 - p) mod 64) 0 @ f))"
  proof (cases "p < 56")
    case True
    define blk where "blk = pend @ replicate (56 - Suc p) 0 @ f"
    have len: "length blk = 64" using lenp f True by (simp add: blk_def)
    have "common64_end ctx swap = call_process_block (c\<lparr>wbuffer := blk\<rparr>)"
      using True by (simp add: end_c end_last_block [OF c(1)] c(2) fr f_def blk_def)
    then show ?thesis
      using len True unfolding pad_one_block [OF True] blk_def [symmetric]
      by (simp add: hash_process_wbuffer [OF c(1)] fr)
  next
    case False
    define b1 where "b1 = pend @ replicate (64 - Suc p) 0"
    define b2 where "b2 = replicate 56 0 @ f"
    have len: "length b1 = 64" "length b2 = 64" using lenp f p by (simp_all add: b1_def b2_def)
    have z: "(119 - p) mod 64 = (64 - Suc p) + 56" using False p by simp
    have blk: "pend @ replicate ((119 - p) mod 64) 0 @ f = b1 @ b2"
      unfolding z by (simp add: b1_def b2_def replicate_add)
    define c1 where "c1 = call_process_block (c\<lparr>wbuffer := b1\<rparr>)"
    have wf1: "ctx_wf (c\<lparr>wbuffer := b1\<rparr>)" using c(1) len by (simp add: ctx_wf_def)
    have c1: "ctx_wf c1" "total64 c1 = total64 ctx" "process_block c1 = process_block ctx"
      "hash c1 = compress64 (process_block ctx) (hash ctx) b1"
      using ctx_wf_process [OF wf1] len
      by (simp_all add: c1_def fr hash_process_wbuffer [OF c(1)])
    have "common64_end ctx swap = common64_end_loop swap c1 0"
      using end_two_blocks [OF c(1), of "Suc p" swap] False p by (simp add: end_c c1_def b1_def c(2))
    also have "\<dots> = call_process_block (c1\<lparr>wbuffer := b2\<rparr>)"
      using end_last_block [OF c1(1), of 0 swap] c1(2) by (simp add: f_def b2_def)
    finally show ?thesis
      using len unfolding blk
      by (simp add: hash_process_wbuffer [OF c1(1)] c1)
  qed
  then show ?thesis
    by (simp only: p_def [symmetric] f_def [symmetric] pad)
qed

text \<open>A whole message through \<open>begin\<close>, \<open>hash\<close> and \<open>end\<close>.\<close>

lemma h64_digest_chain:
  assumes wf: "ctx_wf ctx" and start: "total64 ctx = 0"
  shows "hash (common64_end (md5_hash ctx msg) swap) =
    foldl (compress64 (process_block ctx)) (hash ctx)
      (chunks 64 (msg @ md_pad (length_field swap (of_nat (length msg))) (length msg)))"
proof -
  define L where "L = fst (md5_hash_loop ctx 0 msg)"
  have eq: "md5_hash ctx msg = L\<lparr>total64 := of_nat (length msg)\<rparr>"
    using start by (simp add: md5_hash_eq L_def)
  have "(process_block L, hash L) = foldl (\<lambda>(f, h) b. (f, compress64 f h b))
      (process_block ctx, hash ctx) (chunks 64 msg)"
    using h64.loop_chain [OF wf, of 0 msg] by (simp add: L_def)
  moreover have "foldl (\<lambda>(f, h) b. (f, compress64 f h b)) (f, h) bs = (f, foldl (compress64 f) h bs)"
    for f h bs
    by (induction bs arbitrary: h) auto
  ultimately have L: "process_block L = process_block ctx"
    "hash L = foldl (compress64 (process_block ctx)) (hash ctx) (chunks 64 msg)"
    by simp_all
  have p: "unat ((of_nat (length msg) :: u64) AND 63) = length msg mod 64"
    using pos_add [of 0 "length msg"] by simp
  have "take (length msg mod 64) (wbuffer L) = leftover 64 msg"
    using h64.loop_pending [OF wf, of 0 msg] by (simp add: L_def)
  then show ?thesis
    using common64_end_hash [OF md5_hash_wf [OF wf, of msg], of "length msg" swap] p
    by (simp add: eq L chunks_append [of 64 msg])
qed

lemma common64_end_loop_unfold:
  "common64_end_loop swap ctx pos =
     (let ctx = ctx\<lparr>wbuffer := blit (wbuffer ctx) pos (replicate (64 - pos) 0)\<rparr>
      in if 8 \<le> 64 - pos
         then call_process_block (ctx\<lparr>wbuffer := blit (wbuffer ctx) 56 (length_field swap (total64 ctx))\<rparr>)
         else common64_end_loop swap (call_process_block ctx) 0)"
  by (subst common64_end_loop.simps) (simp add: Let_def length_field_def)

lemma process_block_end_loop [simp, frame_simps]:
  "process_block (common64_end_loop swap ctx pos) = process_block ctx"
proof -
  have "process_block (common64_end_loop swap c 0) = process_block c" for c
    by (subst common64_end_loop_unfold) (simp add: Let_def)
  then show ?thesis
    by (subst common64_end_loop_unfold) (simp add: Let_def)
qed

lemma process_block_hash [simp, frame_simps]:
  "ctx_wf ctx \<Longrightarrow> process_block (md5_hash ctx d) = process_block ctx"
proof -
  assume wf: "ctx_wf ctx"
  have "fst (foldl (\<lambda>(f, h) b. (f, compress64 f h b)) (f, h) bs) = f" for f h bs
    by (induction bs arbitrary: h) auto
  then show ?thesis
    using arg_cong [OF h64.loop_chain [OF wf pos_less], of fst] by (simp add: md5_hash_eq)
qed

section \<open>The digests of the standards\<close>

text \<open>
  RFC 1321, section 3, and FIPS 180-4, sections 5 and 6, for messages that are byte strings: pad,
  cut into blocks, chain the compression function from the initial value and write the words out,
  low byte first for MD5 and high byte first for SHA.
\<close>

definition store_be32 :: "u32 \<Rightarrow> bytes" where
  "store_be32 v = rev (store32 v)"

definition store_be64 :: "u64 \<Rightarrow> bytes" where
  "store_be64 v = rev (store64 v)"

definition rfc1321_md5 :: "bytes \<Rightarrow> bytes" where
  "rfc1321_md5 msg =
     concat (map store32
       (foldl rfc_md5_compress [0x67452301, 0xefcdab89, 0x98badcfe, 0x10325476]
         (chunks 64 (msg @ md_pad (store64 (8 * of_nat (length msg))) (length msg)))))"

definition fips180_sha1 :: "bytes \<Rightarrow> bytes" where
  "fips180_sha1 msg =
     concat (map store_be32
       (foldl fips_sha1_compress [0x67452301, 0xefcdab89, 0x98badcfe, 0x10325476, 0xc3d2e1f0]
         (chunks 64 (msg @ md_pad (store_be64 (8 * of_nat (length msg))) (length msg)))))"

definition fips180_sha256 :: "bytes \<Rightarrow> bytes" where
  "fips180_sha256 msg =
     concat (map store_be32
       (foldl fips_sha256_compress (drop 2 init256)
         (chunks 64 (msg @ md_pad (store_be64 (8 * of_nat (length msg))) (length msg)))))"

lemma store32_bswap32: "store32 (bswap32 v) = store_be32 v"
proof -
  define a b c d where "a = (ucast v :: u8)" and "b = (ucast (drop_bit 8 v) :: u8)"
    and "c = (ucast (drop_bit 16 v) :: u8)" and "d = (ucast (drop_bit 24 v) :: u8)"
  have v: "store32 (le32 p q r s) = [p, q, r, s]" for p q r s
    by (auto simp: store32_def le32_def bit_simps intro!: bit_word_eqI)
  have "v = le32 a b c d"
    by (simp add: a_def b_def c_def d_def le32_bytes)
  then show ?thesis by (simp add: bswap32_le32 v store_be32_def)
qed

lemma store64_bswap64: "store64 (bswap64 v) = store_be64 v"
proof -
  have lo: "(ucast (bswap64 v) :: u32) = bswap32 (ucast (drop_bit 32 v))"
    by (rule bit_word_eqI) (auto simp: bswap64_def bit_simps)
  have hi: "(ucast (drop_bit 32 (bswap64 v)) :: u32) = bswap32 (ucast v)"
    by (rule bit_word_eqI) (auto simp: bswap64_def bit_simps dest: bit_imp_le_length)
  show ?thesis
    by (simp add: store64_def store_be64_def lo hi store32_bswap32 store_be32_def)
qed

lemma length_field_eq:
  "length_field False n = store64 (8 * n)"
  "length_field True n = store_be64 (8 * n)"
  by (simp_all add: length_field_def store64_bswap64 push_bit_eq_mult mult.commute)

lemma compress_take:
  "length h = 8 \<Longrightarrow> take 4 (rfc_md5_compress h b) = rfc_md5_compress (take 4 h) b"
  "length h = 8 \<Longrightarrow> take 5 (fips_sha1_compress h b) = fips_sha1_compress (take 5 h) b"
  by (simp_all add: rfc_md5_compress_def fips_sha1_compress_def Let_def split_beta take_update_swap)

lemma foldl_take:
  assumes "\<And>h b. length h = m \<Longrightarrow> length (f h b) = m"
    and "\<And>h b. length h = m \<Longrightarrow> take k (f h b) = f (take k h) b" and "length h = m"
  shows "take k (foldl f h bs) = foldl f (take k h) bs"
  using assms(3) by (induction bs arbitrary: h) (simp_all add: assms)

text \<open>A message fed in any number of pieces is the message fed at once.\<close>

lemma md5_hash_concat:
  "ctx_wf ctx \<Longrightarrow> ps \<noteq> [] \<Longrightarrow> foldl md5_hash ctx ps = md5_hash ctx (concat ps)"
proof (induction ps arbitrary: ctx)
  case (Cons p ps)
  then show ?case
    by (cases "ps = []") (simp_all add: md5_hash_wf md5_hash_append)
qed simp

lemma md5_hash_Nil: "ctx_wf ctx \<Longrightarrow> md5_hash ctx [] = ctx"
proof -
  assume wf: "ctx_wf ctx"
  have "fst (md5_hash_loop ctx (unat (total64 ctx AND 63)) []) = ctx"
    using h64.loop_feed [OF wf pos_less, of "total64 ctx" "[]"] by simp
  then show ?thesis by (simp add: md5_hash_eq)
qed

lemma md5_hash_pieces: "ctx_wf ctx \<Longrightarrow> foldl md5_hash ctx ps = md5_hash ctx (concat ps)"
  by (cases "ps = []") (simp_all add: md5_hash_Nil md5_hash_concat)

lemma begin_wf:
  "ctx_wf ctx \<Longrightarrow> ctx_wf (md5_begin ctx)" "ctx_wf ctx \<Longrightarrow> ctx_wf (sha1_begin ctx)"
  "ctx_wf ctx \<Longrightarrow> ctx_wf (sha256_begin ctx)"
  by (simp_all add: ctx_wf_def md5_begin_def sha1_begin_def sha256_begin_def init256_def)

lemma foldl_update_upto:
  "n \<le> length h \<Longrightarrow> foldl (\<lambda>h i. h[i := g (h ! i)]) h [0..<n] = map g (take n h) @ drop n h"
proof (induction n)
  case (Suc n)
  have "map g (take n h) @ (drop n h)[0 := g (h ! n)] = map g (take (Suc n) h) @ drop (Suc n) h"
    using Suc.prems by (simp add: take_Suc_conv_app_nth flip: Cons_nth_drop_Suc)
  then show ?case using Suc by (simp add: list_update_append nth_append)
qed simp

lemma swap_hash:
  "n \<le> length h \<Longrightarrow> take n (foldl (\<lambda>h i. h[i := SWAP_BE32 (h ! i)]) h [0..<n]) = map bswap32 (take n h)"
  by (simp only: foldl_update_upto) (simp add: SWAP_BE32_def BB_BIG_ENDIAN_def)

lemma foldl_md5_first4:
  "length h = 8 \<Longrightarrow> take 4 (foldl rfc_md5_compress h bs) = foldl rfc_md5_compress (take 4 h) bs"
  by (rule foldl_take) (auto simp: compress_take)

lemma foldl_sha1_first5:
  "length h = 8 \<Longrightarrow> take 5 (foldl fips_sha1_compress h bs) = foldl fips_sha1_compress (take 5 h) bs"
  by (rule foldl_take) (auto simp: compress_take)

text \<open>
  Property C1: MD5 is computed correctly. Whatever is in the context before, and however the
  message is cut into calls of \<open>md5_hash\<close>, the sixteen bytes \<open>md5_end\<close> writes are the RFC 1321
  digest of the whole message.
\<close>

theorem md5_digest:
  assumes "ctx_wf ctx"
  shows "snd (md5_end (foldl md5_hash (md5_begin ctx) pieces)) = rfc1321_md5 (concat pieces)"
proof -
  have wf: "ctx_wf (md5_begin ctx)" and len: "length (hash ctx) = 8"
    using assms by (simp_all add: begin_wf) (simp add: ctx_wf_def)
  have b: "total64 (md5_begin ctx) = 0" "process_block (md5_begin ctx) = Md5_block"
    "take 4 (hash (md5_begin ctx)) = [0x67452301, 0xefcdab89, 0x98badcfe, 0x10325476]"
    "length (hash (md5_begin ctx)) = 8"
    by (simp_all add: md5_begin_def len, subst list8 [OF len], simp)
  have "take 4 (hash (common64_end (md5_hash (md5_begin ctx) (concat pieces)) False)) =
    foldl rfc_md5_compress (take 4 (hash (md5_begin ctx)))
      (chunks 64 (concat pieces @ md_pad (store64 (8 * of_nat (length (concat pieces))))
        (length (concat pieces))))"
    using b(4) by (simp only: h64_digest_chain [OF wf b(1)] b(2) compress64_def block_fn.case
        foldl_md5_first4 length_field_eq)
  then show ?thesis
    by (simp only: md5_hash_pieces [OF wf] md5_end_def BB_BIG_ENDIAN_def Let_def if_False snd_conv
        rfc1321_md5_def b(3))
qed

lemma sha1_end_digest:
  assumes "ctx_wf ctx" "process_block ctx \<noteq> Md5_block"
  shows "snd (sha1_end ctx) = concat (map store_be32
    (take (if process_block ctx = Sha1_block then 5 else 8) (hash (common64_end ctx True))))"
proof -
  have "length (hash (common64_end ctx True)) = 8"
    using assms(1) common64_end_hash [OF assms(1), of "unat (total64 ctx AND 63)" True]
      length_foldl [of 8 "compress64 (process_block ctx)"]
    by (simp add: ctx_wf_def)
  moreover have "process_block (common64_end ctx True) = process_block ctx"
    by (simp add: common64_end_def Let_def)
  ultimately show ?thesis
    by (simp add: sha1_end_def BB_LITTLE_ENDIAN_def Let_def swap_hash store32_bswap32 comp_def)
qed

lemma sha1_end_pieces:
  assumes "ctx_wf ctx"
  shows "snd (sha1_end (foldl md5_hash (sha1_begin ctx) pieces)) = fips180_sha1 (concat pieces)"
proof -
  have wf: "ctx_wf (sha1_begin ctx)" and len: "length (hash ctx) = 8"
    using assms by (simp_all add: begin_wf) (simp add: ctx_wf_def)
  have b: "total64 (sha1_begin ctx) = 0" "process_block (sha1_begin ctx) = Sha1_block"
    "take 5 (hash (sha1_begin ctx)) = [0x67452301, 0xefcdab89, 0x98badcfe, 0x10325476, 0xc3d2e1f0]"
    "length (hash (sha1_begin ctx)) = 8"
    by (simp_all add: sha1_begin_def len, subst list8 [OF len], simp)
  note m = md5_hash_wf [OF wf, of "concat pieces"]
  have "take 5 (hash (common64_end (md5_hash (sha1_begin ctx) (concat pieces)) True)) =
    foldl fips_sha1_compress (take 5 (hash (sha1_begin ctx)))
      (chunks 64 (concat pieces @ md_pad (store_be64 (8 * of_nat (length (concat pieces))))
        (length (concat pieces))))"
    using b(4) by (simp only: h64_digest_chain [OF wf b(1)] b(2) compress64_def block_fn.case
        foldl_sha1_first5 length_field_eq)
  then show ?thesis
    by (simp add: md5_hash_pieces [OF wf] sha1_end_digest [OF m] wf b(2) fips180_sha1_def b(3)
        del: length_concat)
qed

text \<open>
  Property C2: SHA-1 is computed correctly. Whatever is in the context before, and however the
  message is cut into calls of \<open>sha1_hash\<close>, the twenty bytes \<open>sha1_end\<close> writes are the FIPS 180
  digest of the whole message.
\<close>

theorem sha1_digest:
  assumes "ctx_wf ctx"
  shows "snd (sha1_end (foldl md5_hash (sha1_begin ctx) pieces)) = fips180_sha1 (concat pieces)"
  using assms by (rule sha1_end_pieces)

lemma sha256_end_pieces:
  assumes "ctx_wf ctx"
  shows "snd (sha1_end (foldl md5_hash (sha256_begin ctx) pieces)) = fips180_sha256 (concat pieces)"
proof -
  have wf: "ctx_wf (sha256_begin ctx)" using assms by (rule begin_wf)
  have b: "total64 (sha256_begin ctx) = 0" "process_block (sha256_begin ctx) = Sha256_block"
    "hash (sha256_begin ctx) = drop 2 init256" "length (hash (sha256_begin ctx)) = 8"
    by (simp_all add: sha256_begin_def init256_def)
  note m = md5_hash_wf [OF wf, of "concat pieces"]
  have h: "hash (common64_end (md5_hash (sha256_begin ctx) (concat pieces)) True) =
    foldl fips_sha256_compress (drop 2 init256)
      (chunks 64 (concat pieces @ md_pad (store_be64 (8 * of_nat (length (concat pieces))))
        (length (concat pieces))))"
    by (simp only: h64_digest_chain [OF wf b(1)] b(2,3) compress64_def block_fn.case length_field_eq)
  have "length (foldl fips_sha256_compress (drop 2 init256) bs) = 8" for bs
    using b(3,4) by (intro length_foldl) simp_all
  then show ?thesis
    by (simp add: md5_hash_pieces [OF wf] sha1_end_digest [OF m] wf b(2) fips180_sha256_def h
        del: length_concat)
qed

text \<open>
  Property C3: SHA-256 is computed correctly. Whatever is in the context before, and however the
  message is cut into calls of \<open>sha256_hash\<close>, the thirty-two bytes \<open>sha256_end\<close> writes are the
  FIPS 180 digest of the whole message. The begin function's one copy over \<open>total64\<close> and \<open>hash\<close>
  is enough.
\<close>

theorem sha256_digest:
  assumes "ctx_wf ctx"
  shows "snd (sha1_end (foldl md5_hash (sha256_begin ctx) pieces)) = fips180_sha256 (concat pieces)"
  using assms by (rule sha256_end_pieces)

definition ctx0 :: md5_ctx where
  "ctx0 = \<lparr>wbuffer = replicate 64 0xAA, process_block = Sha256_block, total64 = 5,
     hash = replicate 8 0x55555555\<rparr>"

theorem md5_digest_witness:
  "snd (md5_end (foldl md5_hash (md5_begin ctx0) [[0x61], [], [0x62, 0x63]])) =
     rfc1321_md5 [0x61, 0x62, 0x63]"
  using md5_digest [of ctx0 "[[0x61], [], [0x62, 0x63]]"] by (simp add: ctx_wf_def ctx0_def)

theorem sha1_digest_witness:
  "snd (sha1_end (foldl md5_hash (sha1_begin ctx0) [[0x61], [], [0x62, 0x63]])) =
     fips180_sha1 [0x61, 0x62, 0x63]"
  using sha1_digest [of ctx0 "[[0x61], [], [0x62, 0x63]]"] by (simp add: ctx_wf_def ctx0_def)

theorem sha256_digest_witness:
  "snd (sha1_end (foldl md5_hash (sha256_begin ctx0) [[0x61], [], [0x62, 0x63]])) =
     fips180_sha256 [0x61, 0x62, 0x63]"
  using sha256_digest [of ctx0 "[[0x61], [], [0x62, 0x63]]"] by (simp add: ctx_wf_def ctx0_def)

end
