(* ===== verification/Sha512.thy ===== *)
theory Sha512
  imports Hash64
begin

text \<open>
  The SHA-512 operations of \<open>libbb/hash_md5_sha.c\<close>: \<open>sha512_begin\<close>, \<open>sha512_hash\<close> and
  \<open>sha512_end\<close>. The block is 128 bytes and the byte count is kept in two words with a carry; the
  digest is FIPS 180's for every message the count can hold.
\<close>

section \<open>The operations\<close>

text \<open>
  The loop of \<open>sha512_begin\<close> writes ten words from \<open>total64\<close> on: the first two are the count, the
  others the eight words of \<open>hash\<close>.
\<close>

definition sha512_init_word :: "nat \<Rightarrow> u64" where
  "sha512_init_word i = push_bit 32 (ucast (init256 ! i)) + ucast (init512_lo ! i)"

definition sha512_begin :: "sha512_ctx \<Rightarrow> sha512_ctx" where
  "sha512_begin ctx = ctx\<lparr>s5_total64 := map sha512_init_word [0, 1],
     s5_hash := map sha512_init_word [2, 3, 4, 5, 6, 7, 8, 9]\<rparr>"

function sha512_hash_loop :: "sha512_ctx \<Rightarrow> nat \<Rightarrow> bytes \<Rightarrow> sha512_ctx \<times> nat" where
  "sha512_hash_loop ctx bufpos buffer =
     (let remaining = 128 - bufpos;
          remaining = (if remaining > length buffer then length buffer else remaining);
          ctx = ctx\<lparr>s5_wbuffer := blit (s5_wbuffer ctx) bufpos (take remaining buffer)\<rparr>;
          bufpos = bufpos + remaining
      in if bufpos \<noteq> 128 then (ctx, bufpos)
         else sha512_hash_loop (sha512_process_block128 ctx) 0 (drop remaining buffer))"
  by pat_completeness auto
termination
  by (relation "measure (\<lambda>(ctx, bufpos, buffer). 2 * length buffer + (if bufpos = 128 then 1 else 0))")
     (auto split: if_splits)

declare sha512_hash_loop.simps [simp del]

definition sha512_count :: "u64 list \<Rightarrow> u64 \<Rightarrow> u64 list" where
  "sha512_count tot len =
     (let tot = tot[0 := tot ! 0 + len]
      in if tot ! 0 < len then tot[1 := tot ! 1 + 1] else tot)"

definition sha512_hash :: "sha512_ctx \<Rightarrow> bytes \<Rightarrow> sha512_ctx" where
  "sha512_hash ctx buffer =
     (let bufpos = unat (s5_total64 ctx ! 0 AND 127);
          ctx = ctx\<lparr>s5_total64 := sha512_count (s5_total64 ctx) (of_nat (length buffer))\<rparr>
      in fst (sha512_hash_loop ctx bufpos buffer))"

function sha512_end_loop :: "sha512_ctx \<Rightarrow> nat \<Rightarrow> sha512_ctx" where
  "sha512_end_loop ctx bufpos =
     (let remaining = 128 - bufpos;
          ctx = ctx\<lparr>s5_wbuffer := blit (s5_wbuffer ctx) bufpos (replicate remaining 0)\<rparr>;
          ctx = (if remaining \<ge> 16
                 then (let t = push_bit 3 (s5_total64 ctx ! 0);
                           t = SWAP_BE64 t;
                           ctx = ctx\<lparr>s5_wbuffer := blit (s5_wbuffer ctx) (128 - 8) (store64 t)\<rparr>;
                           t = push_bit 3 (s5_total64 ctx ! 1) OR drop_bit 61 (s5_total64 ctx ! 0);
                           t = SWAP_BE64 t
                       in ctx\<lparr>s5_wbuffer := blit (s5_wbuffer ctx) (128 - 16) (store64 t)\<rparr>)
                 else ctx);
          ctx = sha512_process_block128 ctx
      in if remaining \<ge> 16 then ctx else sha512_end_loop ctx 0)"
  by pat_completeness auto
termination
  by (relation "measure (\<lambda>(ctx, bufpos). if bufpos \<le> 112 then 0 else 1)") auto

declare sha512_end_loop.simps [simp del]

definition sha512_end :: "sha512_ctx \<Rightarrow> sha512_ctx \<times> bytes" where
  "sha512_end ctx =
     (let bufpos = unat (s5_total64 ctx ! 0 AND 127);
          ctx = ctx\<lparr>s5_wbuffer := (s5_wbuffer ctx)[bufpos := 0x80]\<rparr>;
          ctx = sha512_end_loop ctx (bufpos + 1);
          ctx = (if BB_LITTLE_ENDIAN
                 then ctx\<lparr>s5_hash := foldl (\<lambda>h i. h[i := SWAP_BE64 (h ! i)]) (s5_hash ctx) [0..<8]\<rparr>
                 else ctx)
      in (ctx, concat (map store64 (s5_hash ctx))))"

section \<open>The buffering contract\<close>

lemma process128_fips:
  "sha512_wf ctx \<Longrightarrow>
   sha512_process_block128 ctx = ctx\<lparr>s5_hash := fips_sha512_compress (s5_hash ctx) (s5_wbuffer ctx)\<rparr>"
  by (simp add: sha512_block_fips sha512_wf_def)

lemma process128_frame [simp, frame_simps]:
  "s5_wbuffer (sha512_process_block128 ctx) = s5_wbuffer ctx"
  "s5_total64 (sha512_process_block128 ctx) = s5_total64 ctx"
  by (simp_all add: sha512_process_block128_def Let_def split_beta)

lemma process128_total:
  "sha512_process_block128 (ctx\<lparr>s5_total64 := t\<rparr>) = (sha512_process_block128 ctx)\<lparr>s5_total64 := t\<rparr>"
  by (simp add: sha512_process_block128_def Let_def split_beta)

lemma sha512_wf_process: "sha512_wf ctx \<Longrightarrow> sha512_wf (sha512_process_block128 ctx)"
  by (simp add: process128_fips) (simp add: sha512_wf_def)

lemma sha512_wf_wbuffer: "sha512_wf ctx \<Longrightarrow> length b = 128 \<Longrightarrow> sha512_wf (ctx\<lparr>s5_wbuffer := b\<rparr>)"
  by (simp add: sha512_wf_def)

lemma sha512_wf_total: "sha512_wf ctx \<Longrightarrow> length t = 2 \<Longrightarrow> sha512_wf (ctx\<lparr>s5_total64 := t\<rparr>)"
  by (simp add: sha512_wf_def)

lemma hash_process128:
  "sha512_wf ctx \<Longrightarrow> length b = 128 \<Longrightarrow>
   s5_hash (sha512_process_block128 (ctx\<lparr>s5_wbuffer := b\<rparr>)) = fips_sha512_compress (s5_hash ctx) b"
  using process128_fips [of "ctx\<lparr>s5_wbuffer := b\<rparr>"] by (simp add: sha512_wf_wbuffer)

definition put128 :: "nat \<Rightarrow> u8 \<Rightarrow> sha512_ctx \<Rightarrow> sha512_ctx" where
  "put128 p b ctx = ctx\<lparr>s5_wbuffer := (s5_wbuffer ctx)[p := b]\<rparr>"

lemma put_all_put128:
  "p + length d \<le> length (s5_wbuffer ctx) \<Longrightarrow>
   put_all put128 ctx p d = ctx\<lparr>s5_wbuffer := blit (s5_wbuffer ctx) p d\<rparr>"
proof (induction d arbitrary: ctx p)
  case (Cons b d)
  then show ?case by (simp add: put128_def blit_Cons)
qed simp

definition fill128 :: "nat \<Rightarrow> bytes \<Rightarrow> nat" where
  "fill128 p d = (if 128 - p > length d then length d else 128 - p)"

definition filled128 :: "sha512_ctx \<Rightarrow> nat \<Rightarrow> bytes \<Rightarrow> sha512_ctx" where
  "filled128 ctx p d = ctx\<lparr>s5_wbuffer := blit (s5_wbuffer ctx) p (take (fill128 p d) d)\<rparr>"

lemma sha512_hash_loop_unfold:
  "sha512_hash_loop ctx p d =
     (if p + fill128 p d \<noteq> 128 then (filled128 ctx p d, p + fill128 p d)
      else sha512_hash_loop (sha512_process_block128 (filled128 ctx p d)) 0 (drop (fill128 p d) d))"
  by (subst sha512_hash_loop.simps) (simp only: Let_def fill128_def filled128_def)

interpretation h128: block_chain "\<lambda>_. 128" put128 sha512_process_block128 sha512_hash_loop sha512_wf
  s5_wbuffer s5_hash fips_sha512_compress
proof
  fix ctx :: sha512_ctx and p :: nat and d :: bytes
  assume wf: "sha512_wf ctx" and p: "p < 128"
  have r: "min (128 - p) (length d) = fill128 p d" by (simp add: fill128_def)
  have "put_all put128 ctx p (take (fill128 p d) d) = filled128 ctx p d"
    unfolding filled128_def
    using wf p by (intro put_all_put128) (auto simp: sha512_wf_def fill128_def)
  then show "sha512_hash_loop ctx p d =
    (let r = min (128 - p) (length d); c1 = put_all put128 ctx p (take r d)
     in if p + r \<noteq> 128 then (c1, p + r) else sha512_hash_loop (sha512_process_block128 c1) 0 (drop r d))"
    unfolding r Let_def by (subst sha512_hash_loop_unfold) simp
qed (auto simp: put128_def sha512_wf_process process128_fips, auto simp: sha512_wf_def)

lemma sha512_loop_total:
  "sha512_hash_loop (ctx\<lparr>s5_total64 := t\<rparr>) p d =
     ((fst (sha512_hash_loop ctx p d))\<lparr>s5_total64 := t\<rparr>, snd (sha512_hash_loop ctx p d))"
proof (induction ctx p d rule: sha512_hash_loop.induct)
  case (1 ctx p d)
  let ?r = "fill128 p d" and ?c = "sha512_process_block128 (filled128 ctx p d)"
  have f: "filled128 (ctx\<lparr>s5_total64 := t\<rparr>) p d = (filled128 ctx p d)\<lparr>s5_total64 := t\<rparr>"
    by (simp add: filled128_def)
  have IH: "sha512_hash_loop (?c\<lparr>s5_total64 := t\<rparr>) 0 (drop ?r d) =
      ((fst (sha512_hash_loop ?c 0 (drop ?r d)))\<lparr>s5_total64 := t\<rparr>, snd (sha512_hash_loop ?c 0 (drop ?r d)))"
    if "p + ?r = 128"
    using "1" [OF refl refl refl refl] that by (simp only: fill128_def filled128_def not_not simp_thms)
  show ?case
  proof (cases "p + ?r = 128")
    case True
    have "sha512_hash_loop (ctx\<lparr>s5_total64 := t\<rparr>) p d = sha512_hash_loop (?c\<lparr>s5_total64 := t\<rparr>) 0 (drop ?r d)"
      using True by (subst sha512_hash_loop_unfold) (simp only: f process128_total simp_thms if_False)
    moreover have "sha512_hash_loop ctx p d = sha512_hash_loop ?c 0 (drop ?r d)"
      using True by (subst sha512_hash_loop_unfold) (simp only: simp_thms if_False)
    ultimately show ?thesis using IH [OF True] by (simp only:)
  next
    case False
    have "sha512_hash_loop (ctx\<lparr>s5_total64 := t\<rparr>) p d = ((filled128 ctx p d)\<lparr>s5_total64 := t\<rparr>, p + ?r)"
      using False by (subst sha512_hash_loop_unfold) (simp only: f simp_thms if_True)
    moreover have "sha512_hash_loop ctx p d = (filled128 ctx p d, p + ?r)"
      using False by (subst sha512_hash_loop_unfold) (simp only: simp_thms if_True)
    ultimately show ?thesis by (simp only: fst_conv snd_conv)
  qed
qed

lemma sha512_hash_eq:
  "sha512_hash ctx d = (fst (sha512_hash_loop ctx (unat (s5_total64 ctx ! 0 AND 127)) d))
     \<lparr>s5_total64 := sha512_count (s5_total64 ctx) (of_nat (length d))\<rparr>"
  by (simp add: sha512_hash_def Let_def sha512_loop_total)

section \<open>The two-word counter\<close>

text \<open>The number of bytes the two words stand for.\<close>

definition count128 :: "u64 list \<Rightarrow> nat" where
  "count128 t = unat (t ! 0) + 2 ^ 64 * unat (t ! 1)"

lemma length_sha512_count [simp]: "length (sha512_count t n) = length t"
  by (simp add: sha512_count_def Let_def)

lemma add_carry: "(a + b < b) = (2 ^ 64 \<le> unat a + unat b)" for a b :: u64
proof -
  have "unat (a + b) = (if 2 ^ 64 \<le> unat a + unat b then unat a + unat b - 2 ^ 64 else unat a + unat b)"
    using u64_less [of a] u64_less [of b] by (auto simp: unat_word_ariths mod_if)
  then show ?thesis
    using u64_less [of a] u64_less [of b] by (auto simp: word_less_nat_alt split: if_splits)
qed

text \<open>The increment with the carry is addition modulo \<open>2^128\<close>.\<close>

lemma sha512_count_add:
  assumes "length t = 2"
  shows "count128 (sha512_count t n) = (count128 t + unat n) mod 2 ^ 128"
proof -
  obtain a b where t: "t = [a, b]"
    using assms by (auto simp: numeral_2_eq_2 length_Suc_conv)
  note lt = u64_less [of a] u64_less [of b] u64_less [of n]
  show ?thesis
  proof (cases "a + n < n")
    case False
    then have "unat (a + n) = unat a + unat n"
      using lt by (simp add: add_carry unat_word_ariths)
    then show ?thesis
      using False lt by (simp add: t sha512_count_def count128_def add_carry)
  next
    case True
    then have lo: "unat (a + n) = unat a + unat n - 2 ^ 64" and c: "2 ^ 64 \<le> unat a + unat n"
      using lt by (simp_all add: add_carry unat_word_ariths mod_if)
    show ?thesis
    proof (cases "unat b + 1 < 2 ^ 64")
      case hi: True
      then have "unat (b + 1) = unat b + 1" by (simp add: unat_word_ariths)
      then show ?thesis
        using True hi lo c lt by (simp add: t sha512_count_def count128_def)
    next
      case False
      then have b: "unat b = 2 ^ 64 - 1" using lt by simp
      then have "unat (b + 1) = 0" by (simp add: unat_word_ariths)
      then show ?thesis
        using True b lo c lt by (simp add: t sha512_count_def count128_def mod_if)
    qed
  qed
qed

section \<open>The state after a part of the message\<close>

lemma and_127: "unat ((t::u64) AND 127) = unat t mod 128"
proof -
  have "(127::u64) = mask 7" by (simp add: mask_eq_exp_minus_1)
  then have "t AND 127 = take_bit 7 t" by (simp only: take_bit_eq_mask)
  then show ?thesis using unsigned_take_bit_eq [of 7 t] by (simp add: take_bit_eq_mod)
qed

lemma and_127_less [simp]: "unat ((t::u64) AND 127) < 128"
  by (simp add: and_127)

lemma count128_pos: "unat (t ! 0 AND 127) = count128 t mod 128"
proof -
  have "(2::nat) ^ 64 = 128 * 2 ^ 57" by simp
  then have "count128 t = unat (t ! 0) + 128 * (2 ^ 57 * unat (t ! 1))"
    by (simp only: count128_def mult.assoc)
  then show ?thesis by (simp only: and_127 mod_mult_self2)
qed

text \<open>
  \<open>absorbed ctx h msg\<close>: the context holds what it must after the bytes \<open>msg\<close> when the
  chaining started from \<open>h\<close>.
\<close>

definition absorbed :: "sha512_ctx \<Rightarrow> u64 list \<Rightarrow> bytes \<Rightarrow> bool" where
  "absorbed ctx h msg \<longleftrightarrow> sha512_wf ctx \<and> count128 (s5_total64 ctx) = length msg mod 2 ^ 128 \<and>
     s5_hash ctx = foldl fips_sha512_compress h (chunks 128 msg) \<and>
     take (length msg mod 128) (s5_wbuffer ctx) = leftover 128 msg"

lemma absorbed_pos:
  "absorbed ctx h msg \<Longrightarrow> unat (s5_total64 ctx ! 0 AND 127) = length msg mod 128"
  by (simp add: absorbed_def count128_pos mod_mod_cancel)

lemma absorbed_hash:
  assumes a: "absorbed ctx h msg" and d: "length d < 2 ^ 64"
  shows "absorbed (sha512_hash ctx d) h (msg @ d)"
proof -
  define p where "p = unat (s5_total64 ctx ! 0 AND 127)"
  define L where "L = fst (sha512_hash_loop ctx p d)"
  define t where "t = sha512_count (s5_total64 ctx) (of_nat (length d))"
  have p: "p < 128" and pm: "length msg mod 128 = p"
    using absorbed_pos [OF a] by (simp_all add: p_def)
  have wf: "sha512_wf ctx" and c: "count128 (s5_total64 ctx) = length msg mod 2 ^ 128"
    and hash: "s5_hash ctx = foldl fips_sha512_compress h (chunks 128 msg)"
    and pend: "take p (s5_wbuffer ctx) = leftover 128 msg"
    using a by (simp_all add: absorbed_def pm)
  have t2: "length (s5_total64 ctx) = 2" using wf by (simp add: sha512_wf_def)
  have eq: "sha512_hash ctx d = L\<lparr>s5_total64 := t\<rparr>"
    by (simp add: sha512_hash_eq L_def p_def t_def)
  have "unat (of_nat (length d) :: u64) = length d"
    using d by (simp add: unat_of_nat)
  then have "count128 t = (length msg mod 2 ^ 128 + length d) mod 2 ^ 128"
    using sha512_count_add [OF t2, of "of_nat (length d)"] c by (simp add: t_def)
  then have t: "count128 t = length (msg @ d) mod 2 ^ 128"
    by (simp add: mod_add_left_eq)
  have h: "s5_hash L = foldl fips_sha512_compress h (chunks 128 (msg @ d))"
    using h128.loop_chain [OF wf p, of d] by (simp add: L_def hash pend chunks_append [of 128 msg])
  have "(p + length d) mod 128 = length (msg @ d) mod 128"
    by (simp add: pm [symmetric] mod_add_left_eq)
  then have w: "take (length (msg @ d) mod 128) (s5_wbuffer L) = leftover 128 (msg @ d)"
    using h128.loop_pending [OF wf p, of d] by (simp only: L_def pend leftover_append [of 128 msg d])
  have "sha512_wf L" using h128.loop_inv [OF wf p, of d] by (simp add: L_def)
  then have "sha512_wf (L\<lparr>s5_total64 := t\<rparr>)"
    using t2 by (intro sha512_wf_total) (simp_all add: t_def)
  then show ?thesis
    unfolding eq absorbed_def using t h w by simp
qed

text \<open>The initial value as the standard lists it.\<close>

definition fips_sha512_H0 :: "u64 list" where
  "fips_sha512_H0 =
     [0x6a09e667f3bcc908, 0xbb67ae8584caa73b, 0x3c6ef372fe94f82b, 0xa54ff53a5f1d36f1,
      0x510e527fade682d1, 0x9b05688c2b3e6c1f, 0x1f83d9abfb41bd6b, 0x5be0cd19137e2179]"

lemma sha512_init_fips: "map sha512_init_word [2, 3, 4, 5, 6, 7, 8, 9] = fips_sha512_H0"
  by (simp add: sha512_init_word_def init256_def init512_lo_def fips_sha512_H0_def)

lemma length_fips_sha512_H0 [simp]: "length fips_sha512_H0 = 8"
  by (simp add: fips_sha512_H0_def)

lemma absorbed_begin: "sha512_wf ctx \<Longrightarrow>
   absorbed (sha512_begin ctx) fips_sha512_H0 []"
  unfolding sha512_begin_def sha512_init_fips
  by (simp add: absorbed_def sha512_wf_def count128_def sha512_init_word_def
      init256_def init512_lo_def leftover_def)

lemma absorbed_pieces:
  "absorbed ctx h msg \<Longrightarrow> \<forall>d\<in>set ps. length d < 2 ^ 64 \<Longrightarrow>
   absorbed (foldl sha512_hash ctx ps) h (msg @ concat ps)"
proof (induction ps arbitrary: ctx msg)
  case (Cons p ps)
  from Cons.IH [OF absorbed_hash [OF Cons.prems(1), of p]] Cons.prems(2) show ?case by simp
qed simp

section \<open>Padding and the digest\<close>

text \<open>
  The padding of FIPS 180-4 for 128-byte blocks; the length in bits is a 128-bit big-endian
  number.
\<close>

definition store_be128 :: "nat \<Rightarrow> bytes" where
  "store_be128 n = store_be64 (of_nat (n div 2 ^ 64)) @ store_be64 (of_nat n)"

definition md_pad128 :: "nat \<Rightarrow> bytes" where
  "md_pad128 n = 0x80 # replicate ((239 - n mod 128) mod 128) 0 @ store_be128 (8 * n)"

definition fips180_sha512 :: "bytes \<Rightarrow> bytes" where
  "fips180_sha512 msg =
     concat (map store_be64
       (foldl fips_sha512_compress fips_sha512_H0
         (chunks 128 (msg @ md_pad128 (length msg)))))"

definition count_field :: "u64 list \<Rightarrow> bytes" where
  "count_field t = store_be64 (push_bit 3 (t ! 1) OR drop_bit 61 (t ! 0)) @ store_be64 (push_bit 3 (t ! 0))"

lemma store_SWAP_BE64: "store64 (SWAP_BE64 t) = store_be64 t"
  by (simp add: SWAP_BE64_def BB_BIG_ENDIAN_def store64_bswap64)

lemma length_store_be64 [simp, length_simps]: "length (store_be64 t) = 8"
  by (simp add: store_be64_def)

lemma length_count_field [simp, length_simps]: "length (count_field t) = 16"
  by (simp add: count_field_def)

lemma sha512_end_last:
  assumes "sha512_wf ctx" "pos \<le> 112"
  shows "sha512_end_loop ctx pos =
    sha512_process_block128 (ctx\<lparr>s5_wbuffer := take pos (s5_wbuffer ctx) @ replicate (112 - pos) 0 @
      count_field (s5_total64 ctx)\<rparr>)"
proof -
  have len: "length (take pos (s5_wbuffer ctx)) = pos"
    using assms by (simp add: sha512_wf_def)
  have "replicate (128 - pos) (0::u8) = replicate (112 - pos) 0 @ replicate 16 0"
    using assms(2) by (simp flip: replicate_add)
  then have "blit (blit (blit (s5_wbuffer ctx) pos (replicate (128 - pos) 0)) 120 f) 112 g =
      take pos (s5_wbuffer ctx) @ replicate (112 - pos) 0 @ g @ f"
    if "length f = 8" "length g = 8" for f g :: bytes
    using assms len that by (simp add: blit_def sha512_wf_def)
  then show ?thesis
    using assms(2)
    by (subst sha512_end_loop.simps) (simp add: Let_def store_SWAP_BE64 count_field_def)
qed

lemma sha512_end_next:
  assumes "sha512_wf ctx" "112 < pos" "pos \<le> 128"
  shows "sha512_end_loop ctx pos =
    sha512_end_loop (sha512_process_block128
      (ctx\<lparr>s5_wbuffer := take pos (s5_wbuffer ctx) @ replicate (128 - pos) 0\<rparr>)) 0"
  using assms
  by (subst sha512_end_loop.simps) (simp add: Let_def blit_def sha512_wf_def)

lemma count_field_be128:
  assumes "length t = 2" "count128 t = n mod 2 ^ 128"
  shows "count_field t = store_be128 (8 * n)"
proof -
  define a b where "a = t ! 0" and "b = t ! 1"
  have c: "unat a + 2 ^ 64 * unat b = n mod 2 ^ 128"
    using assms(2) by (simp only: count128_def a_def b_def)
  define q where "q = n div 2 ^ 128"
  have n: "n = 2 ^ 128 * q + (unat a + 2 ^ 64 * unat b)"
    unfolding c q_def by simp
  have pows: "(2::nat) ^ 128 = 2 ^ 64 * 2 ^ 64" "(2::nat) ^ 64 = 2 ^ 61 * 8" by simp_all
  have z: "(of_nat (2 ^ 64) :: u64) = 0" by simp
  have "(of_nat n :: u64) = a"
    unfolding n pows(1) by (simp only: of_nat_add of_nat_mult z) simp
  then have lo: "push_bit 3 a = of_nat (8 * n)"
    by (simp add: push_bit_eq_mult)
  have "n div 2 ^ 61 = 2 ^ 64 * (8 * q) + (unat a div 2 ^ 61 + 8 * unat b)"
  proof -
    have "n = unat a + 2 ^ 61 * (2 ^ 64 * (8 * q) + 8 * unat b)"
      unfolding n by simp
    then have "n div 2 ^ 61 = unat a div 2 ^ 61 + (2 ^ 64 * (8 * q) + 8 * unat b)"
      by (simp only: div_mult_self2 div_mult_self4) simp
    then show ?thesis by simp
  qed
  then have "(of_nat (n div 2 ^ 61) :: u64) = of_nat (unat a div 2 ^ 61) + 8 * b"
    by (simp only: of_nat_add of_nat_mult z) simp
  moreover have "of_nat (unat a div 2 ^ 61) = drop_bit 61 a"
  proof -
    have "unat (drop_bit 61 a) = unat a div 2 ^ 61"
      using unsigned_drop_bit_eq [of 61 a] by (simp only: drop_bit_eq_div) (simp add: unat_div)
    then show ?thesis by (metis of_nat_unat ucast_id)
  qed
  moreover have "8 * n div 2 ^ 64 = n div 2 ^ 61"
    by (simp add: pows(2) flip: div_mult2_eq)
  moreover have "push_bit 3 b OR drop_bit 61 a = push_bit 3 b + drop_bit 61 a"
    by (rule disjunctive_add_eq_or [symmetric], rule bit_word_eqI) (auto simp: bit_simps dest: bit_imp_le_length)
  ultimately have "push_bit 3 b OR drop_bit 61 a = of_nat (8 * n div 2 ^ 64)"
    by (simp add: push_bit_eq_mult)
  with lo show ?thesis
    by (simp only: count_field_def store_be128_def a_def b_def)
qed

lemma pad_one_block128: "(p::nat) < 112 \<Longrightarrow> (239 - p) mod 128 = 112 - Suc p"
  using mod_add_self2 [of "111 - p" 128] by simp

lemma sha512_end_hash:
  assumes a: "absorbed ctx h msg"
  defines "p \<equiv> unat (s5_total64 ctx ! 0 AND 127)"
  shows "s5_hash (sha512_end_loop (ctx\<lparr>s5_wbuffer := (s5_wbuffer ctx)[p := 0x80]\<rparr>) (Suc p)) =
    foldl fips_sha512_compress h (chunks 128 (msg @ md_pad128 (length msg)))"
proof -
  define pend where "pend = leftover 128 msg @ [0x80]"
  define f where "f = store_be128 (8 * length msg)"
  define c where "c = ctx\<lparr>s5_wbuffer := (s5_wbuffer ctx)[p := 0x80]\<rparr>"
  have p: "p < 128" and np: "length msg mod 128 = p"
    using absorbed_pos [OF a] by (simp_all add: p_def)
  have wf: "sha512_wf ctx" and hash: "s5_hash ctx = foldl fips_sha512_compress h (chunks 128 msg)"
    and w: "take p (s5_wbuffer ctx) = leftover 128 msg"
    and cf: "count_field (s5_total64 ctx) = f"
    using a count_field_be128 by (auto simp: absorbed_def np f_def sha512_wf_def)
  have f: "length f = 16" by (simp add: f_def store_be128_def)
  have lenp: "length pend = Suc p" by (simp add: pend_def np)
  have c: "sha512_wf c" "take (Suc p) (s5_wbuffer c) = pend"
    using wf p w by (simp_all add: c_def sha512_wf_def pend_def take_Suc_conv_app_nth)
  have fr: "s5_total64 c = s5_total64 ctx" "s5_hash c = s5_hash ctx"
    by (simp_all add: c_def)
  have pad: "chunks 128 (msg @ md_pad128 (length msg)) =
      chunks 128 msg @ chunks 128 (pend @ replicate ((239 - p) mod 128) 0 @ f)"
    by (simp add: chunks_append [of 128 msg] md_pad128_def pend_def np f_def)
  have "s5_hash (sha512_end_loop c (Suc p)) =
    foldl fips_sha512_compress (s5_hash ctx) (chunks 128 (pend @ replicate ((239 - p) mod 128) 0 @ f))"
  proof (cases "p < 112")
    case True
    define blk where "blk = pend @ replicate (112 - Suc p) 0 @ f"
    have len: "length blk = 128" using lenp f True by (simp add: blk_def)
    have "sha512_end_loop c (Suc p) = sha512_process_block128 (c\<lparr>s5_wbuffer := blk\<rparr>)"
      using True by (simp add: sha512_end_last [OF c(1)] c(2) fr cf blk_def)
    then show ?thesis
      using len unfolding pad_one_block128 [OF True] blk_def [symmetric]
      by (simp add: hash_process128 [OF c(1)] fr)
  next
    case False
    define b1 where "b1 = pend @ replicate (128 - Suc p) 0"
    define b2 where "b2 = replicate 112 0 @ f"
    have len: "length b1 = 128" "length b2 = 128" using lenp f p by (simp_all add: b1_def b2_def)
    have z: "(239 - p) mod 128 = (128 - Suc p) + 112" using False p by simp
    have blk: "pend @ replicate ((239 - p) mod 128) 0 @ f = b1 @ b2"
      unfolding z by (simp add: b1_def b2_def replicate_add)
    define c1 where "c1 = sha512_process_block128 (c\<lparr>s5_wbuffer := b1\<rparr>)"
    have c1: "sha512_wf c1" "s5_total64 c1 = s5_total64 ctx"
      "s5_hash c1 = fips_sha512_compress (s5_hash ctx) b1"
      using sha512_wf_process [OF sha512_wf_wbuffer [OF c(1) len(1)]] len
      by (simp_all add: c1_def fr hash_process128 [OF c(1)])
    have "sha512_end_loop c (Suc p) = sha512_end_loop c1 0"
      using sha512_end_next [OF c(1), of "Suc p"] False p by (simp add: c1_def b1_def c(2))
    also have "\<dots> = sha512_process_block128 (c1\<lparr>s5_wbuffer := b2\<rparr>)"
      using sha512_end_last [OF c1(1), of 0] c1(2) by (simp add: cf b2_def)
    finally show ?thesis
      using len unfolding blk by (simp add: hash_process128 [OF c1(1)] c1)
  qed
  then show ?thesis
    by (simp only: c_def hash pad foldl_append)
qed

lemma swap_hash64:
  "n = length h \<Longrightarrow> foldl (\<lambda>h i. h[i := SWAP_BE64 (h ! i)]) h [0..<n] = map SWAP_BE64 h"
  by (simp only: foldl_update_upto) simp

lemma length_sha512_chain: "length h = 8 \<Longrightarrow> length (foldl fips_sha512_compress h bs) = 8"
  by (rule length_foldl) simp_all

lemma sha512_end_digest:
  assumes "absorbed ctx h msg" "length h = 8"
  shows "snd (sha512_end ctx) =
    concat (map store_be64 (foldl fips_sha512_compress h (chunks 128 (msg @ md_pad128 (length msg)))))"
  by (simp add: sha512_end_def Let_def BB_LITTLE_ENDIAN_def sha512_end_hash [OF assms(1)]
      swap_hash64 [of 8] length_sha512_chain assms(2) comp_def store_SWAP_BE64
      del: upt_rec_numeral)

text \<open>
  Property C4: SHA-512 is computed correctly. Whatever is in the context before, and however the
  message is cut into calls of \<open>sha512_hash\<close> (each of less than 2^64 bytes, as \<open>size_t\<close> has it),
  the sixty-four bytes \<open>sha512_end\<close> writes are the FIPS 180 digest of the whole message. This
  includes the carry into the second counter word and the 128-bit length field put together from
  both.
\<close>

theorem sha512_digest:
  assumes "sha512_wf ctx" and "\<forall>d\<in>set pieces. length d < 2 ^ 64"
  shows "snd (sha512_end (foldl sha512_hash (sha512_begin ctx) pieces)) =
    fips180_sha512 (concat pieces)"
  using sha512_end_digest [OF absorbed_pieces [OF absorbed_begin [OF assms(1)] assms(2)]]
  by (simp add: fips180_sha512_def del: length_concat)

definition sha512_ctx0 :: sha512_ctx where
  "sha512_ctx0 = \<lparr>s5_total64 = [7, 9], s5_hash = replicate 8 0x55, s5_wbuffer = replicate 128 0xAA\<rparr>"

theorem sha512_digest_witness:
  "snd (sha512_end (foldl sha512_hash (sha512_begin sha512_ctx0) [[0x61], [], [0x62, 0x63]])) =
     fips180_sha512 [0x61, 0x62, 0x63]"
  using sha512_digest [of sha512_ctx0 "[[0x61], [], [0x62, 0x63]]"]
  by (simp add: sha512_wf_def sha512_ctx0_def)

end
