(* ===== verification/Keccak.thy ===== *)
theory Keccak
  imports Hash_Ctx
begin

text \<open>
  \<open>sha3_process_block72\<close> of \<open>libbb/hash_md5_sha.c\<close>, the native 64-bit version with both ways of
  doing the combined Rho and Pi steps (\<open>SHA3_SMALL\<close> one and zero), and the permutation
  Keccak-f[1600] of FIPS 202 it computes. The standard's rotation offsets and round constants are
  given by the rules the standard generates them with, the code's are its tables.
\<close>

section \<open>The code\<close>

definition IOTA_CONST :: "u16 list" where
  "IOTA_CONST = [0x0001, 0x8082] @ [0x808a, 0x8000] @ [0x808b, 0x0001] @ [0x8081, 0x8009] @
     [0x008a, 0x0088] @ [0x8009, 0x000a] @ [0x808b, 0x008b] @ [0x8089, 0x8003] @
     [0x8002, 0x0080] @ [0x800a, 0x000a] @ [0x8081, 0x8080] @ [0x0001, 0x8008]"

definition IOTA_CONST_bit63 :: u32 where "IOTA_CONST_bit63 = 0x3307dd00"
definition IOTA_CONST_bit31 :: u32 where "IOTA_CONST_bit31 = 0x16381b00"

definition ROT_CONST :: "nat list" where
  "ROT_CONST = [1, 3, 6, 10, 15, 21, 28, 36, 45, 55, 2, 14,
     27, 41, 56, 8, 25, 43, 62, 18, 39, 61, 20, 44]"

definition PI_LANE :: "nat list" where
  "PI_LANE = [10, 7, 11, 17, 18, 3, 5, 16, 8, 21, 24, 4,
     15, 23, 19, 13, 12, 2, 20, 14, 22, 9, 6, 1]"

text \<open>\<open>theta\<close> first fills the ten-element array \<open>BC\<close>, then applies it column by column.\<close>

definition theta_BC :: "u64 list \<Rightarrow> u64 list" where
  "theta_BC state =
     foldl (\<lambda>BC x. let v = state ! x XOR state ! (x + 5) XOR state ! (x + 10)
                         XOR state ! (x + 15) XOR state ! (x + 20)
                   in BC[x := v, x + 5 := v]) (replicate 10 0) [0, 1, 2, 3, 4]"

definition xor_at :: "u64 list \<Rightarrow> nat \<Rightarrow> u64 \<Rightarrow> u64 list" where
  "xor_at state i v = state[i := state ! i XOR v]"

definition sha3_theta :: "u64 list \<Rightarrow> u64 list" where
  "sha3_theta state =
     (let BC = theta_BC state
      in foldl (\<lambda>state x.
            let temp = BC ! (x + 4) XOR rotl64 (BC ! (x + 1)) 1
            in xor_at (xor_at (xor_at (xor_at (xor_at state x temp) (x + 5) temp) (x + 10) temp)
                 (x + 15) temp) (x + 20) temp) state [0, 1, 2, 3, 4])"

definition RhoPi :: "u64 list \<times> u64 \<Rightarrow> nat \<Rightarrow> u64 list \<times> u64" where
  "RhoPi = (\<lambda>(state, t1) x.
     (let t0 = state ! (PI_LANE ! x) in (state[PI_LANE ! x := rotl64 t1 (ROT_CONST ! x)], t0)))"

definition RhoPi_twice :: "u64 list \<times> u64 \<Rightarrow> nat \<Rightarrow> u64 list \<times> u64" where
  "RhoPi_twice = (\<lambda>(state, t1) x.
     (let t0 = state ! (PI_LANE ! x);
          state = state[PI_LANE ! x := rotl64 t1 (ROT_CONST ! x)];
          t1 = state ! (PI_LANE ! (x + 1));
          state = state[PI_LANE ! (x + 1) := rotl64 t0 (ROT_CONST ! (x + 1))]
      in (state, t1)))"

definition sha3_rhopi :: "bool \<Rightarrow> u64 list \<Rightarrow> u64 list" where
  "sha3_rhopi SHA3_SMALL state =
     (if SHA3_SMALL then fst (foldl RhoPi (state, state ! 1) [0..<24])
      else fst (foldl RhoPi_twice (state, state ! 1) [0, 2, 4, 6, 8, 10, 12, 14, 16, 18, 20, 22]))"

definition sha3_chi_row :: "u64 list \<Rightarrow> nat \<Rightarrow> u64 list" where
  "sha3_chi_row state x =
     (let BC0 = state ! (x + 0); BC1 = state ! (x + 1); BC2 = state ! (x + 2);
          state = state[x + 0 := BC0 XOR (NOT BC1 AND BC2)];
          BC3 = state ! (x + 3);
          state = state[x + 1 := BC1 XOR (NOT BC2 AND BC3)];
          BC4 = state ! (x + 4);
          state = state[x + 2 := BC2 XOR (NOT BC3 AND BC4)];
          state = state[x + 3 := BC3 XOR (NOT BC4 AND BC0)]
      in state[x + 4 := BC4 XOR (NOT BC0 AND BC1)])"

definition sha3_chi :: "u64 list \<Rightarrow> u64 list" where
  "sha3_chi state = foldl sha3_chi_row state [0, 5, 10, 15, 20]"

definition iota_word :: "nat \<Rightarrow> u64" where
  "iota_word round =
     ucast (IOTA_CONST ! round)
     OR ucast (push_bit round IOTA_CONST_bit31 AND 0x80000000)
     OR push_bit 32 (ucast (push_bit round IOTA_CONST_bit63 AND 0x80000000))"

definition sha3_round :: "bool \<Rightarrow> u64 list \<Rightarrow> nat \<Rightarrow> u64 list" where
  "sha3_round SHA3_SMALL state round =
     xor_at (sha3_chi (sha3_rhopi SHA3_SMALL (sha3_theta state))) 0 (iota_word round)"

definition SWAP_LE64 :: "u64 \<Rightarrow> u64" where
  "SWAP_LE64 x = (if BB_BIG_ENDIAN then bswap64 x else x)"

definition sha3_process_block72 :: "bool \<Rightarrow> u64 list \<Rightarrow> u64 list" where
  "sha3_process_block72 SHA3_SMALL state =
     (let state = (if BB_BIG_ENDIAN then map SWAP_LE64 state else state);
          state = foldl (sha3_round SHA3_SMALL) state [0..<24]
      in if BB_BIG_ENDIAN then map SWAP_LE64 state else state)"

section \<open>FIPS 202\<close>

text \<open>The lanes \<open>A[x, y]\<close>; the step mappings of section 3.2.\<close>

definition lane :: "u64 list \<Rightarrow> nat \<Rightarrow> nat \<Rightarrow> u64" where
  "lane A x y = A ! (x mod 5 + 5 * (y mod 5))"

definition lanes :: "(nat \<Rightarrow> nat \<Rightarrow> u64) \<Rightarrow> u64 list" where
  "lanes f = concat (map (\<lambda>y. map (\<lambda>x. f x y) [0, 1, 2, 3, 4]) [0, 1, 2, 3, 4])"

definition column :: "u64 list \<Rightarrow> nat \<Rightarrow> u64" where
  "column A x = lane A x 0 XOR lane A x 1 XOR lane A x 2 XOR lane A x 3 XOR lane A x 4"

definition fips_theta :: "u64 list \<Rightarrow> u64 list" where
  "fips_theta A = lanes (\<lambda>x y. lane A x y XOR (column A (x + 4) XOR word_rotl 1 (column A (x + 1))))"

text \<open>
  The offsets of rho: at step \<open>t\<close> of the walk from \<open>(1, 0)\<close> by \<open>(x, y)\<close> to \<open>(y, 2x + 3y)\<close> the lane
  is rotated by \<open>(t + 1)(t + 2) / 2\<close>.
\<close>

fun rho_walk :: "nat \<Rightarrow> nat \<Rightarrow> nat \<Rightarrow> nat \<Rightarrow> ((nat \<times> nat) \<times> nat) list" where
  "rho_walk 0 t x y = []"
| "rho_walk (Suc n) t x y =
     ((x, y), ((t + 1) * (t + 2) div 2) mod 64) # rho_walk n (t + 1) y ((2 * x + 3 * y) mod 5)"

definition rho_offset :: "nat \<Rightarrow> nat \<Rightarrow> nat" where
  "rho_offset x y = (case map_of (rho_walk 24 0 1 0) (x, y) of None \<Rightarrow> 0 | Some r \<Rightarrow> r)"

definition fips_rho :: "u64 list \<Rightarrow> u64 list" where
  "fips_rho A = lanes (\<lambda>x y. word_rotl (rho_offset x y) (lane A x y))"

definition fips_pi :: "u64 list \<Rightarrow> u64 list" where
  "fips_pi A = lanes (\<lambda>x y. lane A (x + 3 * y) x)"

definition fips_chi :: "u64 list \<Rightarrow> u64 list" where
  "fips_chi A = lanes (\<lambda>x y. lane A x y XOR (NOT (lane A (x + 1) y) AND lane A (x + 2) y))"

text \<open>
  The round constants: \<open>rc t\<close> is the first bit of an eight-bit register after \<open>t\<close> steps of a
  linear feedback shift (algorithm 5), and bit \<open>2^j - 1\<close> of a constant is \<open>rc (j + 7 round)\<close>.
\<close>

definition lfsr_step :: "bool list \<Rightarrow> bool list" where
  "lfsr_step R =
     (let R = False # R
      in take 8 (R[0 := (R ! 0 \<noteq> R ! 8), 4 := (R ! 4 \<noteq> R ! 8), 5 := (R ! 5 \<noteq> R ! 8),
           6 := (R ! 6 \<noteq> R ! 8)]))"

definition rc :: "nat \<Rightarrow> bool" where
  "rc t = ((lfsr_step ^^ (t mod 255)) [True, False, False, False, False, False, False, False]) ! 0"

definition fips_RC :: "nat \<Rightarrow> u64" where
  "fips_RC round =
     foldl (\<lambda>w j. if rc (j + 7 * round) then w XOR push_bit (2 ^ j - 1) 1 else w) 0
       [0, 1, 2, 3, 4, 5, 6]"

definition fips_iota :: "u64 list \<Rightarrow> nat \<Rightarrow> u64 list" where
  "fips_iota A round = A[0 := A ! 0 XOR fips_RC round]"

definition keccak_f :: "u64 list \<Rightarrow> u64 list" where
  "keccak_f A =
     foldl (\<lambda>A round. fips_iota (fips_chi (fips_pi (fips_rho (fips_theta A)))) round) A [0..<24]"

section \<open>The code's steps are the standard's\<close>

text \<open>States are lists of 25 lanes; the steps are compared on a list of 25 variables.\<close>

lemma list25:
  "length s = 25 \<Longrightarrow> \<exists>a b c d e f g h i j k l m n p q r t u v w x y z z'.
     s = [a, b, c, d, e, f, g, h, i, j, k, l, m, n, p, q, r, t, u, v, w, x, y, z, z']"
  by (auto simp: numeral_eq_Suc length_Suc_conv)

lemma list25E:
  assumes "length s = 25"
  obtains a b c d e f g h i j k l m n p q r t u v w x y z z' where
    "s = [a, b, c, d, e, f, g, h, i, j, k, l, m, n, p, q, r, t, u, v, w, x, y, z, z']"
  using list25 [OF assms] by (elim exE) (rule that)

lemma replicate_10: "replicate 10 (0::u64) = [0, 0, 0, 0, 0, 0, 0, 0, 0, 0]"
  by (simp add: numeral_eq_Suc)

lemma length_lanes [simp, length_simps]: "length (lanes f) = 25"
  by (simp add: lanes_def)

lemma length_xor_at [simp, length_simps]: "length (xor_at s i v) = length s"
  by (simp add: xor_at_def)

lemma rhopi_twice: "RhoPi_twice st x = RhoPi (RhoPi st x) (x + 1)"
  by (cases st) (simp add: RhoPi_twice_def RhoPi_def Let_def)

lemma upt_24: "[0..<24::nat] = [0, 1, 2, 3, 4, 5, 6, 7, 8, 9, 10, 11, 12, 13, 14, 15, 16, 17, 18, 19,
     20, 21, 22, 23]"
  by code_simp

text \<open>The unrolled variant is the loop.\<close>

lemma sha3_rhopi_unrolled: "sha3_rhopi False state = sha3_rhopi True state"
  unfolding sha3_rhopi_def upt_24 by (simp add: rhopi_twice)

lemma sha3_theta_fips: "length s = 25 \<Longrightarrow> sha3_theta s = fips_theta s"
  by (drule list25)
     (auto simp: sha3_theta_def fips_theta_def theta_BC_def replicate_10 lanes_def column_def lane_def xor_at_def
        Let_def rot_words)

lemma sha3_chi_fips: "length s = 25 \<Longrightarrow> sha3_chi s = fips_chi s"
  by (drule list25)
     (auto simp: sha3_chi_def sha3_chi_row_def fips_chi_def lanes_def lane_def Let_def)

lemma rho_offsets:
  "map (\<lambda>y. map (\<lambda>x. rho_offset x y) [0, 1, 2, 3, 4]) [0, 1, 2, 3, 4] =
    [[0, 1, 62, 28, 27], [36, 44, 6, 55, 20], [3, 10, 43, 25, 39], [41, 45, 15, 21, 8],
     [18, 2, 61, 56, 14]]"
  by code_simp

lemma sha3_rhopi_fips: "length s = 25 \<Longrightarrow> sha3_rhopi small s = fips_pi (fips_rho s)"
proof -
  assume "length s = 25"
  then obtain a b c d e f g h i j k l m n p q r t u v w x y z z' where
    s: "s = [a, b, c, d, e, f, g, h, i, j, k, l, m, n, p, q, r, t, u, v, w, x, y, z, z']"
    by (rule list25E)
  have r0: "word_rotl 0 a = a" by (rule bit_word_eqI) (simp add: bit_simps)
  have rho: "fips_rho s = [a, word_rotl 1 b, word_rotl 62 c, word_rotl 28 d, word_rotl 27 e,
      word_rotl 36 f, word_rotl 44 g, word_rotl 6 h, word_rotl 55 i, word_rotl 20 j,
      word_rotl 3 k, word_rotl 10 l, word_rotl 43 m, word_rotl 25 n, word_rotl 39 p,
      word_rotl 41 q, word_rotl 45 r, word_rotl 15 t, word_rotl 21 u, word_rotl 8 v,
      word_rotl 18 w, word_rotl 2 x, word_rotl 61 y, word_rotl 56 z, word_rotl 14 z']"
    using rho_offsets by (simp add: fips_rho_def lanes_def lane_def s r0)
  have "sha3_rhopi True s = fips_pi (fips_rho s)"
    unfolding rho sha3_rhopi_def upt_24
    by (simp add: s RhoPi_def PI_LANE_def ROT_CONST_def fips_pi_def lanes_def lane_def rot_words)
  then show ?thesis using sha3_rhopi_unrolled [of s] by (cases small) simp_all
qed

text \<open>The register is run once through all 24 rounds.\<close>

primrec lfsr_run :: "nat \<Rightarrow> bool list \<Rightarrow> bool list" where
  "lfsr_run 0 R = []"
| "lfsr_run (Suc n) R = R ! 0 # lfsr_run n (lfsr_step R)"

lemma lfsr_run_nth: "t < n \<Longrightarrow> lfsr_run n R ! t = ((lfsr_step ^^ t) R) ! 0"
proof (induction n arbitrary: t R)
  case (Suc n)
  then show ?case by (cases t) (simp_all add: funpow_swap1)
qed simp

definition rc_rows :: "bool list list" where
  "rc_rows =
    [[True, False, False, False, False, False, False],
     [False, True, False, True, True, False, False],
     [False, True, True, True, True, False, True],
     [False, False, False, False, True, True, True],
     [True, True, True, True, True, False, False],
     [True, False, False, False, False, True, False],
     [True, False, False, True, True, True, True],
     [True, False, True, False, True, False, True],
     [False, True, True, True, False, False, False],
     [False, False, True, True, False, False, False],
     [True, False, True, False, True, True, False],
     [False, True, True, False, False, True, False],
     [True, True, True, True, True, True, False],
     [True, True, True, True, False, False, True],
     [True, False, True, True, True, False, True],
     [True, True, False, False, True, False, True],
     [False, True, False, False, True, False, True],
     [False, False, False, True, False, False, True],
     [False, True, True, False, True, False, False],
     [False, True, True, False, False, True, True],
     [True, False, False, True, True, True, True],
     [False, False, False, True, True, False, True],
     [True, False, False, False, False, True, False],
     [False, False, True, False, True, True, True]]"

lemma rc_rows_run:
  "concat rc_rows = lfsr_run 168 [True, False, False, False, False, False, False, False]"
  by code_simp

lemma nth_concat_rows:
  "\<forall>r\<in>set rows. length r = n \<Longrightarrow> i < length rows \<Longrightarrow> j < n \<Longrightarrow> concat rows ! (j + n * i) = rows ! i ! j"
  by (induction rows arbitrary: i) (auto simp: nth_append nth_Cons split: nat.split)

definition rc_word :: "bool list \<Rightarrow> u64" where
  "rc_word row =
     foldl (\<lambda>w j. if row ! j then w XOR push_bit (2 ^ j - 1) 1 else w) 0 [0, 1, 2, 3, 4, 5, 6]"

lemma rc_row:
  assumes "r < 24" "j < 7"
  shows "rc (j + 7 * r) = rc_rows ! r ! j"
proof -
  have "concat rc_rows ! (j + 7 * r) = rc_rows ! r ! j"
    using assms by (intro nth_concat_rows) (simp_all add: rc_rows_def)
  then show ?thesis
    using assms by (simp add: rc_def rc_rows_run lfsr_run_nth)
qed

lemma fips_RC_word: "round < 24 \<Longrightarrow> fips_RC round = rc_word (rc_rows ! round)"
  unfolding fips_RC_def rc_word_def by (intro foldl_cong_set) (subst rc_row, auto)

lemma iota_words: "map iota_word [0..<24] = map rc_word rc_rows"
proof -
  have "map iota_word [0..<24] = [0x1, 0x8082, 0x800000000000808a, 0x8000000080008000, 0x808b,
      0x80000001, 0x8000000080008081, 0x8000000000008009, 0x8a, 0x88, 0x80008009, 0x8000000a,
      0x8000808b, 0x800000000000008b, 0x8000000000008089, 0x8000000000008003, 0x8000000000008002,
      0x8000000000000080, 0x800a, 0x800000008000000a, 0x8000000080008081, 0x8000000000008080,
      0x80000001, 0x8000000080008008]"
    unfolding upt_24 by code_simp
  moreover have "map rc_word rc_rows = [0x1, 0x8082, 0x800000000000808a, 0x8000000080008000,
      0x808b, 0x80000001, 0x8000000080008081, 0x8000000000008009, 0x8a, 0x88, 0x80008009,
      0x8000000a, 0x8000808b, 0x800000000000008b, 0x8000000000008089, 0x8000000000008003,
      0x8000000000008002, 0x8000000000000080, 0x800a, 0x800000008000000a, 0x8000000080008081,
      0x8000000000008080, 0x80000001, 0x8000000080008008]"
    by (simp add: rc_rows_def rc_word_def)
  ultimately show ?thesis by (simp only:)
qed

lemma iota_word_fips: "round < 24 \<Longrightarrow> iota_word round = fips_RC round"
proof -
  assume round: "round < 24"
  have "length rc_rows = 24" by (simp add: rc_rows_def)
  then show ?thesis
    using round arg_cong [OF iota_words, of "\<lambda>l. l ! round"]
    by (simp add: fips_RC_word del: upt_rec_numeral)
qed

lemma length_fips_steps [simp, length_simps]:
  "length (fips_theta A) = 25" "length (fips_rho A) = 25" "length (fips_pi A) = 25"
  "length (fips_chi A) = 25" "length (fips_iota A r) = length A"
  by (simp_all add: fips_theta_def fips_rho_def fips_pi_def fips_chi_def fips_iota_def)

lemma sha3_round_fips:
  "length s = 25 \<Longrightarrow> round < 24 \<Longrightarrow>
   sha3_round small s round = fips_iota (fips_chi (fips_pi (fips_rho (fips_theta s)))) round"
  by (simp add: sha3_round_def sha3_theta_fips sha3_rhopi_fips sha3_chi_fips iota_word_fips
      fips_iota_def xor_at_def)

lemma length_keccak_f [simp, length_simps]: "length A = 25 \<Longrightarrow> length (keccak_f A) = 25"
proof -
  have "length A = 25 \<Longrightarrow> length (foldl (\<lambda>A round. fips_iota (fips_chi (fips_pi (fips_rho
      (fips_theta A)))) round) A rs) = 25" for rs
    by (induction rs arbitrary: A) simp_all
  then show "length A = 25 \<Longrightarrow> length (keccak_f A) = 25" by (simp add: keccak_f_def)
qed

lemma sha3_block_fips:
  assumes "length s = 25"
  shows "sha3_process_block72 small s = keccak_f s"
proof -
  let ?f = "\<lambda>A round. fips_iota (fips_chi (fips_pi (fips_rho (fips_theta A)))) round"
  have "foldl (sha3_round small) s rs = foldl ?f s rs" if "\<forall>r\<in>set rs. r < 24" "length s = 25" for rs s
    using that by (induction rs arbitrary: s) (simp_all add: sha3_round_fips)
  then show ?thesis
    using assms by (simp add: sha3_process_block72_def keccak_f_def BB_BIG_ENDIAN_def del: upt_rec_numeral)
qed

text \<open>
  Property C7: both variants of \<open>sha3_process_block72\<close>, the small loop over \<open>PI_LANE\<close> and
  \<open>ROT_CONST\<close> and the unrolled one, compute Keccak-f[1600] of FIPS 202 on every state: the in-place
  Rho and Pi walk is the standard's two mappings with its generated offsets, and the compressed
  Iota table its 24 round constants.
\<close>

theorem sha3_process_block72_keccak:
  "length state = 25 \<Longrightarrow> sha3_process_block72 SHA3_SMALL state = keccak_f state"
  by (rule sha3_block_fips)

theorem sha3_process_block72_keccak_witness:
  "sha3_process_block72 False (replicate 25 1) = keccak_f (replicate 25 1)"
  by (rule sha3_process_block72_keccak) simp

end
