(* ===== verification/Sha3.thy ===== *)
theory Sha3
  imports Keccak Block_Buffer
begin

text \<open>
  \<open>sha3_begin\<close>, \<open>sha3_hash\<close> and \<open>sha3_end\<close> of \<open>libbb/hash_md5_sha.c\<close>. \<open>sha3_hash\<close> comes in two
  versions: with \<open>SHA3_SMALL\<close> it is a \<open>byte_absorber\<close>, otherwise it jumps between three loops and
  absorbs complete blocks one word at a time. Both are shown equal, and the digest to be the
  sponge of FIPS 202.
\<close>

section \<open>The operations\<close>

record sha3_ctx =
  s3_state :: "u64 list"
  bytes_queued :: nat
  input_block_bytes :: nat

definition sha3_begin :: sha3_ctx where
  "sha3_begin = \<lparr>s3_state = replicate 25 0, bytes_queued = 0, input_block_bytes = (1600 - 512 * 2) div 8\<rparr>"

text \<open>
  \<open>buf[bufpos] ^= b\<close> where \<open>buf\<close> is the state seen as bytes, on the little-endian target.
\<close>

definition xor_byte :: "u64 list \<Rightarrow> nat \<Rightarrow> u8 \<Rightarrow> u64 list" where
  "xor_byte state pos b =
     state[pos div 8 := state ! (pos div 8) XOR push_bit (8 * (pos mod 8)) (ucast b)]"

fun xor_bytes :: "u64 list \<Rightarrow> nat \<Rightarrow> bytes \<Rightarrow> u64 list" where
  "xor_bytes state bufpos [] = state"
| "xor_bytes state bufpos (b # data) = xor_bytes (xor_byte state bufpos b) (bufpos + 1) data"

text \<open>
  The loop of \<open>sha3_hash\<close> with \<open>SHA3_SMALL\<close>; the result carries the final \<open>bufpos\<close>, which the code
  recovers by adding \<open>input_block_bytes\<close> back. With \<open>input_block_bytes\<close> zero the code would not
  return; the model stops, and every theorem excludes this case.
\<close>

function sha3_hash_loop :: "sha3_ctx \<Rightarrow> nat \<Rightarrow> bytes \<Rightarrow> sha3_ctx \<times> nat" where
  "sha3_hash_loop ctx bufpos data =
     (let remaining = input_block_bytes ctx - bufpos;
          remaining = (if remaining > length data then length data else remaining);
          ctx = ctx\<lparr>s3_state := xor_bytes (s3_state ctx) bufpos (take remaining data)\<rparr>;
          bufpos = bufpos + remaining
      in if bufpos \<noteq> input_block_bytes ctx \<or> input_block_bytes ctx = 0 then (ctx, bufpos)
         else sha3_hash_loop (ctx\<lparr>s3_state := sha3_process_block72 True (s3_state ctx)\<rparr>) 0
                (drop remaining data))"
  by pat_completeness auto
termination
  by (relation "measure (\<lambda>(ctx, bufpos, data). 2 * length data + (if bufpos = input_block_bytes ctx then 1 else 0))")
     (auto split: if_splits)

declare sha3_hash_loop.simps [simp del]

definition sha3_hash_small :: "sha3_ctx \<Rightarrow> bytes \<Rightarrow> sha3_ctx" where
  "sha3_hash_small ctx data =
     (let (ctx, bufpos) = sha3_hash_loop ctx (bytes_queued ctx) data in ctx\<lparr>bytes_queued := bufpos\<rparr>)"

text \<open>
  Without \<open>SHA3_SMALL\<close>: the first loop continues a queued block and says whether it jumps to
  \<open>do_block\<close>.
\<close>

fun sha3_queue_first :: "nat \<Rightarrow> u64 list \<Rightarrow> nat \<Rightarrow> bytes \<Rightarrow> u64 list \<times> nat \<times> bytes \<times> bool" where
  "sha3_queue_first iblk_bytes state bufpos [] = (state, bufpos, [], False)"
| "sha3_queue_first iblk_bytes state bufpos (b # data) =
     (let state = xor_byte state bufpos b
      in if bufpos + 1 = iblk_bytes then (state, 0, data, True)
         else sha3_queue_first iblk_bytes state (bufpos + 1) data)"

definition xor_words :: "u64 list \<Rightarrow> nat \<Rightarrow> bytes \<Rightarrow> u64 list" where
  "xor_words state count data =
     foldl (\<lambda>state i. state[i := state ! i XOR load64 data i]) state [0..<count]"

function sha3_absorb_blocks :: "nat \<Rightarrow> u64 list \<Rightarrow> bytes \<Rightarrow> u64 list \<times> bytes" where
  "sha3_absorb_blocks iblk_bytes state data =
     (if length data < iblk_bytes \<or> iblk_bytes = 0 then (state, data)
      else sha3_absorb_blocks iblk_bytes
             (sha3_process_block72 False (xor_words state (iblk_bytes div 8) data))
             (drop iblk_bytes data))"
  by pat_completeness auto
termination
  by (relation "measure (\<lambda>(iblk_bytes, state, data). length data)") auto

declare sha3_absorb_blocks.simps [simp del]

definition sha3_hash_fast :: "sha3_ctx \<Rightarrow> bytes \<Rightarrow> sha3_ctx" where
  "sha3_hash_fast ctx data =
     (let bufpos = bytes_queued ctx;
          iblk_bytes = input_block_bytes ctx;
          (state, bufpos, data, do_block) =
            (if bufpos \<noteq> 0 then sha3_queue_first iblk_bytes (s3_state ctx) bufpos data
             else (s3_state ctx, bufpos, data, False));
          state = (if do_block then sha3_process_block72 False state else state);
          (state, data) = sha3_absorb_blocks iblk_bytes state data;
          state = xor_bytes state bufpos data
      in ctx\<lparr>s3_state := state, bytes_queued := bufpos + length data\<rparr>)"

definition sha3_hash :: "bool \<Rightarrow> sha3_ctx \<Rightarrow> bytes \<Rightarrow> sha3_ctx" where
  "sha3_hash SHA3_SMALL ctx data = (if SHA3_SMALL then sha3_hash_small ctx data else sha3_hash_fast ctx data)"

definition state_bytes :: "u64 list \<Rightarrow> bytes" where
  "state_bytes state = concat (map store64 state)"

definition sha3_end :: "bool \<Rightarrow> sha3_ctx \<Rightarrow> sha3_ctx \<times> bytes" where
  "sha3_end SHA3_SMALL ctx =
     (let ctx = ctx\<lparr>s3_state := xor_byte (s3_state ctx) (bytes_queued ctx) 6\<rparr>;
          ctx = ctx\<lparr>s3_state := xor_byte (s3_state ctx) (input_block_bytes ctx - 1) 0x80\<rparr>;
          ctx = ctx\<lparr>s3_state := sha3_process_block72 SHA3_SMALL (s3_state ctx)\<rparr>
      in (ctx, take 64 (state_bytes (s3_state ctx))))"

section \<open>The state as bytes\<close>

definition sbyte :: "u64 list \<Rightarrow> nat \<Rightarrow> u8" where
  "sbyte state k = ucast (drop_bit (8 * (k mod 8)) (state ! (k div 8)))"

lemma bit_sbyte: "j < 8 \<Longrightarrow> bit (sbyte s k) j = bit (s ! (k div 8)) (8 * (k mod 8) + j)"
  by (simp add: sbyte_def bit_simps)

lemma state_eqI:
  assumes "length s = n" "length t = n" and eq: "\<And>k. k < 8 * n \<Longrightarrow> sbyte s k = sbyte t k"
  shows "s = t"
proof (rule nth_equalityI)
  fix i assume i: "i < length s"
  show "s ! i = t ! i"
  proof (rule bit_word_eqI)
    fix m assume m: "m < LENGTH(64)"
    define k where "k = 8 * i + m div 8"
    have k: "k < 8 * n" "k div 8 = i" "k mod 8 = m div 8"
      using i m assms(1) by (auto simp: k_def)
    have mm: "8 * (m div 8) + m mod 8 = m" by simp
    have "bit (s ! i) m = bit (sbyte s k) (m mod 8)"
      by (simp add: bit_sbyte k mm)
    also have "\<dots> = bit (sbyte t k) (m mod 8)" using eq [OF k(1)] by simp
    also have "\<dots> = bit (t ! i) m"
      by (simp add: bit_sbyte k mm)
    finally show "bit (s ! i) m = bit (t ! i) m" .
  qed
qed (use assms in simp)

lemma length_xor_byte [simp, length_simps]: "length (xor_byte s p b) = length s"
  by (simp add: xor_byte_def)

lemma length_xor_bytes [simp, length_simps]: "length (xor_bytes s p d) = length s"
  by (induction s p d rule: xor_bytes.induct) simp_all

lemma length_xor_words [simp, length_simps]: "length (xor_words s n d) = length s"
proof -
  have "length (foldl (\<lambda>s i. s[i := s ! i XOR load64 d i]) s is) = length s" for "is"
    by (induction "is" arbitrary: s) simp_all
  then show ?thesis by (simp add: xor_words_def)
qed

lemma sbyte_xor_byte:
  assumes "p div 8 < length s"
  shows "sbyte (xor_byte s p b) k = (if k = p then sbyte s k XOR b else sbyte s k)"
proof (cases "k div 8 = p div 8")
  case False
  then show ?thesis by (auto simp: sbyte_def xor_byte_def)
next
  case True
  then have s: "xor_byte s p b ! (k div 8) = s ! (k div 8) XOR push_bit (8 * (p mod 8)) (ucast b)"
    using assms by (simp add: xor_byte_def)
  show ?thesis
  proof (cases "k mod 8 = p mod 8")
    case eq: True
    then have "k = p" using True by (metis mult_div_mod_eq)
    then show ?thesis
      unfolding sbyte_def s by (auto simp: bit_simps intro!: bit_word_eqI)
  next
    case ne: False
    have "ucast (drop_bit (8 * (k mod 8)) (push_bit (8 * (p mod 8)) (ucast b :: u64))) = (0 :: u8)"
    proof (rule bit_word_eqI)
      fix m assume "m < LENGTH(8)"
      then have "m + 8 * (k mod 8) < 8 * (p mod 8) \<or> 8 \<le> m + 8 * (k mod 8) - 8 * (p mod 8)"
        using ne by (cases "k mod 8 < p mod 8") auto
      then show "bit (ucast (drop_bit (8 * (k mod 8)) (push_bit (8 * (p mod 8)) (ucast b :: u64))) :: u8) m
          = bit (0 :: u8) m"
        by (auto simp: bit_simps add.commute dest: bit_imp_le_length)
    qed
    then show ?thesis
      using ne unfolding sbyte_def s by (auto simp: unsigned_xor_eq)
  qed
qed

lemma sbyte_xor_bytes:
  "p + length d \<le> 8 * length s \<Longrightarrow>
   sbyte (xor_bytes s p d) k =
     (if p \<le> k \<and> k < p + length d then sbyte s k XOR d ! (k - p) else sbyte s k)"
proof (induction s p d rule: xor_bytes.induct)
  case (2 s p b d)
  have "p div 8 < length s" using "2.prems" by (simp add: less_mult_imp_div_less mult.commute)
  then show ?case
    using 2 by (auto simp: sbyte_xor_byte nth_Cons' Suc_le_eq)
qed auto

lemma sbyte_load64: "sbyte (map (load64 d) [0..<n]) k = d ! k" if "k < 8 * n"
proof -
  define i where "i = k div 8"
  have i: "i < n" using that by (simp add: i_def less_mult_imp_div_less mult.commute)
  have k: "k = 8 * i + k mod 8" by (simp add: i_def)
  have "k mod 8 < 8" by simp
  then consider "k mod 8 = 0" | "k mod 8 = 1" | "k mod 8 = 2" | "k mod 8 = 3" | "k mod 8 = 4"
    | "k mod 8 = 5" | "k mod 8 = 6" | "k mod 8 = 7"
    by linarith
  then show ?thesis
    by cases
      (subst (2) k, simp add: sbyte_def i i_def [symmetric], rule bit_word_eqI,
       auto simp: bit_simps load64_def load32_def le32_def ac_simps)+
qed

section \<open>The small version as a byte absorber\<close>

definition sha3_wf :: "sha3_ctx \<Rightarrow> bool" where
  "sha3_wf ctx \<longleftrightarrow> length (s3_state ctx) = 25 \<and> 0 < input_block_bytes ctx \<and> input_block_bytes ctx \<le> 200"

definition put3 :: "nat \<Rightarrow> u8 \<Rightarrow> sha3_ctx \<Rightarrow> sha3_ctx" where
  "put3 p b ctx = ctx\<lparr>s3_state := xor_byte (s3_state ctx) p b\<rparr>"

definition process3 :: "sha3_ctx \<Rightarrow> sha3_ctx" where
  "process3 ctx = ctx\<lparr>s3_state := sha3_process_block72 True (s3_state ctx)\<rparr>"

lemma put_all_put3: "put_all put3 ctx p d = ctx\<lparr>s3_state := xor_bytes (s3_state ctx) p d\<rparr>"
  by (induction d arbitrary: ctx p) (simp_all add: put3_def)

lemma length_process72 [simp, length_simps]: "length s = 25 \<Longrightarrow> length (sha3_process_block72 small s) = 25"
  by (simp add: sha3_block_fips)

interpretation sp: byte_absorber input_block_bytes put3 process3 sha3_hash_loop sha3_wf
proof
  fix ctx :: sha3_ctx and p :: nat and d :: bytes
  assume wf: "sha3_wf ctx" and p: "p < input_block_bytes ctx"
  define r where "r = min (input_block_bytes ctx - p) (length d)"
  have min: "(if input_block_bytes ctx - p > length d then length d else input_block_bytes ctx - p) = r"
    by (simp add: r_def)
  show "sha3_hash_loop ctx p d =
    (let r = min (input_block_bytes ctx - p) (length d); c1 = put_all put3 ctx p (take r d)
     in if p + r \<noteq> input_block_bytes ctx then (c1, p + r) else sha3_hash_loop (process3 c1) 0 (drop r d))"
    using wf unfolding r_def [symmetric] put_all_put3
    by (subst sha3_hash_loop.simps) (simp add: Let_def min process3_def sha3_wf_def)
qed (auto simp: put3_def process3_def sha3_wf_def)

text \<open>The same machine on the state alone.\<close>

definition feedS :: "nat \<Rightarrow> u64 list \<times> nat \<Rightarrow> u8 \<Rightarrow> u64 list \<times> nat" where
  "feedS N = (\<lambda>(s, p) b. let s = xor_byte s p b
     in if Suc p = N then (sha3_process_block72 True s, 0) else (s, Suc p))"

lemma feed_feedS:
  "sp.feed (ctx, p) b =
     (let sp = feedS (input_block_bytes ctx) (s3_state ctx, p) b
      in (ctx\<lparr>s3_state := fst sp\<rparr>, snd sp))"
  by (simp add: sp.feed_pair feedS_def Let_def put3_def process3_def)

lemma feeds_feedS:
  "foldl sp.feed (ctx, p) d =
     (let sp = foldl (feedS (input_block_bytes ctx)) (s3_state ctx, p) d
      in (ctx\<lparr>s3_state := fst sp\<rparr>, snd sp))"
proof (induction d arbitrary: ctx p)
  case (Cons b d)
  show ?case by (simp add: feed_feedS Cons Let_def)
qed simp

lemma sha3_hash_small_feedS:
  assumes "sha3_wf ctx" "bytes_queued ctx < input_block_bytes ctx"
  shows "sha3_hash_small ctx d =
    (let (s, p) = foldl (feedS (input_block_bytes ctx)) (s3_state ctx, bytes_queued ctx) d
     in ctx\<lparr>s3_state := s, bytes_queued := p\<rparr>)"
  using sp.loop_feed [OF assms, of d]
  by (simp add: sha3_hash_small_def feeds_feedS split_beta Let_def)

section \<open>The fast version\<close>

lemma length_feedS: "length (fst sp) = 25 \<Longrightarrow> length (fst (foldl (feedS N) sp d)) = 25"
  by (induction d arbitrary: sp) (auto simp: feedS_def Let_def split_beta)

lemma feedS_short: "p + length d < N \<Longrightarrow> foldl (feedS N) (s, p) d = (xor_bytes s p d, p + length d)"
  by (induction d arbitrary: s p) (auto simp: feedS_def)

lemma feedS_block:
  "d \<noteq> [] \<Longrightarrow> p + length d = N \<Longrightarrow>
   foldl (feedS N) (s, p) d = (sha3_process_block72 True (xor_bytes s p d), 0)"
proof (induction d arbitrary: s p)
  case (Cons b d)
  then show ?case by (cases "d = []") (auto simp: feedS_def)
qed simp

text \<open>XORing whole words is XORing their bytes.\<close>

lemma xor_words_nth:
  "i < length s \<Longrightarrow> n \<le> length s \<Longrightarrow>
   xor_words s n d ! i = (if i < n then s ! i XOR load64 d i else s ! i)"
  unfolding xor_words_def
proof (induction n)
  case (Suc n)
  then show ?case
    using length_xor_words [of s n d] by (auto simp: xor_words_def nth_list_update less_Suc_eq)
qed simp

lemma xor_words_bytes:
  assumes "n \<le> length s" "8 * n \<le> length d"
  shows "xor_words s n d = xor_bytes s 0 (take (8 * n) d)"
proof (rule state_eqI [of _ "length s"])
  fix k assume k: "k < 8 * length s"
  have kd: "k div 8 < length s" using k by (simp add: less_mult_imp_div_less mult.commute)
  have "sbyte (xor_words s n d) k =
      (if k div 8 < n then sbyte s k XOR sbyte (map (load64 d) [0..<n]) k else sbyte s k)"
    using kd assms(1) by (auto simp: sbyte_def xor_words_nth unsigned_xor_eq)
  then show "sbyte (xor_words s n d) k = sbyte (xor_bytes s 0 (take (8 * n) d)) k"
    using assms sbyte_load64 [of k n d]
    by (auto simp: sbyte_xor_bytes less_mult_imp_div_less mult.commute div_less_iff_less_mult)
qed simp_all

lemma sha3_queue_first_feedS:
  assumes "p < N" "sha3_queue_first N s p d = (s', p', rest, jump)"
  shows "foldl (feedS N) (s, p) d =
      foldl (feedS N) (if jump then sha3_process_block72 True s' else s', p') rest"
    and "length s' = length s" and "if jump then p' = 0 else rest = [] \<and> p' < N"
  using assms
  by (induction N s p d rule: sha3_queue_first.induct) (auto simp: feedS_def Let_def split: if_splits)

lemma sha3_absorb_blocks_feedS:
  assumes "length s = 25" "8 dvd N" "0 < N" "N \<le> 200" "sha3_absorb_blocks N s d = (s', rest)"
  shows "foldl (feedS N) (s, 0) d = foldl (feedS N) (s', 0) rest" "length s' = 25" "length rest < N"
proof -
  have "foldl (feedS N) (s, 0) d = foldl (feedS N) (s', 0) rest \<and> length s' = 25 \<and> length rest < N"
    using assms
  proof (induction N s d rule: sha3_absorb_blocks.induct)
    case (1 N s d)
    show ?case
    proof (cases "length d < N")
      case True
      then show ?thesis
        using "1.prems" by (subst (asm) sha3_absorb_blocks.simps) simp
    next
      case False
      have n: "8 * (N div 8) = N" using "1.prems" by simp
      have ne: "take N d \<noteq> []" "length (take N d) = N" using "1.prems" False by auto
      have w: "xor_words s (N div 8) d = xor_bytes s 0 (take N d)"
        using xor_words_bytes [of "N div 8" s d] "1.prems" False n by auto
      have "foldl (feedS N) (s, 0) (take N d @ drop N d) =
          foldl (feedS N) (sha3_process_block72 False (xor_words s (N div 8) d), 0) (drop N d)"
        using "1.prems"(1) feedS_block [OF ne(1), of 0 N s] ne(2)
        by (simp add: w sha3_block_fips del: append_take_drop_id)
      moreover have "sha3_absorb_blocks N (sha3_process_block72 False (xor_words s (N div 8) d))
          (drop N d) = (s', rest)"
        using "1.prems" False by (subst (asm) sha3_absorb_blocks.simps) simp
      ultimately show ?thesis
        using "1.IH" "1.prems" False by simp
    qed
  qed
  then show "foldl (feedS N) (s, 0) d = foldl (feedS N) (s', 0) rest" "length s' = 25" "length rest < N"
    by simp_all
qed

lemma sha3_hash_fast_small:
  assumes wf: "sha3_wf ctx" and N: "8 dvd input_block_bytes ctx"
    and q: "bytes_queued ctx < input_block_bytes ctx"
  shows "sha3_hash_fast ctx d = sha3_hash_small ctx d"
proof -
  define N where "N = input_block_bytes ctx"
  define s where "s = s3_state ctx"
  define p where "p = bytes_queued ctx"
  have w: "length s = 25" "8 dvd N" "0 < N" "N \<le> 200" "p < N"
    using assms by (simp_all add: sha3_wf_def s_def N_def p_def)
  obtain s1 p1 d1 j where first: "(if p \<noteq> 0 then sha3_queue_first N s p d else (s, p, d, False)) = (s1, p1, d1, j)"
    by (metis prod_cases4)
  define s2 where "s2 = (if j then sha3_process_block72 False s1 else s1)"
  have f1: "foldl (feedS N) (s, p) d = foldl (feedS N) (s2, p1) d1" and s2: "length s2 = 25"
    and p1: "p1 = 0 \<or> d1 = [] \<and> p1 < N"
    using first w sha3_queue_first_feedS [of p N s d s1 p1 d1 j]
    by (auto simp: s2_def sha3_block_fips split: if_splits)
  obtain s3 d3 where blocks: "sha3_absorb_blocks N s2 d1 = (s3, d3)" by force
  have f2: "foldl (feedS N) (s2, p1) d1 = foldl (feedS N) (s3, p1) d3 \<and> p1 + length d3 < N"
  proof (cases "p1 = 0")
    case True
    then show ?thesis using sha3_absorb_blocks_feedS [OF s2 w(2,3,4) blocks] by simp
  next
    case False
    then have "d1 = []" "p1 < N" using p1 by auto
    then show ?thesis using blocks w by (subst (asm) sha3_absorb_blocks.simps) simp
  qed
  then have "foldl (feedS N) (s, p) d = (xor_bytes s3 p1 d3, p1 + length d3)"
    by (simp add: f1 feedS_short)
  then have "sha3_hash_small ctx d = ctx\<lparr>s3_state := xor_bytes s3 p1 d3, bytes_queued := p1 + length d3\<rparr>"
    using sha3_hash_small_feedS [OF wf q, of d] by (simp add: N_def s_def p_def)
  moreover have "sha3_hash_fast ctx d = ctx\<lparr>s3_state := xor_bytes s3 p1 d3, bytes_queued := p1 + length d3\<rparr>"
    unfolding sha3_hash_fast_def Let_def N_def [symmetric] s_def [symmetric] p_def [symmetric] first
    by (simp add: blocks flip: s2_def)
  ultimately show ?thesis by simp
qed

section \<open>The sponge\<close>

text \<open>
  The sponge of FIPS 202 with rate \<open>r\<close> bytes on the zero state, the domain bits 01 and the
  padding 10*1 of SHA-3 as bytes, and its first 64 bytes of output, of which the shorter digests
  are prefixes.
\<close>

definition sha3_padding :: "nat \<Rightarrow> bytes" where
  "sha3_padding q = (if q = 1 then [0x86] else 0x06 # replicate (q - 2) 0 @ [0x80])"

definition absorb_block :: "nat \<Rightarrow> u64 list \<Rightarrow> bytes \<Rightarrow> u64 list" where
  "absorb_block r S b =
     keccak_f (map2 (XOR) S (map (load64 (b @ replicate (200 - r) 0)) [0..<25]))"

definition fips202_sha3 :: "nat \<Rightarrow> bytes \<Rightarrow> bytes" where
  "fips202_sha3 r msg =
     take 64 (state_bytes (foldl (absorb_block r) (replicate 25 0)
       (chunks r (msg @ sha3_padding (r - length msg mod r)))))"

lemma sbyte_map2_xor:
  "k div 8 < length s \<Longrightarrow> length t = length s \<Longrightarrow>
   sbyte (map2 (XOR) s t) k = sbyte s k XOR sbyte t k"
  by (simp add: sbyte_def unsigned_xor_eq)

lemma absorb_block_bytes:
  assumes "length s = 25" "length b = r" "r \<le> 200"
  shows "sha3_process_block72 small (xor_bytes s 0 b) = absorb_block r s b"
proof -
  define t where "t = map (load64 (b @ replicate (200 - r) 0)) [0..<25]"
  have t: "length t = 25" by (simp add: t_def del: upt_rec_numeral)
  have "xor_bytes s 0 b = map2 (XOR) s t"
  proof (rule state_eqI [of _ 25])
    fix k :: nat assume k: "k < 8 * 25"
    have kd: "k div 8 < 25" using k by (simp add: less_mult_imp_div_less)
    have "sbyte t k = (b @ replicate (200 - r) 0) ! k"
      unfolding t_def using k by (rule sbyte_load64)
    then show "sbyte (xor_bytes s 0 b) k = sbyte (map2 (XOR) s t) k"
      using assms kd k t by (auto simp: sbyte_map2_xor sbyte_xor_bytes nth_append)
  qed (use assms t in simp_all)
  then show ?thesis
    using assms by (simp add: absorb_block_def sha3_block_fips t_def)
qed

lemma length_absorb_block [simp, length_simps]: "length s = 25 \<Longrightarrow> length (absorb_block r s b) = 25"
  by (simp add: absorb_block_def)

text \<open>After a message the machine holds the absorbed blocks and the pending bytes XORed in.\<close>

lemma feedS_chunks:
  assumes "length s = 25" "0 < N" "N \<le> 200"
  shows "foldl (feedS N) (s, 0) d =
    (xor_bytes (foldl (absorb_block N) s (chunks N d)) 0 (leftover N d), length d mod N)"
  using assms(1)
proof (induction d arbitrary: s rule: block_induct [OF assms(2)])
  case (2 b d)
  have "b \<noteq> []" using 2 assms(2) by auto
  then have "foldl (feedS N) (s, 0) b = (absorb_block N s b, 0)"
    using feedS_block [of b 0 N s] absorb_block_bytes [of s b N True] 2 assms by simp
  then show ?case using 2 assms by simp
qed (simp add: feedS_short)

lemma xor_bytes_append: "xor_bytes s p (a @ b) = xor_bytes (xor_bytes s p a) (p + length a) b"
  by (induction s p a rule: xor_bytes.induct) simp_all

lemma xor_bytes_zeros: "p + n \<le> 8 * length s \<Longrightarrow> xor_bytes s p (replicate n 0) = s"
  by (rule state_eqI) (auto simp: sbyte_xor_bytes)

lemma end_padding:
  assumes "length s = 25" "q < r" "r \<le> 200"
  shows "xor_byte (xor_byte s q 6) (r - 1) 0x80 = xor_bytes s q (sha3_padding (r - q))"
proof (cases "r - q = 1")
  case True
  then have "r - 1 = q" by simp
  then have "xor_byte (xor_byte s q 6) (r - 1) 0x80 = xor_byte s q 0x86"
    using assms by (intro state_eqI [of _ 25]) (auto simp: sbyte_xor_byte less_mult_imp_div_less xor.assoc)
  then show ?thesis using True by (simp add: sha3_padding_def)
next
  case False
  then have "Suc (q + (r - q - 2)) = r - 1" using assms by simp
  then show ?thesis
    using False assms by (simp add: sha3_padding_def xor_bytes_append xor_bytes_zeros)
qed

text \<open>\<open>sponge_state r msg\<close>: the context holds what it must after the bytes \<open>msg\<close>.\<close>

definition sponge_state :: "sha3_ctx \<Rightarrow> nat \<Rightarrow> bytes \<Rightarrow> bool" where
  "sponge_state ctx r msg \<longleftrightarrow> input_block_bytes ctx = r \<and>
     (s3_state ctx, bytes_queued ctx) = foldl (feedS r) (replicate 25 0, 0) msg"

lemma sha3_hash_variants:
  assumes "sha3_wf ctx" "8 dvd input_block_bytes ctx" "bytes_queued ctx < input_block_bytes ctx"
  shows "sha3_hash small ctx d = sha3_hash_small ctx d"
  using sha3_hash_fast_small [OF assms, of d] by (cases small) (simp_all add: sha3_hash_def)

lemma sponge_state_wf:
  assumes "sponge_state ctx r msg" "0 < r" "r \<le> 200"
  shows "sha3_wf ctx" "bytes_queued ctx < r" "input_block_bytes ctx = r"
  using assms length_feedS [of "(replicate 25 0, 0)" r msg]
  by (auto simp: sponge_state_def sha3_wf_def feedS_chunks)

lemma sponge_state_hash:
  assumes "sponge_state ctx r msg" "0 < r" "r \<le> 200" "8 dvd r"
  shows "sponge_state (sha3_hash small ctx d) r (msg @ d)"
proof -
  note w = sponge_state_wf [OF assms(1-3)]
  have "sha3_hash small ctx d = sha3_hash_small ctx d"
    by (rule sha3_hash_variants) (use w assms in simp_all)
  then show ?thesis
    using sha3_hash_small_feedS [of ctx d] w assms(1)
    by (simp add: sponge_state_def split_beta Let_def)
qed

lemma sponge_state_pieces:
  "sponge_state ctx r msg \<Longrightarrow> 0 < r \<Longrightarrow> r \<le> 200 \<Longrightarrow> 8 dvd r \<Longrightarrow>
   sponge_state (foldl (sha3_hash small) ctx ps) r (msg @ concat ps)"
proof (induction ps arbitrary: ctx msg)
  case (Cons p ps)
  from Cons.IH [OF sponge_state_hash [OF Cons.prems, of small p] Cons.prems(2-)] show ?case by simp
qed simp

lemma sha3_end_sponge:
  assumes "sponge_state ctx r msg" "0 < r" "r \<le> 200"
  shows "snd (sha3_end small ctx) = fips202_sha3 r msg"
proof -
  define q where "q = length msg mod r"
  define S where "S = foldl (absorb_block r) (replicate 25 0) (chunks r msg)"
  have q: "q < r" using assms(2) by (simp add: q_def)
  have S: "length S = 25"
    unfolding S_def by (rule length_foldl) simp_all
  have ctx: "s3_state ctx = xor_bytes S 0 (leftover r msg)" "bytes_queued ctx = q"
    "input_block_bytes ctx = r"
    using assms by (simp_all add: sponge_state_def feedS_chunks S_def q_def)
  have len: "length (leftover r msg @ sha3_padding (r - q)) = r"
    using q by (auto simp: sha3_padding_def q_def)
  have "xor_byte (xor_byte (s3_state ctx) q 6) (r - 1) 0x80 =
      xor_bytes S 0 (leftover r msg @ sha3_padding (r - q))"
    using end_padding [of "s3_state ctx" q r] S q assms by (simp add: ctx xor_bytes_append q_def)
  then have "snd (sha3_end small ctx) =
      take 64 (state_bytes (absorb_block r S (leftover r msg @ sha3_padding (r - q))))"
    using absorb_block_bytes [OF S len, of small] assms by (simp add: sha3_end_def Let_def ctx)
  then show ?thesis
    using chunks_append [OF assms(2), of msg "sha3_padding (r - q)"] len assms(2)
    by (simp add: fips202_sha3_def S_def q_def)
qed

text \<open>
  Property C6: the two versions of \<open>sha3_hash\<close> are the same function on every context whose block
  size is a multiple of eight up to 200 and whose queue is not full: the version that finishes the
  queued block, then absorbs whole blocks word by word, then queues the rest, ends in the same
  state and with the same number of queued bytes as the bytewise one.
\<close>

theorem sha3_hash_versions_agree:
  assumes "sha3_wf ctx" "8 dvd input_block_bytes ctx" "bytes_queued ctx < input_block_bytes ctx"
  shows "sha3_hash False ctx data = sha3_hash True ctx data"
  using sha3_hash_fast_small [OF assms] by (simp add: sha3_hash_def)

text \<open>
  Property C5: SHA-3 is computed correctly by both versions, for every block size the caller may
  set and however the message is cut into calls: the 64 bytes \<open>sha3_end\<close> writes are the output of
  the FIPS 202 sponge on the whole message.
\<close>

theorem sha3_digest:
  assumes "0 < r" "r \<le> 200" "8 dvd r"
  shows "snd (sha3_end SHA3_SMALL (foldl (sha3_hash SHA3_SMALL)
      (sha3_begin\<lparr>input_block_bytes := r\<rparr>) pieces)) = fips202_sha3 r (concat pieces)"
proof -
  have "sponge_state (sha3_begin\<lparr>input_block_bytes := r\<rparr>) r []"
    by (simp add: sponge_state_def sha3_begin_def)
  from sha3_end_sponge [OF sponge_state_pieces [OF this assms] assms(1,2)] show ?thesis by simp
qed

theorem sha3_hash_versions_agree_witness:
  "sha3_hash False (sha3_begin\<lparr>bytes_queued := 70\<rparr>) [1, 2, 3] =
   sha3_hash True (sha3_begin\<lparr>bytes_queued := 70\<rparr>) [1, 2, 3]"
  by (rule sha3_hash_versions_agree) (simp_all add: sha3_wf_def sha3_begin_def)

theorem sha3_digest_witness:
  "snd (sha3_end False (foldl (sha3_hash False) (sha3_begin\<lparr>input_block_bytes := 136\<rparr>)
      [[0x61], [0x62, 0x63]])) = fips202_sha3 136 [0x61, 0x62, 0x63]"
  using sha3_digest [of 136 False "[[0x61], [0x62, 0x63]]"] by simp

end
