(* ===== verification/Tls_Hmac.thy ===== *)
theory Tls_Hmac
  imports Hash64
begin

text \<open>
  The keyed hash of \<open>networking/tls.c\<close>: \<open>hmac_begin\<close>, \<open>hmac_sha_precomputed_v\<close>,
  \<open>hmac_sha_precomputed\<close>, \<open>hmac\<close> and the pseudorandom function \<open>prf_hmac_sha256\<close>,
  on top of the streaming contexts of theory \<open>Hash64\<close>. They are HMAC of RFC 2104 and the
  PRF of RFC 5246. \<open>None\<close> is the call of \<open>bb_simple_error_msg_and_die\<close>.
\<close>

section \<open>The operations\<close>

definition SHA_INSIZE :: nat where "SHA_INSIZE = 64"
definition SHA1_OUTSIZE :: nat where "SHA1_OUTSIZE = 20"
definition SHA256_OUTSIZE :: nat where "SHA256_OUTSIZE = 32"

record hmac_precomputed =
  hashed_key_xor_ipad :: md5_ctx
  hashed_key_xor_opad :: md5_ctx

text \<open>
  The two key blocks are filled by two loops over the same index; \<open>ki\<close> and \<open>ko\<close> are the
  arrays on the stack. The function pointer \<open>begin\<close> is an argument, here \<open>start\<close>.
\<close>

definition hmac_key_blocks :: "bytes \<Rightarrow> bytes \<times> bytes \<Rightarrow> bytes \<times> bytes" where
  "hmac_key_blocks key blocks =
     (let blocks = foldl (\<lambda>(ki, ko) i. (ki[i := key ! i XOR 0x36], ko[i := key ! i XOR 0x5c]))
            blocks [0..<length key]
      in foldl (\<lambda>(ki, ko) i. (ki[i := 0x36], ko[i := 0x5c])) blocks [length key..<SHA_INSIZE])"

definition hmac_begin ::
  "bytes \<times> bytes \<Rightarrow> hmac_precomputed \<Rightarrow> bytes \<Rightarrow> (md5_ctx \<Rightarrow> md5_ctx) \<Rightarrow> hmac_precomputed option" where
  "hmac_begin stack pre key start =
     (if length key > SHA_INSIZE then None
      else let (key_xor_ipad, key_xor_opad) = hmac_key_blocks key stack;
               pre = pre\<lparr>hashed_key_xor_ipad := start (hashed_key_xor_ipad pre)\<rparr>;
               pre = pre\<lparr>hashed_key_xor_opad := start (hashed_key_xor_opad pre)\<rparr>;
               pre = pre\<lparr>hashed_key_xor_ipad := md5_hash (hashed_key_xor_ipad pre) key_xor_ipad\<rparr>;
               pre = pre\<lparr>hashed_key_xor_opad := md5_hash (hashed_key_xor_opad pre) key_xor_opad\<rparr>
           in Some pre)"

text \<open>
  The variable argument list is the list of the texts up to the terminating \<open>NULL\<close>. The result
  is the changed structure and what is written to \<open>out\<close>.
\<close>

definition hmac_sha_precomputed_v ::
  "hmac_precomputed \<Rightarrow> bytes list \<Rightarrow> hmac_precomputed \<times> bytes" where
  "hmac_sha_precomputed_v pre va =
     (let pre = pre\<lparr>hashed_key_xor_ipad := foldl md5_hash (hashed_key_xor_ipad pre) va\<rparr>;
          (ctx, out) = sha1_end (hashed_key_xor_ipad pre);
          pre = pre\<lparr>hashed_key_xor_ipad := ctx\<rparr>;
          pre = pre\<lparr>hashed_key_xor_opad := md5_hash (hashed_key_xor_opad pre) out\<rparr>;
          (ctx, out) = sha1_end (hashed_key_xor_opad pre)
      in (pre\<lparr>hashed_key_xor_opad := ctx\<rparr>, out))"

definition hmac_sha_precomputed :: "hmac_precomputed \<Rightarrow> bytes list \<Rightarrow> bytes" where
  "hmac_sha_precomputed pre_init va = snd (hmac_sha_precomputed_v pre_init va)"

definition hmac ::
  "bool \<Rightarrow> nat \<Rightarrow> bytes \<times> bytes \<Rightarrow> hmac_precomputed \<Rightarrow> bytes \<Rightarrow> bytes list \<Rightarrow> bytes option" where
  "hmac ENABLE_FEATURE_TLS_SHA1 MAC_size stack pre key va =
     (case hmac_begin stack pre key
             (if ENABLE_FEATURE_TLS_SHA1 \<and> MAC_size = SHA1_OUTSIZE then sha1_begin else sha256_begin) of
        None \<Rightarrow> None
      | Some pre \<Rightarrow> Some (snd (hmac_sha_precomputed_v pre va)))"

function prf_loop :: "hmac_precomputed \<Rightarrow> bytes \<Rightarrow> nat \<Rightarrow> bytes list \<Rightarrow> bytes" where
  "prf_loop pre a outbuf_size SEED =
     (if outbuf_size \<le> SHA256_OUTSIZE
      then take outbuf_size (hmac_sha_precomputed pre (a # SEED))
      else let out = hmac_sha_precomputed pre (a # SEED);
               a = hmac_sha_precomputed pre [a]
           in out @ prf_loop pre a (outbuf_size - SHA256_OUTSIZE) SEED)"
  by pat_completeness auto
termination
  by (relation "measure (\<lambda>(pre, a, outbuf_size, SEED). outbuf_size)") (auto simp: SHA256_OUTSIZE_def)

declare prf_loop.simps [simp del]

definition prf_hmac_sha256 ::
  "bytes \<times> bytes \<Rightarrow> hmac_precomputed \<Rightarrow> nat \<Rightarrow> bytes \<Rightarrow> bytes \<Rightarrow> bytes \<Rightarrow> bytes option" where
  "prf_hmac_sha256 stack pre outbuf_size secret label seed =
     (case hmac_begin stack pre secret sha256_begin of
        None \<Rightarrow> None
      | Some pre \<Rightarrow>
          let a = hmac_sha_precomputed pre [label, seed]
          in Some (prf_loop pre a outbuf_size [label, seed]))"

section \<open>RFC 2104 and RFC 5246\<close>

text \<open>\<open>H\<close> has blocks of 64 bytes; keys longer than a block do not occur.\<close>

definition rfc2104_hmac :: "(bytes \<Rightarrow> bytes) \<Rightarrow> bytes \<Rightarrow> bytes \<Rightarrow> bytes" where
  "rfc2104_hmac H key text =
     (let K = key @ replicate (64 - length key) 0
      in H (map (\<lambda>b. b XOR 0x5c) K @ H (map (\<lambda>b. b XOR 0x36) K @ text)))"

fun rfc5246_A :: "(bytes \<Rightarrow> bytes \<Rightarrow> bytes) \<Rightarrow> bytes \<Rightarrow> bytes \<Rightarrow> nat \<Rightarrow> bytes" where
  "rfc5246_A HMAC secret seed 0 = seed"
| "rfc5246_A HMAC secret seed (Suc i) = HMAC secret (rfc5246_A HMAC secret seed i)"

text \<open>
  The first \<open>n\<close> bytes of the infinite \<open>P_hash\<close>; with \<open>HMAC\<close> values of \<open>m\<close> bytes,
  \<open>n div m + 1\<close> of them are enough.
\<close>

definition rfc5246_P_hash :: "nat \<Rightarrow> (bytes \<Rightarrow> bytes \<Rightarrow> bytes) \<Rightarrow> bytes \<Rightarrow> bytes \<Rightarrow> nat \<Rightarrow> bytes" where
  "rfc5246_P_hash m HMAC secret seed n =
     take n (concat (map (\<lambda>i. HMAC secret (rfc5246_A HMAC secret seed (Suc i) @ seed))
       [0..<n div m + 1]))"

definition hmac_sha256 :: "bytes \<Rightarrow> bytes \<Rightarrow> bytes" where
  "hmac_sha256 = rfc2104_hmac fips180_sha256"

section \<open>Correctness\<close>

lemma fill_upto:
  fixes a b :: "'a list"
  assumes "m \<le> n" "n \<le> length a" "length b = length a"
  shows "foldl (\<lambda>(a, b) i. (a[i := f i], b[i := g i])) (a, b) [m..<n] =
    (take m a @ map f [m..<n] @ drop n a, take m b @ map g [m..<n] @ drop n b)"
  using assms
proof (induction n)
  case (Suc n)
  show ?case
  proof (cases "m = Suc n")
    case False
    then have m: "m \<le> n" using Suc.prems(1) by simp
    have "(take m c @ map h [m..<n] @ drop n c)[n := h n] = take m c @ map h [m..<Suc n] @ drop (Suc n) c"
      if "n < length c" for c :: "'a list" and h
      using that m by (simp add: list_update_append flip: Cons_nth_drop_Suc)
    then show ?thesis using Suc m by simp
  qed simp
qed simp

lemma hmac_key_blocks_pad:
  assumes "length key \<le> 64" "length (fst stack) = 64" "length (snd stack) = 64"
  shows "hmac_key_blocks key stack =
    (map (\<lambda>b. b XOR 0x36) (key @ replicate (64 - length key) 0),
     map (\<lambda>b. b XOR 0x5c) (key @ replicate (64 - length key) 0))"
proof -
  obtain a b where s: "stack = (a, b)" "length a = 64" "length b = 64" using assms(2,3) by (cases stack) auto
  have m: "map (\<lambda>i. key ! i XOR c) [0..<length key] = map (\<lambda>b. b XOR c) key" for c
    by (rule nth_equalityI) simp_all
  have r: "map (\<lambda>i. c) [length key..<64] = replicate (64 - length key) c" for c :: u8
    by (simp add: map_replicate_const)
  show ?thesis
    unfolding hmac_key_blocks_def SHA_INSIZE_def s(1) Let_def
    using assms(1) s(2,3) by (simp add: fill_upto m r)
qed

lemma hmac_begin_some:
  assumes "length key \<le> 64" "length (fst stack) = 64" "length (snd stack) = 64"
  shows "hmac_begin stack pre key start = Some
    \<lparr>hashed_key_xor_ipad = md5_hash (start (hashed_key_xor_ipad pre))
        (map (\<lambda>b. b XOR 0x36) (key @ replicate (64 - length key) 0)),
     hashed_key_xor_opad = md5_hash (start (hashed_key_xor_opad pre))
        (map (\<lambda>b. b XOR 0x5c) (key @ replicate (64 - length key) 0))\<rparr>"
  using assms by (simp add: hmac_begin_def SHA_INSIZE_def hmac_key_blocks_pad Let_def)

text \<open>What a hash function offers to HMAC: started contexts whose digest is \<open>H\<close>.\<close>

locale hmac_hash =
  fixes start :: "md5_ctx \<Rightarrow> md5_ctx" and H :: "bytes \<Rightarrow> bytes"
  assumes digest: "ctx_wf ctx \<Longrightarrow> snd (sha1_end (foldl md5_hash (start ctx) ps)) = H (concat ps)"
begin

definition precomputed :: "bytes \<Rightarrow> hmac_precomputed \<Rightarrow> bool" where
  "precomputed key pre \<longleftrightarrow> (\<exists>stack pre0. length key \<le> 64 \<and> length (fst stack) = 64
     \<and> length (snd stack) = 64 \<and> ctx_wf (hashed_key_xor_ipad pre0)
     \<and> ctx_wf (hashed_key_xor_opad pre0) \<and> hmac_begin stack pre0 key start = Some pre)"

lemma precomputed_hmac:
  assumes "precomputed key pre"
  shows "snd (hmac_sha_precomputed_v pre va) = rfc2104_hmac H key (concat va)"
proof -
  obtain stack pre0 where s: "length key \<le> 64" "length (fst stack) = 64" "length (snd stack) = 64"
    "ctx_wf (hashed_key_xor_ipad pre0)" "ctx_wf (hashed_key_xor_opad pre0)"
    "hmac_begin stack pre0 key start = Some pre"
    using assms unfolding precomputed_def by blast
  let ?K = "key @ replicate (64 - length key) 0"
  let ?ki = "map (\<lambda>b. b XOR 0x36) ?K" and ?ko = "map (\<lambda>b. b XOR 0x5c) ?K"
  have pre: "pre = \<lparr>hashed_key_xor_ipad = md5_hash (start (hashed_key_xor_ipad pre0)) ?ki,
      hashed_key_xor_opad = md5_hash (start (hashed_key_xor_opad pre0)) ?ko\<rparr>"
    using s(6) unfolding hmac_begin_some [OF s(1-3)] by simp
  have i: "snd (sha1_end (foldl md5_hash (hashed_key_xor_ipad pre) va)) = H (?ki @ concat va)"
    using digest [OF s(4), of "?ki # va"] by (simp add: pre)
  have o: "snd (sha1_end (md5_hash (hashed_key_xor_opad pre) w)) = H (?ko @ w)" for w
    using digest [OF s(5), of "[?ko, w]"] by (simp add: pre)
  show ?thesis
    unfolding rfc2104_hmac_def Let_def i [symmetric] o [symmetric]
    by (simp add: hmac_sha_precomputed_v_def Let_def split_beta)
qed

lemma begin_precomputed:
  assumes "length key \<le> 64" "length (fst stack) = 64" "length (snd stack) = 64"
    and "ctx_wf (hashed_key_xor_ipad pre)" "ctx_wf (hashed_key_xor_opad pre)"
  obtains p where "hmac_begin stack pre key start = Some p" "precomputed key p"
  using hmac_begin_some [OF assms(1-3), of pre start] assms unfolding precomputed_def by blast

end

interpretation hmac_sha1: hmac_hash sha1_begin fips180_sha1
  by unfold_locales (rule sha1_end_pieces)

interpretation hmac_sha256: hmac_hash sha256_begin fips180_sha256
  by unfold_locales (rule sha256_end_pieces)

lemma hmac_value:
  assumes "length key \<le> 64" "length (fst stack) = 64" "length (snd stack) = 64"
    and "ctx_wf (hashed_key_xor_ipad pre)" "ctx_wf (hashed_key_xor_opad pre)"
  shows "hmac tls_sha1 MAC_size stack pre key texts =
    Some (rfc2104_hmac (if tls_sha1 \<and> MAC_size = 20 then fips180_sha1 else fips180_sha256)
      key (concat texts))"
proof (cases "tls_sha1 \<and> MAC_size = 20")
  case True
  obtain p where "hmac_begin stack pre key sha1_begin = Some p" "hmac_sha1.precomputed key p"
    using hmac_sha1.begin_precomputed [OF assms] .
  then show ?thesis using True hmac_sha1.precomputed_hmac by (simp add: hmac_def SHA1_OUTSIZE_def)
next
  case False
  obtain p where "hmac_begin stack pre key sha256_begin = Some p" "hmac_sha256.precomputed key p"
    using hmac_sha256.begin_precomputed [OF assms] .
  then show ?thesis
    using False hmac_sha256.precomputed_hmac by (auto simp: hmac_def SHA1_OUTSIZE_def)
qed

text \<open>
  Property C18. For keys of up to 64 bytes \<open>hmac\<close> is the HMAC of RFC 2104 with SHA-1 or with
  SHA-256, as the connection's MAC size says, of the concatenation of the texts it is given.
\<close>

theorem hmac_rfc2104:
  assumes "length key \<le> 64" "length (fst stack) = 64" "length (snd stack) = 64"
    and "ctx_wf (hashed_key_xor_ipad pre)" "ctx_wf (hashed_key_xor_opad pre)"
  shows "hmac tls_sha1 MAC_size stack pre key texts =
    Some (rfc2104_hmac (if tls_sha1 \<and> MAC_size = 20 then fips180_sha1 else fips180_sha256)
      key (concat texts))"
  using assms by (rule hmac_value)

definition pre0 :: hmac_precomputed where
  "pre0 = \<lparr>hashed_key_xor_ipad = ctx0, hashed_key_xor_opad = ctx0\<rparr>"

lemma hmac_rfc2104_witness:
  "hmac True 20 (replicate 64 0xAA, replicate 64 0xBB) pre0 [1, 2, 3] [[4], [], [5, 6]] =
     Some (rfc2104_hmac fips180_sha1 [1, 2, 3] [4, 5, 6])"
  using hmac_rfc2104 [of "[1, 2, 3]" "(replicate 64 0xAA, replicate 64 0xBB)" pre0 True 20
      "[[4], [], [5, 6]]"]
  by (simp add: pre0_def ctx_wf_def ctx0_def)

lemma length_sha256 [simp]: "length (fips180_sha256 msg) = 32"
proof -
  have "length (foldl fips_sha256_compress (drop 2 init256) bs) = 8" for bs
    by (intro length_foldl) (simp_all add: init256_def)
  moreover have "length (concat (map store_be32 ws)) = 4 * length ws" for ws
    by (induction ws) (simp_all add: store_be32_def)
  ultimately show ?thesis by (simp add: fips180_sha256_def del: length_concat)
qed

lemma length_hmac_sha256 [simp]: "length (hmac_sha256 key text) = 32"
  by (simp add: hmac_sha256_def rfc2104_hmac_def Let_def)

lemma prf_loop_P_hash:
  fixes SEED :: "bytes list"
  assumes "hmac_sha256.precomputed secret p"
  defines "A \<equiv> rfc5246_A hmac_sha256 secret (concat SEED)"
  shows "prf_loop p (A (Suc k)) n SEED =
    take n (concat (map (\<lambda>i. hmac_sha256 secret (A (Suc i) @ concat SEED)) [k..<k + n div 32 + 1]))"
proof (induction n arbitrary: k rule: less_induct)
  case (less n)
  have h: "hmac_sha_precomputed p va = hmac_sha256 secret (concat va)" for va
    using hmac_sha256.precomputed_hmac [OF assms(1)] by (simp add: hmac_sha_precomputed_def hmac_sha256_def)
  let ?f = "\<lambda>i. hmac_sha256 secret (A (Suc i) @ concat SEED)"
  have k: "map ?f [k..<k + n div 32 + 1] = ?f k # map ?f [Suc k..<k + n div 32 + 1]"
    by (simp add: upt_conv_Cons del: upt_Suc)
  show ?case
  proof (cases "n \<le> 32")
    case True
    then show ?thesis unfolding k by (subst prf_loop.simps) (simp add: SHA256_OUTSIZE_def h del: upt_Suc)
  next
    case False
    have "hmac_sha_precomputed p [A (Suc k)] = A (Suc (Suc k))" unfolding h by (simp add: A_def)
    moreover have "k + n div 32 + 1 = Suc k + (n - 32) div 32 + 1" using False by (simp add: le_div_geq)
    ultimately show ?thesis
      using False less.IH [of "n - 32" "Suc k"] unfolding k
      by (subst prf_loop.simps) (simp add: SHA256_OUTSIZE_def h Let_def del: upt_Suc)
  qed
qed

text \<open>
  Property C19. For secrets of up to 64 bytes \<open>prf_hmac_sha256\<close> fills its output buffer, whatever
  its size, with the pseudorandom function of RFC 5246 of the secret, the label and the seed.
\<close>

theorem prf_rfc5246:
  assumes "length secret \<le> 64" "length (fst stack) = 64" "length (snd stack) = 64"
    and "ctx_wf (hashed_key_xor_ipad pre)" "ctx_wf (hashed_key_xor_opad pre)"
  shows "prf_hmac_sha256 stack pre n secret label seed =
    Some (rfc5246_P_hash 32 hmac_sha256 secret (label @ seed) n)"
proof -
  obtain p where p: "hmac_begin stack pre secret sha256_begin = Some p"
      "hmac_sha256.precomputed secret p"
    using hmac_sha256.begin_precomputed [OF assms] .
  have "hmac_sha_precomputed p [label, seed] = rfc5246_A hmac_sha256 secret (concat [label, seed]) (Suc 0)"
    using hmac_sha256.precomputed_hmac [OF p(2)] by (simp add: hmac_sha_precomputed_def hmac_sha256_def)
  then show ?thesis
    using p(1) prf_loop_P_hash [OF p(2), of "[label, seed]" 0 n]
    by (simp add: prf_hmac_sha256_def rfc5246_P_hash_def del: upt_Suc)
qed

lemma prf_rfc5246_witness:
  "prf_hmac_sha256 (replicate 64 0xAA, replicate 64 0xBB) pre0 48 (replicate 48 1) [0x6d, 0x73] [9] =
     Some (rfc5246_P_hash 32 hmac_sha256 (replicate 48 1) [0x6d, 0x73, 9] 48)"
  using prf_rfc5246 [of "replicate 48 1" "(replicate 64 0xAA, replicate 64 0xBB)" pre0 48
      "[0x6d, 0x73]" "[9]"]
  by (simp add: pre0_def ctx_wf_def ctx0_def)

end
