(* ===== verification/Gcm.thy ===== *)
theory Gcm
  imports Prelude Sha2
begin

text \<open>
  The GHASH of AES-GCM, \<open>networking/tls_aesgcm.c\<close>, and the xor helpers of
  \<open>networking/tls.c\<close> it shares with the record layer. Blocks are arrays of sixteen bytes;
  \<open>RIGHTSHIFTX\<close> works on them through a pointer to 64-bit words. The abstract side is the
  block of NIST SP 800-38D: a 128-bit string, here a 128-bit word whose most significant bit is
  the first bit of the string.
\<close>

section \<open>Xor of buffers (tls.c)\<close>

text \<open>
  A source pointer of \<open>xorbuf3\<close> points into the object that is written, or elsewhere. The
  loop reads and writes byte after byte, so that overlapping is what the code makes it.
\<close>

datatype src = Inside nat | Outside bytes

fun src_byte :: "bytes \<Rightarrow> src \<Rightarrow> u8" where
  "src_byte mem (Inside p) = mem ! p"
| "src_byte mem (Outside bs) = hd bs"

fun src_next :: "src \<Rightarrow> src" where
  "src_next (Inside p) = Inside (Suc p)"
| "src_next (Outside bs) = Outside (tl bs)"

fun xorbuf3 :: "bytes \<Rightarrow> nat \<Rightarrow> src \<Rightarrow> src \<Rightarrow> nat \<Rightarrow> bytes" where
  "xorbuf3 mem d s1 s2 0 = mem"
| "xorbuf3 mem d s1 s2 (Suc count) =
     xorbuf3 (mem[d := src_byte mem s1 XOR src_byte mem s2]) (Suc d) (src_next s1) (src_next s2)
       count"

definition xorbuf :: "bytes \<Rightarrow> nat \<Rightarrow> src \<Rightarrow> nat \<Rightarrow> bytes" where
  "xorbuf mem d s count = xorbuf3 mem d (Inside d) s count"

text \<open>The 64-bit case: two words of the block.\<close>

definition xorbuf_aligned_AES_BLOCK_SIZE :: "bytes \<Rightarrow> bytes \<Rightarrow> bytes" where
  "xorbuf_aligned_AES_BLOCK_SIZE dst s =
     (let dst = blit dst 0 (store64 (load64 dst 0 XOR load64 s 0));
          dst = blit dst 8 (store64 (load64 dst 1 XOR load64 s 1))
      in dst)"

section \<open>Multiplication and GHASH (tls_aesgcm.c)\<close>

definition AES_BLOCK_SIZE :: nat where "AES_BLOCK_SIZE = 16"

text \<open>
  The little-endian 64-bit body of \<open>RIGHTSHIFTX\<close>, and the generic body that the source
  keeps under \<open>#if 0\<close> as the description of what it computes.
\<close>

definition RIGHTSHIFTX :: "bytes \<Rightarrow> bytes" where
  "RIGHTSHIFTX x =
     (let carryIn = (if x ! 15 AND 1 \<noteq> 0 then push_bit (64 - 8) 0xE1 else 0);
          tt = SWAP_BE64 (load64 x 0);
          carryOut = push_bit (64 - 1) tt;
          tt = drop_bit 1 tt XOR carryIn;
          x = blit x 0 (store64 (SWAP_BE64 tt));
          tt = SWAP_BE64 (load64 x 1);
          tt = drop_bit 1 tt XOR carryOut
      in blit x 8 (store64 (SWAP_BE64 tt)))"

fun RIGHTSHIFTX_bytes :: "u8 \<Rightarrow> bytes \<Rightarrow> bytes" where
  "RIGHTSHIFTX_bytes carryIn [] = []"
| "RIGHTSHIFTX_bytes carryIn (b # x) =
     (drop_bit 1 b XOR carryIn) # RIGHTSHIFTX_bytes (push_bit 7 b) x"

definition RIGHTSHIFTX_generic :: "bytes \<Rightarrow> bytes" where
  "RIGHTSHIFTX_generic x = RIGHTSHIFTX_bytes (if x ! 15 AND 1 \<noteq> 0 then 0xE1 else 0) x"

text \<open>
  The inner loop of \<open>GMULT\<close> leaves by its \<open>break\<close> only; \<open>None\<close> is a run that
  does not end.
\<close>

partial_function (option) GMULT_bits ::
  "bytes \<Rightarrow> bytes \<Rightarrow> u32 \<Rightarrow> (bytes \<times> bytes) option" where
  "GMULT_bits Z X y =
     (let Z = (if y AND 0x80 \<noteq> 0 then xorbuf_aligned_AES_BLOCK_SIZE Z X else Z);
          X = RIGHTSHIFTX X;
          y = push_bit 1 y
      in if y <s 0 then Some (Z, X) else GMULT_bits Z X y)"

fun GMULT_loop :: "bytes \<Rightarrow> bytes \<Rightarrow> bytes \<Rightarrow> (bytes \<times> bytes) option" where
  "GMULT_loop Z X [] = Some (Z, X)"
| "GMULT_loop Z X (b # Y) =
     (case GMULT_bits Z X (0x800000 OR ucast b) of
        None \<Rightarrow> None
      | Some (Z, X) \<Rightarrow> GMULT_loop Z X Y)"

definition GMULT :: "bytes \<Rightarrow> bytes \<Rightarrow> bytes option" where
  "GMULT X Y = map_option fst (GMULT_loop (replicate AES_BLOCK_SIZE 0) X (take AES_BLOCK_SIZE Y))"

text \<open>
  \<open>aesgcm_GHASH\<close>: the additional data, always thirteen bytes in a buffer of sixteen, then
  the complete blocks of the ciphertext, its tail, and the two lengths. The case that the
  platform allows unaligned access and the other one are both kept.
\<close>

definition aSz :: u32 where "aSz = 13"

fun GHASH_blocks :: "bool \<Rightarrow> bytes \<Rightarrow> bytes \<Rightarrow> bytes \<Rightarrow> nat \<Rightarrow> (bytes \<times> bytes) option" where
  "GHASH_blocks unaligned_ok h x c 0 = Some (x, c)"
| "GHASH_blocks unaligned_ok h x c (Suc blocks) =
     (let x = (if unaligned_ok then xorbuf_aligned_AES_BLOCK_SIZE x c
               else xorbuf x 0 (Outside c) AES_BLOCK_SIZE)
      in case GMULT x h of
           None \<Rightarrow> None
         | Some x \<Rightarrow> GHASH_blocks unaligned_ok h x (drop AES_BLOCK_SIZE c) blocks)"

definition GHASH_data :: "bool \<Rightarrow> bytes \<Rightarrow> bytes \<Rightarrow> bytes \<Rightarrow> u32 \<Rightarrow> bytes option" where
  "GHASH_data unaligned_ok h x c cSz =
     (if cSz \<noteq> 0
      then let blocks = unat (cSz div 16); partial = unat (cSz mod 16)
           in case GHASH_blocks unaligned_ok h x c blocks of
                None \<Rightarrow> None
              | Some (x, c) \<Rightarrow>
                  if partial \<noteq> 0 then GMULT (xorbuf x 0 (Outside c) partial) h else Some x
      else Some x)"

definition aesgcm_GHASH :: "bool \<Rightarrow> bytes \<Rightarrow> bytes \<Rightarrow> bytes \<Rightarrow> u32 \<Rightarrow> bytes option" where
  "aesgcm_GHASH unaligned_ok h a c cSz =
     (case GMULT (take AES_BLOCK_SIZE a) h of
        None \<Rightarrow> None
      | Some x \<Rightarrow>
          (case GHASH_data unaligned_ok h x c cSz of
             None \<Rightarrow> None
           | Some x \<Rightarrow>
               let x = blit x 4 (store32 (load32 x 1 XOR SWAP_BE32 (aSz * 8)));
                   x = blit x 12 (store32 (load32 x 3 XOR SWAP_BE32 (cSz * 8)))
               in GMULT x h))"

section \<open>Blocks as bit strings (SP 800-38D)\<close>

type_synonym blk = "128 word"

definition blk :: "bytes \<Rightarrow> blk" where
  "blk = word_rcat"

text \<open>Bit \<open>i\<close> of a block, counted from the left as in the standard.\<close>

definition blk_bit :: "blk \<Rightarrow> nat \<Rightarrow> bool" where
  "blk_bit v i = bit v (127 - i)"

definition gcm_R :: blk where "gcm_R = push_bit 120 0xE1"

text \<open>Algorithm 1 of SP 800-38D, the product of two blocks.\<close>

definition gcm_step :: "blk \<Rightarrow> blk \<times> blk \<Rightarrow> nat \<Rightarrow> blk \<times> blk" where
  "gcm_step X = (\<lambda>(Z, V) i.
     (if blk_bit X i then Z XOR V else Z,
      if bit V 0 then drop_bit 1 V XOR gcm_R else drop_bit 1 V))"

definition gcm_mult :: "blk \<Rightarrow> blk \<Rightarrow> blk" where
  "gcm_mult X Y = fst (foldl (gcm_step X) (0, Y) [0..<128])"

text \<open>Algorithm 2: GHASH of a sequence of blocks under the subkey.\<close>

definition gcm_ghash :: "blk \<Rightarrow> blk list \<Rightarrow> blk" where
  "gcm_ghash H = foldl (\<lambda>Y X. gcm_mult (Y XOR X) H) 0"

section \<open>The two views of a block\<close>

declare push_bit_Suc [simp del] drop_bit_Suc [simp del]

definition join64 :: "u64 \<Rightarrow> u64 \<Rightarrow> blk" where
  "join64 hi lo = push_bit 64 (ucast hi) OR ucast lo"

lemma bit_join64:
  "bit (join64 hi lo) n \<longleftrightarrow> n < 128 \<and> (if n < 64 then bit lo n else bit hi (n - 64))"
  by (auto simp: join64_def bit_simps dest: bit_imp_le_length)

lemma bit_word_rcat:
  "bit (word_rcat ws :: 'b::len word) n \<longleftrightarrow>
     n < LENGTH('b) \<and> n div LENGTH('a) < length ws
       \<and> bit (rev ws ! (n div LENGTH('a))) (n mod LENGTH('a))" for ws :: "'a::len word list"
  by (simp add: word_rcat_def bit_simps bit_horner_sum_uint_exp_iff)

lemma bit_blk:
  "length x = 16 \<Longrightarrow> bit (blk x) n \<longleftrightarrow> n < 128 \<and> bit (x ! (15 - n div 8)) (n mod 8)"
  by (auto simp: blk_def bit_word_rcat rev_nth)

lemma bit_store_be64:
  assumes "j < 8" "n < 8"
  shows "bit (store64 (SWAP_BE64 v) ! j) n \<longleftrightarrow> bit v (56 - 8 * j + n)"
proof -
  have "j \<in> {0, 1, 2, 3, 4, 5, 6, 7}" using assms(1) by auto
  then show ?thesis using assms(2)
    by (auto simp: SWAP_BE64_def BB_BIG_ENDIAN_def bswap64_def bswap32_def store64_def store32_def
        bit_simps mask_ff00 mask_ff0000 dest: bit_imp_le_length)
qed

lemma bit_le32:
  "bit (le32 b0 b1 b2 b3) n \<longleftrightarrow> n < 32 \<and> bit ([b0, b1, b2, b3] ! (n div 8)) (n mod 8)"
proof (cases "n < 32")
  case True
  define q where "q = n div 8"
  define r where "r = n mod 8"
  have n: "n = 8 * q + r" "r < 8" "q < 4" using True by (auto simp: q_def r_def)
  have "q \<in> {0, 1, 2, 3}" using n(3) by auto
  then show ?thesis using True n(2) unfolding q_def [symmetric] r_def [symmetric] n(1)
    by (auto simp: le32_def bit_simps)
qed (auto dest: bit_imp_le_length)

lemma bit_be32_at:
  "bit (be32_at x k) n \<longleftrightarrow> n < 32 \<and> bit (x ! (k + 3 - n div 8)) (n mod 8)"
proof (cases "n < 32")
  case True
  then have "n div 8 \<in> {0, 1, 2, 3}" by auto
  then show ?thesis using True by (auto simp: be32_at_def bit_le32)
qed (auto dest: bit_imp_le_length)

lemma minus_bytes:
  assumes "8 * k \<le> (n::nat)"
  shows "(n - 8 * k) div 8 = n div 8 - k" "(n - 8 * k) mod 8 = n mod 8"
proof -
  obtain m where "n = 8 * k + m" using assms le_Suc_ex by blast
  then show "(n - 8 * k) div 8 = n div 8 - k" "(n - 8 * k) mod 8 = n mod 8" by simp_all
qed

lemmas minus_32 = minus_bytes [of 4, simplified] and minus_64 = minus_bytes [of 8, simplified]

lemma bit_load_be64:
  "bit (SWAP_BE64 (load64 x i)) n \<longleftrightarrow> n < 64 \<and> bit (x ! (8 * i + 7 - n div 8)) (n mod 8)"
proof (cases "n < 32")
  case True
  then show ?thesis by (simp add: SWAP_BE64_load64 bit_be32_at bit_simps algebra_simps)
next
  case False
  then have "8 * i + 3 - (n div 8 - 4) = 8 * i + 7 - n div 8" if "n < 64" using that by simp
  then show ?thesis using False
    by (auto simp: SWAP_BE64_load64 bit_be32_at bit_simps minus_32)
qed

lemma blk_be64:
  assumes "length x = 16"
  shows "blk x = join64 (SWAP_BE64 (load64 x 0)) (SWAP_BE64 (load64 x 1))"
proof (rule bit_word_eqI)
  fix n assume n: "n < LENGTH(128)"
  show "bit (blk x) n = bit (join64 (SWAP_BE64 (load64 x 0)) (SWAP_BE64 (load64 x 1))) n"
  proof (cases "n < 64")
    case False
    have "7 - (n div 8 - 8) = 15 - n div 8" "n - 64 < 64" using False n by simp_all
    then show ?thesis using False n assms by (simp add: bit_blk bit_join64 bit_load_be64 minus_64)
  qed (simp add: assms bit_blk bit_join64 bit_load_be64)
qed

lemma blk_store_be64:
  "blk (store64 (SWAP_BE64 hi) @ store64 (SWAP_BE64 lo)) = join64 hi lo"
proof (rule bit_word_eqI)
  fix n assume n: "n < LENGTH(128)"
  define q where "q = n div 8"
  define r where "r = n mod 8"
  have nq: "n = 8 * q + r" "r < 8" "q < 16" using n by (auto simp: q_def r_def)
  show "bit (blk (store64 (SWAP_BE64 hi) @ store64 (SWAP_BE64 lo))) n = bit (join64 hi lo) n"
  proof (cases "q < 8")
    case True
    then have e: "56 - 8 * (7 - q) = 8 * q" by simp
    have "bit (store64 (SWAP_BE64 lo) ! (7 - q)) r = bit lo (8 * q + r)"
      using nq True by (subst bit_store_be64) (auto simp: e)
    moreover have "(store64 (SWAP_BE64 hi) @ store64 (SWAP_BE64 lo)) ! (15 - q)
        = store64 (SWAP_BE64 lo) ! (7 - q)"
      using True by (subst nth_append) (auto intro!: arg_cong2 [of _ _ _ _ nth])
    ultimately show ?thesis
      using True nq by (simp add: bit_blk bit_join64 flip: q_def r_def)
  next
    case False
    then have lt: "15 - q < 8" using nq by simp
    have "bit (store64 (SWAP_BE64 hi) ! (15 - q)) r = bit hi (8 * q + r - 64)"
      using nq False by (subst bit_store_be64) (auto simp: algebra_simps)
    moreover have "(store64 (SWAP_BE64 hi) @ store64 (SWAP_BE64 lo)) ! (15 - q)
        = store64 (SWAP_BE64 hi) ! (15 - q)"
      using lt by (simp add: nth_append)
    ultimately show ?thesis
      using False nq by (simp add: bit_blk bit_join64 flip: q_def r_def)
  qed
qed

lemma blit_halves:
  "length x = 16 \<Longrightarrow> length a = 8 \<Longrightarrow> length b = 8 \<Longrightarrow> blit (blit x 0 a) 8 b = a @ b"
  by (simp add: blit_def)

lemma load64_blit_0:
  "length x = 16 \<Longrightarrow> load64 (blit x 0 (store64 v)) (Suc 0) = load64 x (Suc 0)"
  by (simp add: load64_def load32_def blit_def nth_append)

lemma blk_inject: "length x = 16 \<Longrightarrow> length y = 16 \<Longrightarrow> blk x = blk y \<longleftrightarrow> x = y"
proof
  assume l: "length x = 16" "length y = 16" and e: "blk x = blk y"
  show "x = y"
  proof (rule nth_equalityI, simp add: l, rule bit_word_eqI)
    fix i n assume "i < length x" and n: "n < LENGTH(8)"
    then have i: "i < 16" using l by simp
    have "15 - (8 * (15 - i) + n) div 8 = i" "(8 * (15 - i) + n) mod 8 = n" using i n by auto
    moreover have "8 * (15 - i) + n < 128" using i n by simp
    ultimately show "bit (x ! i) n = bit (y ! i) n"
      using e l bit_blk [of x "8 * (15 - i) + n"] bit_blk [of y "8 * (15 - i) + n"] by simp
  qed
qed simp

text \<open>Multiplication by the unit of degree one.\<close>

definition mulx :: "blk \<Rightarrow> blk" where
  "mulx v = (if bit v 0 then drop_bit 1 v XOR gcm_R else drop_bit 1 v)"

lemma gcm_R_low: "n < 64 \<Longrightarrow> \<not> bit gcm_R n"
  unfolding gcm_R_def bit_push_bit_iff by simp

lemma mulx_join64:
  assumes c: "\<And>n. bit c n \<longleftrightarrow> bit lo 0 \<and> n < 64 \<and> bit gcm_R (n + 64)"
  shows "join64 (drop_bit 1 hi XOR c) (drop_bit 1 lo XOR push_bit 63 hi) = mulx (join64 hi lo)"
proof (rule bit_word_eqI)
  fix n assume n: "n < LENGTH(128)"
  show "bit (join64 (drop_bit 1 hi XOR c) (drop_bit 1 lo XOR push_bit 63 hi)) n
      = bit (mulx (join64 hi lo)) n"
  proof (cases "n < 64")
    case True
    then consider "n < 63" | "n = 63" by linarith
    then show ?thesis
      by cases (auto simp: mulx_def bit_join64 bit_simps gcm_R_low dest: bit_imp_le_length)
  next
    case False
    then obtain m where m: "n = 64 + m" "m < 64" using n le_Suc_ex [of 64 n] by auto
    then show ?thesis
      by (cases "m = 63") (auto simp: mulx_def bit_join64 bit_simps c add.commute dest: bit_imp_le_length)
  qed
qed

lemma odd_blk: "length x = 16 \<Longrightarrow> x ! 15 AND 1 \<noteq> 0 \<longleftrightarrow> bit (blk x) 0"
  using bit_blk [of x 0] by (simp add: and_one_eq bit_0 flip: odd_iff_mod_2_eq_one)

lemma blk_RIGHTSHIFTX:
  assumes "length x = 16"
  shows "blk (RIGHTSHIFTX x) = mulx (blk x)" "length (RIGHTSHIFTX x) = 16"
proof -
  let ?hi = "SWAP_BE64 (load64 x 0)" and ?lo = "SWAP_BE64 (load64 x 1)"
  let ?c = "if x ! 15 AND 1 \<noteq> 0 then push_bit 56 0xE1 else 0 :: u64"
  have "push_bit 56 0xE1 = (ucast (drop_bit 64 gcm_R) :: u64)" by (simp add: gcm_R_def)
  then have "bit (push_bit 56 0xE1 :: u64) n \<longleftrightarrow> n < 64 \<and> bit gcm_R (n + 64)" for n
    unfolding \<open>push_bit 56 0xE1 = _\<close> by (auto simp: bit_simps add.commute)
  then have c: "bit ?c n \<longleftrightarrow> bit ?lo 0 \<and> n < 64 \<and> bit gcm_R (n + 64)" for n
    unfolding odd_blk [OF assms] using blk_be64 [OF assms]
    by (simp add: bit_join64 del: push_bit_numeral)
  have R: "RIGHTSHIFTX x = store64 (SWAP_BE64 (drop_bit 1 ?hi XOR ?c))
      @ store64 (SWAP_BE64 (drop_bit 1 ?lo XOR push_bit 63 ?hi))"
    using assms by (simp add: RIGHTSHIFTX_def Let_def load64_blit_0 blit_halves)
  show "length (RIGHTSHIFTX x) = 16" by (simp add: R)
  show "blk (RIGHTSHIFTX x) = mulx (blk x)"
    unfolding R blk_store_be64 blk_be64 [OF assms] by (rule mulx_join64 [OF c])
qed

lemma length_RIGHTSHIFTX_bytes [simp]: "length (RIGHTSHIFTX_bytes c x) = length x"
  by (induction c x rule: RIGHTSHIFTX_bytes.induct) simp_all

lemma nth_RIGHTSHIFTX_bytes:
  "i < length x \<Longrightarrow> RIGHTSHIFTX_bytes c x ! i
     = (drop_bit 1 (x ! i) XOR (if i = 0 then c else push_bit 7 (x ! (i - 1))))"
  by (induction c x arbitrary: i rule: RIGHTSHIFTX_bytes.induct) (auto simp: nth_Cons')

lemma byte_0xE1: "push_bit 120 (ucast (0xE1 :: u8)) = gcm_R"
  by (simp add: gcm_R_def)

lemma blk_RIGHTSHIFTX_generic:
  assumes "length x = 16"
  shows "blk (RIGHTSHIFTX_generic x) = mulx (blk x)"
proof (rule bit_word_eqI)
  fix n assume n: "n < LENGTH(128)"
  define q where "q = 15 - n div 8"
  define r where "r = n mod 8"
  have nq: "n = 8 * (15 - q) + r" "r < 8" "q < 16" "n div 8 = 15 - q"
    using n by (auto simp: q_def r_def)
  have "bit (push_bit 120 (ucast v) :: blk) n \<longleftrightarrow> q = 0 \<and> bit v r" for v :: u8
    using nq n by (cases "q = 0") (auto simp: bit_push_bit_iff bit_ucast_iff)
  then have E: "bit gcm_R n \<longleftrightarrow> q = 0 \<and> bit (0xE1 :: u8) r" by (simp only: flip: byte_0xE1)
  have l: "bit (blk (RIGHTSHIFTX_generic x)) n
      \<longleftrightarrow> bit (drop_bit 1 (x ! q) XOR (if q = 0 then if bit (blk x) 0 then 0xE1 else 0
            else push_bit 7 (x ! (q - 1)))) r"
    using n nq assms
    by (simp add: bit_blk RIGHTSHIFTX_generic_def nth_RIGHTSHIFTX_bytes odd_blk flip: q_def r_def)
  have "bit (drop_bit 1 (blk x)) n
      \<longleftrightarrow> (if r < 7 then bit (x ! q) (r + 1) else q \<noteq> 0 \<and> bit (x ! (q - 1)) 0)"
  proof (cases "r < 7")
    case True
    then have "Suc n div 8 = 15 - q" "Suc n mod 8 = Suc r" using nq by auto
    then show ?thesis using True nq assms by (auto simp: bit_simps bit_blk)
  next
    case False
    then have "r = 7" using nq(2) by simp
    then have "Suc n div 8 = 16 - q" "Suc n mod 8 = 0" using nq by auto
    then show ?thesis using False nq assms by (auto simp: bit_simps bit_blk)
  qed
  then show "bit (blk (RIGHTSHIFTX_generic x)) n = bit (mulx (blk x)) n"
    unfolding l using nq E by (auto simp: mulx_def bit_simps)
qed

lemma store32_le32: "store32 (le32 a b c d) = [a, b, c, d]"
  unfolding store32_def list.inject
  by (intro conjI bit_word_eqI) (auto simp: le32_def bit_simps)

lemma store64_xor: "store64 (v XOR w) = map2 (XOR) (store64 v) (store64 w)"
  by (simp add: store64_def store32_def add: unsigned_xor_eq)

lemma store64_load64:
  "store64 (load64 x i) = [x ! (8*i), x ! (8*i+1), x ! (8*i+2), x ! (8*i+3),
     x ! (8*i+4), x ! (8*i+5), x ! (8*i+6), x ! (8*i+7)]"
  unfolding store64_def load64_def low_half high_half load32_def store32_le32
  by (simp add: algebra_simps)

lemma upt_sixteen: "[0..<16::nat] = [0, 1, 2, 3, 4, 5, 6, 7, 8, 9, 10, 11, 12, 13, 14, 15]"
  by code_simp

lemma list16: "length x = 16 \<Longrightarrow>
  x = [x ! 0, x ! 1, x ! 2, x ! 3, x ! 4, x ! 5, x ! 6, x ! 7, x ! 8, x ! 9, x ! 10, x ! 11,
       x ! 12, x ! 13, x ! 14, x ! 15]"
  using map_nth [of x] by (simp add: upt_sixteen)

lemma load64_halves:
  "length x = 16 \<Longrightarrow> x = store64 (load64 x 0) @ store64 (load64 x 1)"
  using list16 [of x] by (simp add: store64_load64 numeral_2_eq_2)

lemma xorbuf_aligned_map2:
  assumes "length x = 16" "length y = 16"
  shows "xorbuf_aligned_AES_BLOCK_SIZE x y = map2 (XOR) x y"
proof -
  have "xorbuf_aligned_AES_BLOCK_SIZE x y
      = store64 (load64 x 0 XOR load64 y 0) @ store64 (load64 x 1 XOR load64 y 1)"
    using assms
    by (simp add: xorbuf_aligned_AES_BLOCK_SIZE_def Let_def blit_halves load64_blit_0)
  also have "\<dots> = map2 (XOR) (store64 (load64 x 0) @ store64 (load64 x 1))
      (store64 (load64 y 0) @ store64 (load64 y 1))"
    by (simp add: store64_xor)
  also have "\<dots> = map2 (XOR) x y"
    using load64_halves [OF assms(1)] load64_halves [OF assms(2)] by simp
  finally show ?thesis .
qed

lemma blk_xor:
  assumes "length x = 16" "length y = 16"
  shows "blk (map2 (XOR) x y) = blk x XOR blk y"
  using assms by (intro bit_word_eqI) (auto simp: bit_blk bit_simps)

section \<open>The product of the code and the product of the standard\<close>

definition byte_step :: "u8 \<Rightarrow> blk \<times> blk \<Rightarrow> nat \<Rightarrow> blk \<times> blk" where
  "byte_step b = (\<lambda>(Z, V) i. (if bit b (7 - i) then Z XOR V else Z, mulx V))"

lemma gmult_y_bits:
  fixes b :: u8
  assumes "k < 8"
  shows "push_bit k (0x800000 OR ucast b :: u32) AND 0x80 \<noteq> 0 \<longleftrightarrow> bit b (7 - k)"
    and "push_bit (Suc k) (0x800000 OR ucast b :: u32) <s 0 \<longleftrightarrow> k = 7"
proof -
  have y: "(0x800000 OR ucast b :: u32) = push_bit 23 1 OR ucast b"
    and m: "(0x80 :: u32) = push_bit 7 1" by simp_all
  have bit23: "bit (push_bit 23 1 :: u32) n \<longleftrightarrow> n = 23" for n
    unfolding bit_push_bit_iff bit_1_iff by auto
  have "v AND 0x80 \<noteq> 0 \<longleftrightarrow> bit v 7" for v :: u32
    unfolding m bit_iff_and_push_bit_not_eq_0 by simp
  then show "push_bit k (0x800000 OR ucast b :: u32) AND 0x80 \<noteq> 0 \<longleftrightarrow> bit b (7 - k)"
    using assms bit23 [of "7 - k"] unfolding y by (auto simp: bit_simps simp del: push_bit_of_1 push_bit_numeral)
  have sl: "v <s 0 \<longleftrightarrow> bit v 31" for v :: u32
    by (simp add: word_sless_alt sint_uint signed_take_bit_negative_iff bit_uint_iff)
  have "31 - Suc k = 23 \<longleftrightarrow> k = 7" using assms by linarith
  moreover have "\<not> bit b (31 - Suc k)" "Suc k \<le> 31" using assms by simp_all
  ultimately show "push_bit (Suc k) (0x800000 OR ucast b :: u32) <s 0 \<longleftrightarrow> k = 7"
    unfolding y sl bit_push_bit_iff [of "Suc k"] bit_or_iff bit23 bit_ucast_iff by simp
qed

lemma GMULT_bits_blk:
  assumes "k < 8" "length Z = 16" "length X = 16"
  shows "\<exists>Z' X'. GMULT_bits Z X (push_bit k (0x800000 OR ucast b)) = Some (Z', X')
    \<and> length Z' = 16 \<and> length X' = 16
    \<and> (blk Z', blk X') = foldl (byte_step b) (blk Z, blk X) [k..<8]"
  using assms
proof (induction "8 - k" arbitrary: k Z X)
  case (Suc m)
  let ?y = "push_bit k (0x800000 OR ucast b) :: u32"
  let ?Z = "if ?y AND 0x80 \<noteq> 0 then xorbuf_aligned_AES_BLOCK_SIZE Z X else Z"
  let ?X = "RIGHTSHIFTX X"
  have Z: "length ?Z = 16" "blk ?Z = (if bit b (7 - k) then blk Z XOR blk X else blk Z)"
    using Suc.prems unfolding gmult_y_bits(1) [OF Suc.prems(1)]
    by (simp_all add: xorbuf_aligned_map2 blk_xor)
  note X = blk_RIGHTSHIFTX [OF Suc.prems(3)]
  have y: "push_bit 1 ?y = push_bit (Suc k) (0x800000 OR ucast b)" by simp
  have step: "GMULT_bits Z X ?y = (if k = 7 then Some (?Z, ?X)
      else GMULT_bits ?Z ?X (push_bit (Suc k) (0x800000 OR ucast b)))"
    unfolding GMULT_bits.simps [of Z X ?y] Let_def y gmult_y_bits(2) [OF Suc.prems(1)] ..
  have one: "byte_step b (blk Z, blk X) k = (blk ?Z, blk ?X)" unfolding Z(2) X(1) by (simp add: byte_step_def)
  show ?case
  proof (cases "k = 7")
    case True
    then show ?thesis unfolding step using Z(1) X(2) one by (simp add: upt_rec)
  next
    case False
    then have "[k..<8] = k # [Suc k..<8]" using Suc.prems(1) by (simp add: upt_rec)
    then show ?thesis
      unfolding step using Suc.hyps(1) [of "Suc k" ?Z ?X] Suc.hyps(2) Suc.prems(1) Z(1) X(2) False one
      by simp
  qed
qed simp

lemma nth_bit_blk:
  assumes "length h = 16" "j < 16" "i < 8"
  shows "blk_bit (blk h) (8 * j + i) \<longleftrightarrow> bit (h ! j) (7 - i)"
proof -
  define r where "r = 7 - i"
  have e: "127 - (8 * j + i) = 8 * (15 - j) + r" and r: "r < 8"
    using assms(2,3) by (simp_all add: r_def)
  have "(127 - (8 * j + i)) div 8 = 15 - j" "(127 - (8 * j + i)) mod 8 = 7 - i"
    unfolding e using r by (simp_all add: r_def [symmetric])
  then show ?thesis using assms by (simp add: blk_bit_def bit_blk less_imp_diff_less)
qed

lemma byte_steps:
  assumes "length h = 16" "j < 16"
  shows "foldl (gcm_step (blk h)) s [8 * j..<8 * Suc j] = foldl (byte_step (h ! j)) s [0..<8]"
proof -
  have u: "[8 * j..<8 * Suc j] = map (\<lambda>i. 8 * j + i) [0..<8]"
    using map_add_upt [of "8 * j" 8] by (simp add: add.commute)
  show ?thesis unfolding u foldl_map
    by (rule foldl_cong_set)
      (auto simp: gcm_step_def byte_step_def mulx_def nth_bit_blk [OF assms])
qed

lemma GMULT_loop_blk:
  assumes "length h = 16" "j \<le> 16" "length Z = 16" "length X = 16"
  shows "\<exists>Z' X'. GMULT_loop Z X (drop j h) = Some (Z', X') \<and> length Z' = 16
    \<and> (blk Z', blk X') = foldl (gcm_step (blk h)) (blk Z, blk X) [8 * j..<128]"
  using assms(2-)
proof (induction "16 - j" arbitrary: j Z X)
  case (Suc m)
  then have j: "j < 16" by simp
  then have d: "drop j h = h ! j # drop (Suc j) h" using assms(1) by (simp add: Cons_nth_drop_Suc)
  have u: "[8 * j..<128] = [8 * j..<8 * Suc j] @ [8 * Suc j..<128]"
    using j upt_add_eq_append [of "8 * j" "8 * Suc j" "128 - 8 * Suc j"] by simp
  have m: "m = 16 - Suc j" using Suc.hyps(2) by simp
  obtain Z1 X1 where 1: "GMULT_bits Z X (0x800000 OR ucast (h ! j)) = Some (Z1, X1)"
      "length Z1 = 16" "length X1 = 16"
      "(blk Z1, blk X1) = foldl (byte_step (h ! j)) (blk Z, blk X) [0..<8]"
    using GMULT_bits_blk [of 0 Z X "h ! j"] Suc.prems by auto
  obtain Z2 X2 where "GMULT_loop Z1 X1 (drop (Suc j) h) = Some (Z2, X2)" "length Z2 = 16"
      "(blk Z2, blk X2) = foldl (gcm_step (blk h)) (blk Z1, blk X1) [8 * Suc j..<128]"
    using Suc.hyps(1) [OF m _ 1(2,3)] j by auto
  then show ?case
    unfolding d u foldl_append byte_steps [OF assms(1) j] 1(4) [symmetric] using 1(1) by auto
qed (use assms(1) in simp)

lemma blk_zero: "blk (replicate 16 0) = 0"
  by (rule bit_word_eqI) (simp add: bit_blk)

lemma GMULT_blk_rev:
  assumes "length X = 16" "length h = 16"
  shows "\<exists>R. GMULT X h = Some R \<and> length R = 16 \<and> blk R = gcm_mult (blk h) (blk X)"
proof -
  obtain Z' X' where "GMULT_loop (replicate 16 0) X h = Some (Z', X')" "length Z' = 16"
      "(blk Z', blk X') = foldl (gcm_step (blk h)) (0, blk X) [0..<128]"
    using GMULT_loop_blk [of h 0 "replicate 16 0" X] assms by (auto simp: blk_zero)
  then show ?thesis
    using assms by (auto simp: GMULT_def AES_BLOCK_SIZE_def gcm_mult_def dest: arg_cong [of _ _ fst])
qed

section \<open>The product commutes\<close>

text \<open>
  The code scans the bits of the subkey where Algorithm 1 scans those of the other factor. The
  product is a double sum of multiples of the block of degree zero, hence symmetric.
\<close>

interpretation bxor: comm_monoid_set "(XOR)" "0 :: blk"
  by unfold_locales (simp_all add: ac_simps)

lemma mulx_0 [simp]: "mulx 0 = 0"
  by (simp add: mulx_def)

lemma mulx_xor: "mulx (v XOR w) = mulx v XOR mulx w"
  by (rule bit_word_eqI) (auto simp: mulx_def bit_simps)

lemma mulx_pow_0 [simp]: "(mulx ^^ n) 0 = 0"
  by (induction n) simp_all

lemma mulx_pow_xor: "(mulx ^^ n) (v XOR w) = (mulx ^^ n) v XOR (mulx ^^ n) w"
  by (induction n) (simp_all add: mulx_xor)

lemma mulx_pow_sum:
  "finite S \<Longrightarrow> (mulx ^^ n) (bxor.F g S) = bxor.F (\<lambda>i. (mulx ^^ n) (g i)) S"
  by (induction S rule: finite_induct) (simp_all add: mulx_pow_xor)

definition gcm_one :: blk where "gcm_one = push_bit 127 1"

lemma mulx_pow_one: "j < 128 \<Longrightarrow> (mulx ^^ j) gcm_one = push_bit (127 - j) 1"
proof (induction j)
  case (Suc j)
  then have "mulx (push_bit (127 - j) 1) = push_bit (127 - Suc j) 1"
    by (intro bit_word_eqI) (auto simp: mulx_def bit_drop_bit_eq bit_exp_iff)
  then show ?case using Suc by simp
qed (simp add: gcm_one_def)

lemma blk_as_sum: "v = bxor.F (\<lambda>j. if blk_bit v j then (mulx ^^ j) gcm_one else 0) {..<128}"
proof -
  have "bit (bxor.F (\<lambda>j. if blk_bit v j then (mulx ^^ j) gcm_one else 0) {..<m}) n
      \<longleftrightarrow> n < 128 \<and> 127 - n < m \<and> bit v n" if "m \<le> 128" for m n
    using that
  proof (induction m)
    case (Suc m)
    then have "bit ((mulx ^^ m) gcm_one) n \<longleftrightarrow> n = 127 - m"
      unfolding mulx_pow_one [OF Suc_le_lessD [OF Suc.prems]] by (auto simp: bit_exp_iff)
    then show ?case using Suc
      by (auto simp: lessThan_Suc bit_xor_iff blk_bit_def less_Suc_eq dest: bit_imp_le_length)
  qed simp
  from this [of 128] show ?thesis by (intro bit_word_eqI) (simp add: less_imp_diff_less)
qed

lemma gcm_step_mulx: "gcm_step v (Z, V) i = (if blk_bit v i then Z XOR V else Z, mulx V)"
  by (simp add: gcm_step_def mulx_def)

lemma gcm_steps_sum:
  "foldl (gcm_step v) (0, w) [0..<n] =
     (bxor.F (\<lambda>i. if blk_bit v i then (mulx ^^ i) w else 0) {..<n}, (mulx ^^ n) w)"
  by (induction n) (simp_all add: gcm_step_mulx lessThan_Suc xor.commute)

lemma gcm_mult_double_sum:
  "gcm_mult v w = bxor.F (\<lambda>i. bxor.F (\<lambda>j. if blk_bit v i \<and> blk_bit w j
     then (mulx ^^ (i + j)) gcm_one else 0) {..<128}) {..<128}"
proof -
  have "(mulx ^^ i) w = bxor.F (\<lambda>j. if blk_bit w j then (mulx ^^ (i + j)) gcm_one else 0) {..<128}" for i
    by (subst blk_as_sum [of w], subst mulx_pow_sum)
      (auto simp: funpow_add comp_def intro!: bxor.cong)
  then show ?thesis
    unfolding gcm_mult_def gcm_steps_sum by (auto intro!: bxor.cong)
qed

lemma gcm_mult_commute: "gcm_mult v w = gcm_mult w v"
  unfolding gcm_mult_double_sum
  by (subst bxor.swap) (intro bxor.cong refl, simp add: add.commute conj_commute)

lemma GMULT_blk:
  assumes "length X = 16" "length h = 16"
  shows "\<exists>R. GMULT X h = Some R \<and> length R = 16 \<and> blk R = gcm_mult (blk X) (blk h)"
  using GMULT_blk_rev [OF assms] by (simp add: gcm_mult_commute)

section \<open>Xor of buffers\<close>

definition src_view :: "bytes \<Rightarrow> src \<Rightarrow> bytes" where
  "src_view mem s = (case s of Inside p \<Rightarrow> drop p mem | Outside bs \<Rightarrow> bs)"

definition src_ahead :: "nat \<Rightarrow> src \<Rightarrow> bool" where
  "src_ahead d s = (case s of Inside p \<Rightarrow> d \<le> p | Outside bs \<Rightarrow> True)"

lemma src_step:
  assumes "src_ahead d s" "src_view mem s = b # bs" "d < length mem"
  shows "src_byte mem s = b" "src_ahead (Suc d) (src_next s)"
    "src_view (mem[d := v]) (src_next s) = bs"
proof -
  have "src_byte mem s = b \<and> src_ahead (Suc d) (src_next s)
      \<and> src_view (mem[d := v]) (src_next s) = bs"
  proof (cases s)
    case (Inside p)
    then have p: "d \<le> p" "drop p mem = b # bs" using assms by (simp_all add: src_ahead_def src_view_def)
    then have "p < length mem" by (metis drop_all leI list.distinct(1))
    then have "mem ! p = b" "drop (Suc p) mem = bs"
      using p(2) by (simp_all add: Cons_nth_drop_Suc [symmetric])
    then show ?thesis using Inside p(1) by (simp add: src_ahead_def src_view_def)
  qed (use assms in \<open>simp add: src_ahead_def src_view_def\<close>)
  then show "src_byte mem s = b" "src_ahead (Suc d) (src_next s)"
    "src_view (mem[d := v]) (src_next s) = bs" by blast+
qed

text \<open>
  As long as neither source lies behind the destination, the loop reads what was there before it
  started, overlapping or not.
\<close>

lemma xorbuf3_map2:
  assumes "d + n \<le> length mem" "src_ahead d s1" "src_ahead d s2"
    and "n \<le> length (src_view mem s1)" "n \<le> length (src_view mem s2)"
  shows "xorbuf3 mem d s1 s2 n =
    blit mem d (map2 (XOR) (take n (src_view mem s1)) (take n (src_view mem s2)))"
  using assms
proof (induction n arbitrary: mem d s1 s2)
  case (Suc n)
  obtain a as where a: "src_view mem s1 = a # as" using Suc.prems(4) by (cases "src_view mem s1") auto
  obtain b bs where b: "src_view mem s2 = b # bs" using Suc.prems(5) by (cases "src_view mem s2") auto
  have d: "d < length mem" using Suc.prems(1) by simp
  note A = src_step [OF Suc.prems(2) a d] and B = src_step [OF Suc.prems(3) b d]
  have "xorbuf3 (mem[d := a XOR b]) (Suc d) (src_next s1) (src_next s2) n =
      blit (mem[d := a XOR b]) (Suc d) (map2 (XOR) (take n as) (take n bs))"
    using Suc.IH [of "Suc d" "mem[d := a XOR b]" "src_next s1" "src_next s2"] A(2,3) B(2,3)
      Suc.prems(1,4,5) a b by simp
  then show ?case using Suc.prems(1,4,5) a b A(1) B(1) by (simp add: blit_Cons)
qed simp

lemma xorbuf_map2:
  assumes "d + n \<le> length mem" "n \<le> length bs"
  shows "xorbuf mem d (Outside bs) n = blit mem d (map2 (XOR) (take n (drop d mem)) (take n bs))"
  using xorbuf3_map2 [of d n mem "Inside d" "Outside bs"] assms
  by (simp add: xorbuf_def src_ahead_def src_view_def)

section \<open>GHASH\<close>

definition pad16 :: "bytes \<Rightarrow> bytes" where
  "pad16 c = c @ replicate ((16 - length c mod 16) mod 16) 0"

text \<open>The blocks of SP 800-38D that GHASH is applied to.\<close>

definition gcm_blocks :: "bytes \<Rightarrow> bytes \<Rightarrow> blk list" where
  "gcm_blocks a c = map blk (chunks 16 (pad16 a)) @ map blk (chunks 16 (pad16 c))
     @ [join64 (of_nat (8 * length a)) (of_nat (8 * length c))]"

abbreviation ghash_step :: "blk \<Rightarrow> blk \<Rightarrow> blk \<Rightarrow> blk" where
  "ghash_step H \<equiv> \<lambda>Y X. gcm_mult (Y XOR X) H"

lemma xor_block:
  assumes "length x = 16" "length b = 16"
  shows "(if unaligned_ok then xorbuf_aligned_AES_BLOCK_SIZE x (b @ c)
           else xorbuf x 0 (Outside (b @ c)) AES_BLOCK_SIZE) = map2 (XOR) x b"
proof -
  have "load64 (b @ c) 0 = load64 b 0" "load64 (b @ c) 1 = load64 b 1"
    using assms(2) by (simp_all add: load64_def load32_def nth_append)
  then have "xorbuf_aligned_AES_BLOCK_SIZE x (b @ c) = map2 (XOR) x b"
    using xorbuf_aligned_map2 [OF assms] by (simp add: xorbuf_aligned_AES_BLOCK_SIZE_def)
  then show ?thesis
    using assms by (simp add: xorbuf_map2 AES_BLOCK_SIZE_def blit_full)
qed

lemma GHASH_blocks_chunks:
  assumes "length h = 16" "length x = 16" "length c = 16 * n"
  shows "\<exists>x'. GHASH_blocks ok h x (c @ d) n = Some (x', d) \<and> length x' = 16
    \<and> blk x' = foldl (ghash_step (blk h)) (blk x) (map blk (chunks 16 c))"
  using assms(2-)
proof (induction n arbitrary: x c)
  case (Suc n)
  obtain b e where c: "c = b @ e" "length b = 16" "length e = 16 * n"
    using Suc.prems(2) by (intro that [of "take 16 c" "drop 16 c"]) simp_all
  obtain y where y: "GMULT (map2 (XOR) x b) h = Some y" "length y = 16"
      "blk y = gcm_mult (blk x XOR blk b) (blk h)"
    using GMULT_blk [of "map2 (XOR) x b" h] assms(1) Suc.prems(1) c(2) blk_xor by auto
  have "GHASH_blocks ok h x (b @ e @ d) (Suc n) = GHASH_blocks ok h y (e @ d) n"
    using c(2)
    by (simp only: GHASH_blocks.simps Let_def xor_block [OF Suc.prems(1) c(2)] y(1) option.case)
      (simp add: AES_BLOCK_SIZE_def)
  then show ?case using Suc.IH [OF y(2) c(3)] c y(3) by simp
qed simp

lemma GMULT_some:
  assumes "length X = 16" "length h = 16"
  obtains R where "GMULT X h = Some R" "length R = 16" "blk R = gcm_mult (blk X) (blk h)"
  using GMULT_blk [OF assms] by blast

lemma xor_short_block:
  assumes "length x = 16" "length t = n" "n < 16"
  shows "xorbuf x 0 (Outside (t @ rest)) n = map2 (XOR) x (t @ replicate (16 - n) 0)"
proof -
  have "x = take n x @ drop n x" by simp
  then have "map2 (XOR) x (t @ replicate (16 - n) 0)
      = map2 (XOR) (take n x @ drop n x) (t @ replicate (16 - n) 0)" by simp
  also have "\<dots> = map2 (XOR) (take n x) t @ map2 (XOR) (drop n x) (replicate (16 - n) 0)"
    using assms by (subst zip_append) simp_all
  also have "map2 (XOR) (drop n x) (replicate (16 - n) 0) = drop n x"
    using assms by (intro nth_equalityI) simp_all
  finally show ?thesis using assms by (simp add: xorbuf_map2 blit_def)
qed

lemma GHASH_data_padded:
  assumes "length h = 16" "length x = 16" "length c < 2 ^ 32"
  shows "\<exists>x'. GHASH_data ok h x (c @ rest) (of_nat (length c)) = Some x' \<and> length x' = 16
    \<and> blk x' = foldl (ghash_step (blk h)) (blk x) (map blk (chunks 16 (pad16 c)))"
proof -
  let ?n = "length c div 16" and ?p = "length c mod 16"
  have u: "unat (of_nat (length c) :: u32) = length c"
    using assms(3) by (simp only: unat_of_nat) simp
  have n: "unat ((of_nat (length c) :: u32) div 16) = ?n" by (simp add: unat_div u)
  have p: "unat ((of_nat (length c) :: u32) mod 16) = ?p" by (simp add: unat_mod u)
  have z: "(of_nat (length c) :: u32) \<noteq> 0 \<longleftrightarrow> c \<noteq> []"
    using u unat_eq_zero [of "of_nat (length c) :: u32"] by simp
  let ?c = "take (16 * ?n) c" and ?t = "drop (16 * ?n) c"
  have lc: "length ?c = 16 * ?n" and lt: "length ?t = ?p"
    by (simp_all add: minus_mult_div_eq_mod)
  obtain y where y: "GHASH_blocks ok h x (c @ rest) ?n = Some (y, ?t @ rest)" "length y = 16"
      "blk y = foldl (ghash_step (blk h)) (blk x) (map blk (chunks 16 ?c))"
    using GHASH_blocks_chunks [OF assms(1,2) lc, of ok "?t @ rest"] by (auto simp flip: append_assoc)
  have ch: "chunks 16 (pad16 c) = chunks 16 ?c @ chunks 16 (?t @ replicate ((16 - ?p) mod 16) 0)"
    unfolding pad16_def using chunks_exact_append [of 16 ?c "?t @ replicate ((16 - ?p) mod 16) 0"] lc
    by (simp flip: append_assoc)
  show ?thesis
  proof (cases "?p = 0")
    case True
    then show ?thesis
      using y ch lt by (auto simp: GHASH_data_def z n p chunks.simps assms(2))
  next
    case False
    then have ne: "c \<noteq> []" and 16: "?p < 16" "(16 - ?p) mod 16 = 16 - ?p" by auto
    define t where "t = ?t @ replicate (16 - ?p) 0"
    have t: "length t = 16" using lt 16 by (simp add: t_def)
    have xt: "xorbuf y 0 (Outside (?t @ rest)) ?p = map2 (XOR) y t"
      unfolding t_def by (rule xor_short_block [OF y(2) lt 16(1)])
    obtain R where R: "GMULT (map2 (XOR) y t) h = Some R" "length R = 16"
        "blk R = gcm_mult (blk y XOR blk t) (blk h)"
      using GMULT_some [of "map2 (XOR) y t" h] assms(1) y(2) t blk_xor [OF y(2) t] by auto
    have "GHASH_data ok h x (c @ rest) (of_nat (length c)) = Some R"
      using False ne y(1) R(1) by (simp add: GHASH_data_def z n p xt)
    then show ?thesis
      using R y(3) ch 16(2) chunks_one [of 16 t] t by (simp add: t_def [symmetric])
  qed
qed

lemma bswap_short: "store64 (SWAP_BE64 (ucast v)) = replicate 4 0 @ store32 (SWAP_BE32 v)"
proof -
  have b0: "bswap32 0 = 0" by (simp add: bswap32_def)
  have "ucast (ucast v :: u64) = v" "ucast (drop_bit 32 (ucast v :: u64)) = (0 :: u32)"
    by (rule bit_word_eqI; auto simp: bit_simps dest: bit_imp_le_length)+
  then have s: "SWAP_BE64 (ucast v) = push_bit 32 (ucast (bswap32 v))"
    by (simp add: SWAP_BE64_def BB_BIG_ENDIAN_def bswap64_def b0)
  have "ucast (push_bit 32 (ucast w :: u64)) = (0 :: u32)"
      "ucast (drop_bit 32 (push_bit 32 (ucast w :: u64))) = w" for w :: u32
    by (rule bit_word_eqI; auto simp: bit_simps dest: bit_imp_le_length)+
  then show ?thesis unfolding s store64_def
    by (simp add: SWAP_BE32_def BB_BIG_ENDIAN_def store32_def numeral_eq_Suc)
qed

lemma store32_xor: "store32 (v XOR w) = map2 (XOR) (store32 v) (store32 w)"
  by (simp add: store32_def unsigned_xor_eq)

text \<open>The two words of the lengths are the last block, its other half being zero.\<close>

lemma xor_lengths:
  assumes "length x = 16"
  shows "(let x = blit x 4 (store32 (load32 x 1 XOR SWAP_BE32 v));
              x = blit x 12 (store32 (load32 x 3 XOR SWAP_BE32 w)) in x)
    = map2 (XOR) x (store64 (SWAP_BE64 (ucast v)) @ store64 (SWAP_BE64 (ucast w)))"
proof -
  obtain b0 b1 b2 b3 b4 b5 b6 b7 b8 b9 b10 b11 b12 b13 b14 b15 where
    x: "x = [b0, b1, b2, b3, b4, b5, b6, b7, b8, b9, b10, b11, b12, b13, b14, b15]"
    using list16 [OF assms] by blast
  obtain v0 v1 v2 v3 where v: "store32 (SWAP_BE32 v) = [v0, v1, v2, v3]" by (simp add: store32_def)
  obtain w0 w1 w2 w3 where w: "store32 (SWAP_BE32 w) = [w0, w1, w2, w3]" by (simp add: store32_def)
  show ?thesis
    unfolding x bswap_short store32_xor v w
    by (simp add: Let_def load32_def blit_def store32_le32 numeral_eq_Suc)
qed

lemma ucast_of_nat: "m < 2 ^ 32 \<Longrightarrow> (ucast (of_nat m :: u32) :: u64) = of_nat m"
  by (rule word_unat_eq_iff [THEN iffD2]) (simp add: unat_ucast_up unat_of_nat take_bit_eq_mod)

lemma aesgcm_GHASH_blocks:
  assumes "length h = 16" "length aad = 13" "length c < 2 ^ 29"
  shows "\<exists>s. aesgcm_GHASH unaligned_ok h (aad @ [0, 0, 0]) (c @ rest) (of_nat (length c)) = Some s
    \<and> length s = 16 \<and> blk s = gcm_ghash (blk h) (gcm_blocks aad c)"
proof -
  let ?a = "aad @ [0, 0, 0]" and ?n = "of_nat (length c) :: u32"
  have "replicate 3 (0 :: u8) = [0, 0, 0]" by code_simp
  then have "pad16 aad = ?a" using assms(2) by (simp add: pad16_def)
  then have a: "length ?a = 16" "chunks 16 (pad16 aad) = [?a]"
    using assms(2) chunks_one [of 16 ?a] by simp_all
  obtain x where x: "GMULT ?a h = Some x" "length x = 16" "blk x = gcm_mult (blk ?a) (blk h)"
    using GMULT_some [OF a(1) assms(1)] .
  have "length c < 2 ^ 32" using assms(3) by simp
  then obtain y where y: "GHASH_data unaligned_ok h x (c @ rest) ?n = Some y" "length y = 16"
      "blk y = foldl (ghash_step (blk h)) (blk x) (map blk (chunks 16 (pad16 c)))"
    using GHASH_data_padded [OF assms(1) x(2)] by blast
  let ?l = "store64 (SWAP_BE64 (ucast (aSz * 8))) @ store64 (SWAP_BE64 (ucast (?n * 8)))"
  have l: "blk ?l = join64 (of_nat (8 * length aad)) (of_nat (8 * length c))"
    using ucast_of_nat [of "8 * length c"] ucast_of_nat [of 104] assms(2,3)
    by (simp add: blk_store_be64 aSz_def mult.commute)
  obtain s where s: "GMULT (map2 (XOR) y ?l) h = Some s" "length s = 16"
      "blk s = gcm_mult (blk y XOR blk ?l) (blk h)"
    using GMULT_some [of "map2 (XOR) y ?l" h] assms(1) y(2) blk_xor [OF y(2), of ?l] by auto
  have "aesgcm_GHASH unaligned_ok h ?a (c @ rest) ?n = Some s"
    using xor_lengths [OF y(2), of "aSz * 8" "?n * 8"] s(1) x(1) y(1) a(1)
    by (simp add: aesgcm_GHASH_def AES_BLOCK_SIZE_def Let_def)
  then show ?thesis
    using s(2,3) x(3) y(3) l by (simp add: gcm_ghash_def gcm_blocks_def a(2))
qed

text \<open>
  Property C17. For additional data of thirteen bytes in its zero-padded buffer and a ciphertext
  shorter than half a gigabyte, \<open>aesgcm_GHASH\<close> returns, whichever way it accesses memory,
  the GHASH of SP 800-38D of the padded additional data, the padded ciphertext and the lengths.
\<close>

theorem aesgcm_GHASH_sp800:
  assumes "length h = 16" "length aad = 13" "length c < 2 ^ 29"
  shows "\<exists>s. aesgcm_GHASH unaligned_ok h (aad @ [0, 0, 0]) c (of_nat (length c)) = Some s
    \<and> length s = 16 \<and> blk s = gcm_ghash (blk h) (gcm_blocks aad c)"
  using aesgcm_GHASH_blocks [OF assms, of unaligned_ok "[]"] by simp

lemma aesgcm_GHASH_sp800_witness:
  "\<exists>s. aesgcm_GHASH True (replicate 16 0x66) (replicate 13 7 @ [0, 0, 0]) [1, 2, 3] 3 = Some s
    \<and> blk s = gcm_ghash (blk (replicate 16 0x66)) (gcm_blocks (replicate 13 7) [1, 2, 3])"
  using aesgcm_GHASH_sp800 [of "replicate 16 0x66" "replicate 13 7" "[1, 2, 3]" True] by auto

text \<open>
  Shifting a block with two 64-bit words and byte swaps is the byte-at-a-time algorithm the source
  keeps beside it.
\<close>

lemma RIGHTSHIFTX_is_generic:
  assumes "length x = 16"
  shows "RIGHTSHIFTX x = RIGHTSHIFTX_generic x"
proof -
  have "length (RIGHTSHIFTX_generic x) = 16" using assms by (simp add: RIGHTSHIFTX_generic_def)
  then show ?thesis
    using blk_RIGHTSHIFTX [OF assms] blk_RIGHTSHIFTX_generic [OF assms]
    by (intro blk_inject [THEN iffD1]) simp_all
qed

end
