(* ===== verification/Aes.thy ===== *)
theory Aes
  imports Prelude
begin

text \<open>
  The AES block cipher of the TLS client (\<open>networking/tls_aes.c\<close>): the key schedule, the
  four transformations of the state and their inverses, the encryption and decryption of a block
  and the CBC mode. The state is the array \<open>astate\<close> of sixteen unsigned words, each holding
  a byte, with the columns of the standard one after the other.
\<close>

section \<open>Tables\<close>

definition sbox :: "u8 list" where
  "sbox = concat [
    [0x63, 0x7c, 0x77, 0x7b, 0xf2, 0x6b, 0x6f, 0xc5],
    [0x30, 0x01, 0x67, 0x2b, 0xfe, 0xd7, 0xab, 0x76],
    [0xca, 0x82, 0xc9, 0x7d, 0xfa, 0x59, 0x47, 0xf0],
    [0xad, 0xd4, 0xa2, 0xaf, 0x9c, 0xa4, 0x72, 0xc0],
    [0xb7, 0xfd, 0x93, 0x26, 0x36, 0x3f, 0xf7, 0xcc],
    [0x34, 0xa5, 0xe5, 0xf1, 0x71, 0xd8, 0x31, 0x15],
    [0x04, 0xc7, 0x23, 0xc3, 0x18, 0x96, 0x05, 0x9a],
    [0x07, 0x12, 0x80, 0xe2, 0xeb, 0x27, 0xb2, 0x75],
    [0x09, 0x83, 0x2c, 0x1a, 0x1b, 0x6e, 0x5a, 0xa0],
    [0x52, 0x3b, 0xd6, 0xb3, 0x29, 0xe3, 0x2f, 0x84],
    [0x53, 0xd1, 0x00, 0xed, 0x20, 0xfc, 0xb1, 0x5b],
    [0x6a, 0xcb, 0xbe, 0x39, 0x4a, 0x4c, 0x58, 0xcf],
    [0xd0, 0xef, 0xaa, 0xfb, 0x43, 0x4d, 0x33, 0x85],
    [0x45, 0xf9, 0x02, 0x7f, 0x50, 0x3c, 0x9f, 0xa8],
    [0x51, 0xa3, 0x40, 0x8f, 0x92, 0x9d, 0x38, 0xf5],
    [0xbc, 0xb6, 0xda, 0x21, 0x10, 0xff, 0xf3, 0xd2],
    [0xcd, 0x0c, 0x13, 0xec, 0x5f, 0x97, 0x44, 0x17],
    [0xc4, 0xa7, 0x7e, 0x3d, 0x64, 0x5d, 0x19, 0x73],
    [0x60, 0x81, 0x4f, 0xdc, 0x22, 0x2a, 0x90, 0x88],
    [0x46, 0xee, 0xb8, 0x14, 0xde, 0x5e, 0x0b, 0xdb],
    [0xe0, 0x32, 0x3a, 0x0a, 0x49, 0x06, 0x24, 0x5c],
    [0xc2, 0xd3, 0xac, 0x62, 0x91, 0x95, 0xe4, 0x79],
    [0xe7, 0xc8, 0x37, 0x6d, 0x8d, 0xd5, 0x4e, 0xa9],
    [0x6c, 0x56, 0xf4, 0xea, 0x65, 0x7a, 0xae, 0x08],
    [0xba, 0x78, 0x25, 0x2e, 0x1c, 0xa6, 0xb4, 0xc6],
    [0xe8, 0xdd, 0x74, 0x1f, 0x4b, 0xbd, 0x8b, 0x8a],
    [0x70, 0x3e, 0xb5, 0x66, 0x48, 0x03, 0xf6, 0x0e],
    [0x61, 0x35, 0x57, 0xb9, 0x86, 0xc1, 0x1d, 0x9e],
    [0xe1, 0xf8, 0x98, 0x11, 0x69, 0xd9, 0x8e, 0x94],
    [0x9b, 0x1e, 0x87, 0xe9, 0xce, 0x55, 0x28, 0xdf],
    [0x8c, 0xa1, 0x89, 0x0d, 0xbf, 0xe6, 0x42, 0x68],
    [0x41, 0x99, 0x2d, 0x0f, 0xb0, 0x54, 0xbb, 0x16]]"

definition rsbox :: "u8 list" where
  "rsbox = concat [
    [0x52, 0x09, 0x6a, 0xd5, 0x30, 0x36, 0xa5, 0x38],
    [0xbf, 0x40, 0xa3, 0x9e, 0x81, 0xf3, 0xd7, 0xfb],
    [0x7c, 0xe3, 0x39, 0x82, 0x9b, 0x2f, 0xff, 0x87],
    [0x34, 0x8e, 0x43, 0x44, 0xc4, 0xde, 0xe9, 0xcb],
    [0x54, 0x7b, 0x94, 0x32, 0xa6, 0xc2, 0x23, 0x3d],
    [0xee, 0x4c, 0x95, 0x0b, 0x42, 0xfa, 0xc3, 0x4e],
    [0x08, 0x2e, 0xa1, 0x66, 0x28, 0xd9, 0x24, 0xb2],
    [0x76, 0x5b, 0xa2, 0x49, 0x6d, 0x8b, 0xd1, 0x25],
    [0x72, 0xf8, 0xf6, 0x64, 0x86, 0x68, 0x98, 0x16],
    [0xd4, 0xa4, 0x5c, 0xcc, 0x5d, 0x65, 0xb6, 0x92],
    [0x6c, 0x70, 0x48, 0x50, 0xfd, 0xed, 0xb9, 0xda],
    [0x5e, 0x15, 0x46, 0x57, 0xa7, 0x8d, 0x9d, 0x84],
    [0x90, 0xd8, 0xab, 0x00, 0x8c, 0xbc, 0xd3, 0x0a],
    [0xf7, 0xe4, 0x58, 0x05, 0xb8, 0xb3, 0x45, 0x06],
    [0xd0, 0x2c, 0x1e, 0x8f, 0xca, 0x3f, 0x0f, 0x02],
    [0xc1, 0xaf, 0xbd, 0x03, 0x01, 0x13, 0x8a, 0x6b],
    [0x3a, 0x91, 0x11, 0x41, 0x4f, 0x67, 0xdc, 0xea],
    [0x97, 0xf2, 0xcf, 0xce, 0xf0, 0xb4, 0xe6, 0x73],
    [0x96, 0xac, 0x74, 0x22, 0xe7, 0xad, 0x35, 0x85],
    [0xe2, 0xf9, 0x37, 0xe8, 0x1c, 0x75, 0xdf, 0x6e],
    [0x47, 0xf1, 0x1a, 0x71, 0x1d, 0x29, 0xc5, 0x89],
    [0x6f, 0xb7, 0x62, 0x0e, 0xaa, 0x18, 0xbe, 0x1b],
    [0xfc, 0x56, 0x3e, 0x4b, 0xc6, 0xd2, 0x79, 0x20],
    [0x9a, 0xdb, 0xc0, 0xfe, 0x78, 0xcd, 0x5a, 0xf4],
    [0x1f, 0xdd, 0xa8, 0x33, 0x88, 0x07, 0xc7, 0x31],
    [0xb1, 0x12, 0x10, 0x59, 0x27, 0x80, 0xec, 0x5f],
    [0x60, 0x51, 0x7f, 0xa9, 0x19, 0xb5, 0x4a, 0x0d],
    [0x2d, 0xe5, 0x7a, 0x9f, 0x93, 0xc9, 0x9c, 0xef],
    [0xa0, 0xe0, 0x3b, 0x4d, 0xae, 0x2a, 0xf5, 0xb0],
    [0xc8, 0xeb, 0xbb, 0x3c, 0x83, 0x53, 0x99, 0x61],
    [0x17, 0x2b, 0x04, 0x7e, 0xba, 0x77, 0xd6, 0x26],
    [0xe1, 0x69, 0x14, 0x63, 0x55, 0x21, 0x0c, 0x7d]]"

section \<open>The key schedule\<close>

definition Subword :: "u32 \<Rightarrow> u32" where
  "Subword x =
     push_bit 24 (ucast (sbox ! unat (drop_bit 24 x)))
     OR push_bit 16 (ucast (sbox ! unat (drop_bit 16 x AND 255)))
     OR push_bit 8 (ucast (sbox ! unat (drop_bit 8 x AND 255)))
     OR ucast (sbox ! unat (x AND 255))"

definition Rcon :: "u8 list" where
  "Rcon = [0x01, 0x02, 0x04, 0x08, 0x10] @ [0x20, 0x40, 0x80, 0x1b, 0x36]"

record tls_aes =
  aes_key :: "u32 list"
  aes_rounds :: u32

text \<open>The body of the loop over \<open>i\<close>, on the array and the counters \<open>j\<close> and \<open>k\<close>.\<close>

definition KeyExpansion_step ::
  "nat \<Rightarrow> u32 list \<times> nat \<times> nat \<Rightarrow> nat \<Rightarrow> u32 list \<times> nat \<times> nat" where
  "KeyExpansion_step words_key = (\<lambda>(RoundKey, j, k) i.
     let tempa = RoundKey ! (i - 1);
         tempa =
           (if j = 0
            then (let tempa = push_bit 8 tempa OR drop_bit 24 tempa;
                      tempa = Subword tempa
                  in tempa XOR push_bit 24 (ucast (Rcon ! k)))
            else if words_key > 6 \<and> j = 4 then Subword tempa
            else tempa);
         RoundKey = RoundKey[i := RoundKey ! (i - words_key) XOR tempa];
         j = j + 1
     in if j = words_key then (RoundKey, 0, k + 1) else (RoundKey, j, k))"

definition KeyExpansion :: "u32 list \<Rightarrow> bytes \<Rightarrow> nat \<Rightarrow> u32 list \<times> nat" where
  "KeyExpansion RoundKey key key_len =
     (let words_key = key_len div 4;
          rounds = 6 + key_len div 4;
          words_RoundKey = 28 + key_len;
          RoundKey = foldl (\<lambda>RoundKey i. RoundKey[i := SWAP_BE32 (load32 key i)]) RoundKey
                       [0..<words_key];
          (RoundKey, j, k) = foldl (KeyExpansion_step words_key) (RoundKey, 0, 0)
                               [words_key..<words_RoundKey]
      in (RoundKey, rounds))"

section \<open>The transformations of the state\<close>

type_synonym aes_state = "u32 list"

text \<open>\<open>RoundKeys\<close> is the array from the pointer on.\<close>

definition AddRoundKey :: "aes_state \<Rightarrow> u32 list \<Rightarrow> aes_state" where
  "AddRoundKey astate RoundKeys =
     fst (foldl (\<lambda>(astate, RoundKeys) i.
       let n = hd RoundKeys;
           astate = astate[i + 0 := astate ! (i + 0) XOR drop_bit 24 n];
           astate = astate[i + 1 := astate ! (i + 1) XOR (drop_bit 16 n AND 255)];
           astate = astate[i + 2 := astate ! (i + 2) XOR (drop_bit 8 n AND 255)];
           astate = astate[i + 3 := astate ! (i + 3) XOR (n AND 255)]
       in (astate, tl RoundKeys)) (astate, RoundKeys) [0, 4, 8, 12])"

definition SubBytes :: "aes_state \<Rightarrow> aes_state" where
  "SubBytes astate = map (\<lambda>a. ucast (sbox ! unat a)) astate"

definition InvSubBytes :: "aes_state \<Rightarrow> aes_state" where
  "InvSubBytes astate = map (\<lambda>a. ucast (rsbox ! unat a)) astate"

definition ASTATE :: "nat \<Rightarrow> nat \<Rightarrow> nat" where
  "ASTATE col row = col * 4 + row"

text \<open>The assignments of one rotated row, the last one from the saved word \<open>v\<close>.\<close>

definition ShiftRows :: "aes_state \<Rightarrow> aes_state" where
  "ShiftRows astate =
     (let v = astate ! ASTATE 0 1;
          astate = astate[ASTATE 0 1 := astate ! ASTATE 1 1];
          astate = astate[ASTATE 1 1 := astate ! ASTATE 2 1];
          astate = astate[ASTATE 2 1 := astate ! ASTATE 3 1];
          astate = astate[ASTATE 3 1 := v];
          v = astate ! ASTATE 0 2;
          astate = astate[ASTATE 0 2 := astate ! ASTATE 2 2];
          astate = astate[ASTATE 2 2 := v];
          v = astate ! ASTATE 1 2;
          astate = astate[ASTATE 1 2 := astate ! ASTATE 3 2];
          astate = astate[ASTATE 3 2 := v];
          v = astate ! ASTATE 3 3;
          astate = astate[ASTATE 3 3 := astate ! ASTATE 2 3];
          astate = astate[ASTATE 2 3 := astate ! ASTATE 1 3];
          astate = astate[ASTATE 1 3 := astate ! ASTATE 0 3];
          astate = astate[ASTATE 0 3 := v]
      in astate)"

definition InvShiftRows :: "aes_state \<Rightarrow> aes_state" where
  "InvShiftRows astate =
     (let v = astate ! ASTATE 3 1;
          astate = astate[ASTATE 3 1 := astate ! ASTATE 2 1];
          astate = astate[ASTATE 2 1 := astate ! ASTATE 1 1];
          astate = astate[ASTATE 1 1 := astate ! ASTATE 0 1];
          astate = astate[ASTATE 0 1 := v];
          v = astate ! ASTATE 0 2;
          astate = astate[ASTATE 0 2 := astate ! ASTATE 2 2];
          astate = astate[ASTATE 2 2 := v];
          v = astate ! ASTATE 1 2;
          astate = astate[ASTATE 1 2 := astate ! ASTATE 3 2];
          astate = astate[ASTATE 3 2 := v];
          v = astate ! ASTATE 0 3;
          astate = astate[ASTATE 0 3 := astate ! ASTATE 1 3];
          astate = astate[ASTATE 1 3 := astate ! ASTATE 2 3];
          astate = astate[ASTATE 2 3 := astate ! ASTATE 3 3];
          astate = astate[ASTATE 3 3 := v]
      in astate)"

text \<open>The four new words of a column; the negation is of the word converted to \<open>int\<close>.\<close>

definition mix_reduce :: "u32 \<Rightarrow> u32" where
  "mix_reduce x = x XOR ((- drop_bit 8 x) AND 0x11b)"

definition mix_column :: "u32 \<Rightarrow> u32 \<Rightarrow> u32 \<Rightarrow> u32 \<Rightarrow> u32 list" where
  "mix_column a b c d =
     (let x = push_bit 1 a XOR b XOR push_bit 1 b XOR c XOR d;
          y = a XOR push_bit 1 b XOR c XOR push_bit 1 c XOR d;
          z = a XOR b XOR push_bit 1 c XOR d XOR push_bit 1 d;
          t = a XOR push_bit 1 a XOR b XOR c XOR push_bit 1 d
      in [mix_reduce x, mix_reduce y, mix_reduce z, mix_reduce t])"

definition MixColumns :: "aes_state \<Rightarrow> aes_state" where
  "MixColumns astate = foldl (\<lambda>astate i.
     blit astate i (mix_column (astate ! (i + 0)) (astate ! (i + 1)) (astate ! (i + 2))
       (astate ! (i + 3)))) astate [0, 4, 8, 12]"

definition Multiply :: "u32 \<Rightarrow> u32" where
  "Multiply x =
     (let y = drop_bit 8 x
      in (x XOR y XOR push_bit 1 y XOR push_bit 3 y XOR push_bit 4 y) AND 255)"

definition inv_mix_column :: "u32 \<Rightarrow> u32 \<Rightarrow> u32 \<Rightarrow> u32 \<Rightarrow> u32 list" where
  "inv_mix_column a b c d =
     (let x = push_bit 1 a XOR push_bit 2 a XOR push_bit 3 a XOR b XOR push_bit 1 b
            XOR push_bit 3 b XOR c XOR push_bit 2 c XOR push_bit 3 c XOR d XOR push_bit 3 d;
          y = a XOR push_bit 3 a XOR push_bit 1 b XOR push_bit 2 b XOR push_bit 3 b
            XOR c XOR push_bit 1 c XOR push_bit 3 c XOR d XOR push_bit 2 d XOR push_bit 3 d;
          z = a XOR push_bit 2 a XOR push_bit 3 a XOR b XOR push_bit 3 b
            XOR push_bit 1 c XOR push_bit 2 c XOR push_bit 3 c XOR d XOR push_bit 1 d
            XOR push_bit 3 d;
          t = a XOR push_bit 1 a XOR push_bit 3 a XOR b XOR push_bit 2 b XOR push_bit 3 b
            XOR c XOR push_bit 3 c XOR push_bit 1 d XOR push_bit 2 d XOR push_bit 3 d
      in [Multiply x, Multiply y, Multiply z, Multiply t])"

definition InvMixColumns :: "aes_state \<Rightarrow> aes_state" where
  "InvMixColumns astate = foldl (\<lambda>astate i.
     blit astate i (inv_mix_column (astate ! (i + 0)) (astate ! (i + 1)) (astate ! (i + 2))
       (astate ! (i + 3)))) astate [0, 4, 8, 12]"

section \<open>One block\<close>

text \<open>The endless loop with its exit in the middle; \<open>rounds\<close> is decremented first.\<close>

lemma unat_pred_less: "(w::u32) \<noteq> 0 \<Longrightarrow> unat (w - 1) < unat w"
  by (simp add: unat_minus_one unat_gt_0)

function aes_encrypt_loop :: "u32 \<Rightarrow> u32 list \<Rightarrow> aes_state \<Rightarrow> aes_state" where
  "aes_encrypt_loop rounds RoundKey astate =
     (let astate = AddRoundKey astate RoundKey;
          RoundKey = drop 4 RoundKey;
          astate = ShiftRows (SubBytes astate);
          rounds = rounds - 1
      in if rounds = 0 then AddRoundKey astate RoundKey
         else aes_encrypt_loop rounds RoundKey (MixColumns astate))"
  by pat_completeness auto
termination
proof (relation "measure (\<lambda>(rounds, RoundKey, astate). unat (rounds - 1))")
  fix rounds rounds' :: u32 and RoundKey RoundKey' astate astate'
  assume e: "rounds' = rounds - 1" and n: "rounds' \<noteq> 0"
  then show "((rounds', RoundKey', MixColumns astate'), rounds, RoundKey, astate)
      \<in> measure (\<lambda>(rounds, RoundKey, astate). unat (rounds - 1))"
    unfolding in_measure prod.case e [symmetric] by (intro unat_pred_less)
qed simp

declare aes_encrypt_loop.simps [simp del]

definition aes_encrypt_1 :: "tls_aes \<Rightarrow> aes_state \<Rightarrow> aes_state" where
  "aes_encrypt_1 aes astate = aes_encrypt_loop (aes_rounds aes) (aes_key aes) astate"

function aes_decrypt_loop :: "u32 \<Rightarrow> u32 list \<Rightarrow> nat \<Rightarrow> aes_state \<Rightarrow> aes_state" where
  "aes_decrypt_loop rounds RoundKey p astate =
     (let astate = InvSubBytes (InvShiftRows astate);
          p = p - 4;
          astate = AddRoundKey astate (drop p RoundKey);
          rounds = rounds - 1
      in if rounds = 0 then astate
         else aes_decrypt_loop rounds RoundKey p (InvMixColumns astate))"
  by pat_completeness auto
termination
proof (relation "measure (\<lambda>(rounds, RoundKey, p, astate). unat (rounds - 1))")
  fix rounds rounds' :: u32 and RoundKey p p' and astate astate' astate''
  assume e: "rounds' = rounds - 1" and n: "rounds' \<noteq> 0"
  then show "((rounds', RoundKey, p', InvMixColumns astate''), rounds, RoundKey, p, astate)
      \<in> measure (\<lambda>(rounds, RoundKey, p, astate). unat (rounds - 1))"
    unfolding in_measure prod.case e [symmetric] by (intro unat_pred_less)
qed simp

declare aes_decrypt_loop.simps [simp del]

definition aes_decrypt_1 :: "tls_aes \<Rightarrow> aes_state \<Rightarrow> aes_state" where
  "aes_decrypt_1 aes astate =
     (let p = unat (aes_rounds aes * 4);
          astate = AddRoundKey astate (drop p (aes_key aes))
      in aes_decrypt_loop (aes_rounds aes) (aes_key aes) p astate)"

definition aes_setkey :: "tls_aes \<Rightarrow> bytes \<Rightarrow> nat \<Rightarrow> tls_aes" where
  "aes_setkey aes k key_len =
     (let (RoundKey, n) = KeyExpansion (aes_key aes) k key_len
      in aes\<lparr>aes_key := RoundKey, aes_rounds := of_nat n\<rparr>)"

definition aes_encrypt_one_block :: "tls_aes \<Rightarrow> bytes \<Rightarrow> bytes" where
  "aes_encrypt_one_block aes pt = map ucast (aes_encrypt_1 aes (map ucast (take 16 pt)))"

section \<open>Cipher block chaining\<close>

text \<open>
  The length is a \<open>size_t\<close> that is decreased by 16 whatever it is; \<open>None\<close> is a read
  beyond the end of the data.
\<close>

function aes_cbc_encrypt_loop :: "tls_aes \<Rightarrow> bytes \<Rightarrow> bytes \<Rightarrow> u64 \<Rightarrow> bytes option" where
  "aes_cbc_encrypt_loop aes iv2 pt len =
     (if len > 0
      then if length pt < 16 then None
           else (let astate = map2 (\<lambda>p v. ucast (p XOR v)) (take 16 pt) iv2;
                     astate = aes_encrypt_1 aes astate;
                     ct = map ucast astate
                 in map_option (\<lambda>r. ct @ r) (aes_cbc_encrypt_loop aes ct (drop 16 pt) (len - 16)))
      else Some [])"
  by pat_completeness auto
termination
  by (relation "measure (\<lambda>(aes, iv2, pt, len). length pt)") auto

declare aes_cbc_encrypt_loop.simps [simp del]

definition aes_cbc_encrypt :: "tls_aes \<Rightarrow> bytes \<Rightarrow> bytes \<Rightarrow> u64 \<Rightarrow> bytes option" where
  "aes_cbc_encrypt aes iv pt len = aes_cbc_encrypt_loop aes (take 16 iv) pt len"

text \<open>
  The decryption keeps the previous ciphertext block in one of the two buffers \<open>iv2\<close> and
  \<open>iv3\<close>, the flag saying that \<open>ivbuf\<close> points to \<open>iv2\<close>, while the next one is read
  into the other.
\<close>

function aes_cbc_decrypt_loop ::
  "tls_aes \<Rightarrow> bytes \<Rightarrow> bytes \<Rightarrow> bool \<Rightarrow> bytes \<Rightarrow> u64 \<Rightarrow> bytes option" where
  "aes_cbc_decrypt_loop aes iv2 iv3 in_iv2 ct len =
     (if len \<noteq> 0
      then if length ct < 16 then None
           else (let ivbuf = (if in_iv2 then iv2 else iv3);
                     ivnext = take 16 ct;
                     astate = aes_decrypt_1 aes (map ucast (take 16 ct));
                     pt = map2 (\<lambda>a v. ucast (a XOR ucast v)) astate ivbuf;
                     (iv2, iv3) = (if in_iv2 then (iv2, ivnext) else (ivnext, iv3))
                 in map_option (\<lambda>r. pt @ r)
                      (aes_cbc_decrypt_loop aes iv2 iv3 (\<not> in_iv2) (drop 16 ct) (len - 16)))
      else Some [])"
  by pat_completeness auto
termination
  by (relation "measure (\<lambda>(aes, iv2, iv3, in_iv2, ct, len). length ct)") auto

declare aes_cbc_decrypt_loop.simps [simp del]

text \<open>\<open>iv3\<close> is not initialised; \<open>junk\<close> is what the stack holds.\<close>

definition aes_cbc_decrypt :: "tls_aes \<Rightarrow> bytes \<Rightarrow> bytes \<Rightarrow> bytes \<Rightarrow> u64 \<Rightarrow> bytes option" where
  "aes_cbc_decrypt aes junk iv ct len = aes_cbc_decrypt_loop aes (take 16 iv) junk True ct len"

end
