(* ===== verification/Aes_Sbox.thy ===== *)
theory Aes_Sbox
  imports Aes
begin

text \<open>
  The two S-box tables of the AES code against FIPS 197: multiplication in the field of the
  standard, the affine map, and the check of the 256 entries.
\<close>

section \<open>The field\<close>

definition xtime :: "u8 \<Rightarrow> u8" where
  "xtime b = push_bit 1 b XOR (if bit b 7 then 0x1b else 0)"

text \<open>\<open>{a}\<bullet>b\<close>: the sum of \<open>x^i\<bullet>b\<close> over the bits of \<open>a\<close>.\<close>

definition gf_mul :: "u8 \<Rightarrow> u8 \<Rightarrow> u8" where
  "gf_mul a b =
     fst (foldl (\<lambda>(s, p) i. (if bit a i then s XOR p else s, xtime p)) (0, b) [0..<8])"

definition fips_rotl :: "nat \<Rightarrow> u8 \<Rightarrow> u8" where
  "fips_rotl k b = push_bit k b OR drop_bit (8 - k) b"

definition sbox_affine :: "u8 \<Rightarrow> u8" where
  "sbox_affine b = b XOR fips_rotl 1 b XOR fips_rotl 2 b XOR fips_rotl 3 b XOR fips_rotl 4 b XOR 0x63"

section \<open>The S-boxes\<close>

definition sbox_check :: "u8 \<Rightarrow> u8 \<Rightarrow> bool" where
  "sbox_check x y \<longleftrightarrow> sbox ! unat x = sbox_affine y \<and> (if x = 0 then y = 0 else gf_mul x y = 1)"

lemma upt_0_8: "[0..<8::nat] = [0, 1, 2, 3, 4, 5, 6, 7]"
  by code_simp

definition inverses :: "u8 list" where
  "inverses = concat [
    [0, 1, 141, 246, 203, 82, 123, 209],
    [232, 79, 41, 192, 176, 225, 229, 199],
    [116, 180, 170, 75, 153, 43, 96, 95],
    [88, 63, 253, 204, 255, 64, 238, 178],
    [58, 110, 90, 241, 85, 77, 168, 201],
    [193, 10, 152, 21, 48, 68, 162, 194],
    [44, 69, 146, 108, 243, 57, 102, 66],
    [242, 53, 32, 111, 119, 187, 89, 25],
    [29, 254, 55, 103, 45, 49, 245, 105],
    [167, 100, 171, 19, 84, 37, 233, 9],
    [237, 92, 5, 202, 76, 36, 135, 191],
    [24, 62, 34, 240, 81, 236, 97, 23],
    [22, 94, 175, 211, 73, 166, 54, 67],
    [244, 71, 145, 223, 51, 147, 33, 59],
    [121, 183, 151, 133, 16, 181, 186, 60],
    [182, 112, 208, 6, 161, 250, 129, 130],
    [131, 126, 127, 128, 150, 115, 190, 86],
    [155, 158, 149, 217, 247, 2, 185, 164],
    [222, 106, 50, 109, 216, 138, 132, 114],
    [42, 20, 159, 136, 249, 220, 137, 154],
    [251, 124, 46, 195, 143, 184, 101, 72],
    [38, 200, 18, 74, 206, 231, 210, 98],
    [12, 224, 31, 239, 17, 117, 120, 113],
    [165, 142, 118, 61, 189, 188, 134, 87],
    [11, 40, 47, 163, 218, 212, 228, 15],
    [169, 39, 83, 4, 27, 252, 172, 230],
    [122, 7, 174, 99, 197, 219, 226, 234],
    [148, 139, 196, 213, 157, 248, 144, 107],
    [177, 13, 214, 235, 198, 14, 207, 173],
    [8, 78, 215, 227, 93, 80, 30, 179],
    [91, 35, 56, 52, 104, 70, 3, 140],
    [221, 156, 125, 160, 205, 26, 65, 28]]"

definition gf_inverse :: "u8 \<Rightarrow> u8 \<Rightarrow> bool" where
  "gf_inverse x y \<longleftrightarrow> (if x = 0 then y = 0 else gf_mul x y = 1)"

text \<open>The tables are checked entry by entry, the argument counting up with the list.\<close>

fun check_sbox :: "u8 \<Rightarrow> u8 list \<Rightarrow> u8 list \<Rightarrow> bool" where
  "check_sbox x (s # ss) (y # ys) \<longleftrightarrow>
     s = sbox_affine y \<and> gf_inverse x y \<and> check_sbox (x + 1) ss ys"
| "check_sbox x ss ys \<longleftrightarrow> ss = [] \<and> ys = []"

fun counts_up :: "u8 \<Rightarrow> u8 list \<Rightarrow> bool" where
  "counts_up x [] = True"
| "counts_up x (b # bs) \<longleftrightarrow> b = x \<and> counts_up (x + 1) bs"

lemma check_sbox_inverses: "check_sbox 0 sbox inverses"
  by (simp add: sbox_def inverses_def sbox_affine_def gf_mul_def xtime_def fips_rotl_def upt_0_8
      gf_inverse_def)

lemma rsbox_counts: "counts_up 0 (map (\<lambda>b. rsbox ! unat b) sbox)"
  by (simp add: sbox_def rsbox_def)

lemma length_sbox: "length sbox = 256" "length rsbox = 256"
  by (simp_all add: sbox_def rsbox_def)

lemma check_sbox_nth:
  "check_sbox x ss ys \<Longrightarrow> i < length ss \<Longrightarrow> i < length ys \<and> ss ! i = sbox_affine (ys ! i)
    \<and> gf_inverse (x + of_nat i) (ys ! i)"
proof (induction x ss ys arbitrary: i rule: check_sbox.induct)
  case (1 x s ss y ys)
  then show ?case
    by (cases i) (auto simp: add.assoc)
qed auto

lemma counts_up_nth: "counts_up x bs \<Longrightarrow> i < length bs \<Longrightarrow> bs ! i = x + of_nat i"
proof (induction x bs arbitrary: i rule: counts_up.induct)
  case (2 x b bs)
  then show ?case by (cases i) (auto simp: add.assoc)
qed simp

lemma u8_less: "unat (b::u8) < 256"
proof -
  have "unat b < 2 ^ LENGTH(8)" by (rule unsigned_less)
  then show ?thesis by simp
qed

lemma rsbox_sbox [simp]: "rsbox ! unat (sbox ! unat b) = b"
  using counts_up_nth [OF rsbox_counts, of "unat b"] u8_less [of b] by (simp add: length_sbox)

text \<open>
  Property C39. The S-box of the code is the one FIPS 197 defines, the affine image of the inverse
  in the field with zero kept, and the inverse S-box undoes it.
\<close>

theorem sbox_is_affine_inverse:
  "(\<exists>y. gf_inverse b y \<and> sbox ! unat b = sbox_affine y) \<and> rsbox ! unat (sbox ! unat b) = b"
proof -
  have "gf_inverse b (inverses ! unat b) \<and> sbox ! unat b = sbox_affine (inverses ! unat b)"
    using check_sbox_nth [OF check_sbox_inverses, of "unat b"] u8_less [of b]
    by (simp add: length_sbox)
  then show ?thesis using rsbox_sbox by blast
qed

end
