(* ===== verification/Aes_Fips.thy ===== *)
theory Aes_Fips
  imports Aes_Sbox
begin

text \<open>
  The AES code against FIPS 197: the cipher of the standard on bytes, the proof that the
  word-sized transformations, the key schedule and the two block functions compute it, and that
  decryption undoes encryption, for one block and for a chain of blocks.
\<close>

section \<open>The cipher of the standard\<close>

type_synonym fips_state = "u8 list"

definition fips_sub_bytes :: "fips_state \<Rightarrow> fips_state" where
  "fips_sub_bytes s = map (\<lambda>b. sbox ! unat b) s"

definition fips_inv_sub_bytes :: "fips_state \<Rightarrow> fips_state" where
  "fips_inv_sub_bytes s = map (\<lambda>b. rsbox ! unat b) s"

text \<open>Element \<open>r + 4 * c\<close> of the list is row \<open>r\<close> of column \<open>c\<close>.\<close>

definition fips_shift_rows :: "fips_state \<Rightarrow> fips_state" where
  "fips_shift_rows s = map (\<lambda>i. let r = i mod 4; c = i div 4 in s ! (r + 4 * ((c + r) mod 4))) [0..<16]"

definition fips_inv_shift_rows :: "fips_state \<Rightarrow> fips_state" where
  "fips_inv_shift_rows s =
     map (\<lambda>i. let r = i mod 4; c = i div 4 in s ! (r + 4 * ((c + 4 - r) mod 4))) [0..<16]"

definition fips_mix :: "u8 list \<Rightarrow> fips_state \<Rightarrow> fips_state" where
  "fips_mix m s = map (\<lambda>i. let r = i mod 4; c = i div 4
     in gf_mul (m ! 0) (s ! (r + 4 * c)) XOR gf_mul (m ! 1) (s ! ((r + 1) mod 4 + 4 * c))
        XOR gf_mul (m ! 2) (s ! ((r + 2) mod 4 + 4 * c))
        XOR gf_mul (m ! 3) (s ! ((r + 3) mod 4 + 4 * c))) [0..<16]"

definition fips_mix_columns :: "fips_state \<Rightarrow> fips_state" where
  "fips_mix_columns = fips_mix [2, 3, 1, 1]"

definition fips_inv_mix_columns :: "fips_state \<Rightarrow> fips_state" where
  "fips_inv_mix_columns = fips_mix [0xe, 0xb, 0xd, 0x9]"

text \<open>A word of the key schedule as its four bytes.\<close>

definition word_byte :: "nat \<Rightarrow> u32 \<Rightarrow> u8" where
  "word_byte k w = ucast (drop_bit k w)"

definition word_bytes :: "u32 \<Rightarrow> u8 list" where
  "word_bytes w = [word_byte 24 w, word_byte 16 w, word_byte 8 w, word_byte 0 w]"

definition fips_add_round_key :: "u32 list \<Rightarrow> nat \<Rightarrow> fips_state \<Rightarrow> fips_state" where
  "fips_add_round_key w round s = map2 (XOR) s (concat (map word_bytes (take 4 (drop (4 * round) w))))"

definition fips_round :: "u32 list \<Rightarrow> fips_state \<Rightarrow> nat \<Rightarrow> fips_state" where
  "fips_round w s round =
     fips_add_round_key w round (fips_mix_columns (fips_shift_rows (fips_sub_bytes s)))"

definition fips_cipher :: "nat \<Rightarrow> u32 list \<Rightarrow> fips_state \<Rightarrow> fips_state" where
  "fips_cipher Nr w s =
     fips_add_round_key w Nr (fips_shift_rows (fips_sub_bytes
       (foldl (fips_round w) (fips_add_round_key w 0 s) [1..<Nr])))"

definition fips_inv_round :: "u32 list \<Rightarrow> fips_state \<Rightarrow> nat \<Rightarrow> fips_state" where
  "fips_inv_round w s round =
     fips_inv_mix_columns (fips_add_round_key w round (fips_inv_sub_bytes (fips_inv_shift_rows s)))"

definition fips_inv_cipher :: "nat \<Rightarrow> u32 list \<Rightarrow> fips_state \<Rightarrow> fips_state" where
  "fips_inv_cipher Nr w s =
     fips_add_round_key w 0 (fips_inv_sub_bytes (fips_inv_shift_rows
       (foldl (fips_inv_round w) (fips_add_round_key w Nr s) (rev [1..<Nr]))))"

section \<open>One column\<close>

declare push_bit_Suc [simp del] drop_bit_Suc [simp del]

lemma ucast_xor: "(ucast (a XOR b) :: u32) = ucast (a::u8) XOR ucast b"
  by (rule bit_word_eqI) (simp add: bit_simps)

lemma word_bits_eqI:
  assumes "\<And>n. n \<in> {0, 1, 2, 3, 4, 5, 6, 7, 8, 9, 10, 11, 12, 13, 14, 15, 16, 17, 18, 19, 20, 21, 22, 23, 24, 25, 26, 27,
      28, 29, 30, 31} \<Longrightarrow> bit a n = bit (b::u32) n"
  shows "a = b"
proof (rule bit_word_eqI)
  fix n assume "n < LENGTH(32)"
  then have "n \<in> {0, 1, 2, 3, 4, 5, 6, 7, 8, 9, 10, 11, 12, 13, 14, 15, 16, 17, 18, 19, 20, 21, 22, 23, 24, 25, 26, 27,
      28, 29, 30, 31}"
    by (auto simp: less_Suc_eq numeral_eq_Suc)
  then show "bit a n = bit b n" by (rule assms)
qed

lemma push_1_byte:
  "push_bit 1 (ucast (p::u8) :: u32) = ucast (push_bit 1 p) XOR (if bit p 7 then 0x100 else 0)"
  by (rule word_bits_eqI) (auto simp: bit_simps)

lemma mix_reduce_byte:
  "mix_reduce (push_bit 1 (ucast p) XOR ucast q) = ucast (xtime p XOR q)"
proof -
  have d: "drop_bit 8 (ucast (push_bit 1 p) XOR ucast q :: u32) = 0"
    by (rule bit_word_eqI) (auto simp: bit_simps)
  let ?x = "push_bit 1 (ucast p) XOR ucast q :: u32"
  show ?thesis
  proof (cases "bit p 7")
    case True
    then have x: "?x = (ucast (push_bit 1 p) XOR ucast q) XOR 0x100"
      by (simp only: push_1_byte if_True xor.assoc xor.commute xor.left_commute)
    then have "drop_bit 8 ?x = drop_bit 8 (ucast (push_bit 1 p) XOR ucast q) XOR drop_bit 8 0x100"
      using drop_bit_xor by metis
    then have "drop_bit 8 ?x = drop_bit 8 0x100" unfolding d by simp
    then have "drop_bit 8 ?x = 1" by simp
    then have "mix_reduce ?x = (ucast (push_bit 1 p) XOR ucast q) XOR (0x100 XOR 0x11b)"
      by (simp only: mix_reduce_def x) (simp add: xor.assoc)
    also have "\<dots> = ucast (push_bit 1 p XOR 0x1b XOR q)"
      by (simp add: ucast_xor xor.assoc xor.commute xor.left_commute)
    finally show ?thesis using True by (simp add: xtime_def xor.assoc)
  next
    case False
    then have x: "?x = ucast (push_bit 1 p) XOR ucast q"
      by (simp only: push_1_byte if_False xor.right_neutral)
    then have z: "drop_bit 8 ?x = 0" by (simp only: d)
    have "mix_reduce ?x = ?x" unfolding mix_reduce_def z by simp
    then show ?thesis using False x by (simp add: xtime_def ucast_xor)
  qed
qed

lemmas xor_ac = xor.assoc xor.commute xor.left_commute

lemma xtime_xor: "xtime (a XOR b) = xtime a XOR xtime b"
  by (auto simp: xtime_def bit_simps push_bit_xor xor_ac)

lemma Multiply_xor: "Multiply (x XOR y) = Multiply x XOR Multiply y"
  unfolding Multiply_def Let_def drop_bit_xor push_bit_xor
  by (simp only: bit.conj_xor_distrib2 [symmetric] xor_ac)

definition all_bytes :: "u8 list" where
  "all_bytes = [
     0, 1, 2, 3, 4, 5, 6, 7, 8, 9, 10, 11, 12, 13, 14, 15, 16, 17, 18, 19, 20, 21, 22, 23,
     24, 25, 26, 27, 28, 29, 30, 31, 32, 33, 34, 35, 36, 37, 38, 39, 40, 41, 42, 43, 44, 45,
     46, 47, 48, 49, 50, 51, 52, 53, 54, 55, 56, 57, 58, 59, 60, 61, 62, 63, 64, 65, 66, 67,
     68, 69, 70, 71, 72, 73, 74, 75, 76, 77, 78, 79, 80, 81, 82, 83, 84, 85, 86, 87, 88, 89,
     90, 91, 92, 93, 94, 95, 96, 97, 98, 99, 100, 101, 102, 103, 104, 105, 106, 107, 108,
     109, 110, 111, 112, 113, 114, 115, 116, 117, 118, 119, 120, 121, 122, 123, 124, 125,
     126, 127, 128, 129, 130, 131, 132, 133, 134, 135, 136, 137, 138, 139, 140, 141, 142,
     143, 144, 145, 146, 147, 148, 149, 150, 151, 152, 153, 154, 155, 156, 157, 158, 159,
     160, 161, 162, 163, 164, 165, 166, 167, 168, 169, 170, 171, 172, 173, 174, 175, 176,
     177, 178, 179, 180, 181, 182, 183, 184, 185, 186, 187, 188, 189, 190, 191, 192, 193,
     194, 195, 196, 197, 198, 199, 200, 201, 202, 203, 204, 205, 206, 207, 208, 209, 210,
     211, 212, 213, 214, 215, 216, 217, 218, 219, 220, 221, 222, 223, 224, 225, 226, 227,
     228, 229, 230, 231, 232, 233, 234, 235, 236, 237, 238, 239, 240, 241, 242, 243, 244,
     245, 246, 247, 248, 249, 250, 251, 252, 253, 254, 255]"

lemma all_bytes_list: "counts_up 0 all_bytes" "length all_bytes = 256"
  by (simp_all add: all_bytes_def)

lemma all_bytes_D:
  assumes "list_all P all_bytes"
  shows "P b"
proof -
  have "all_bytes ! unat b = b"
    using counts_up_nth [OF all_bytes_list(1), of "unat b"] u8_less [of b]
    by (simp add: all_bytes_list)
  then show ?thesis
    using assms u8_less [of b] by (metis all_bytes_list(2) list_all_length)
qed

definition Multiply_ok :: "u8 \<Rightarrow> bool" where
  "Multiply_ok p \<longleftrightarrow> Multiply (ucast p) = ucast p \<and> Multiply (push_bit 1 (ucast p)) = ucast (xtime p)
     \<and> Multiply (push_bit 2 (ucast p)) = ucast (xtime (xtime p))
     \<and> Multiply (push_bit 3 (ucast p)) = ucast (xtime (xtime (xtime p)))"

lemma Multiply_ok_all: "list_all Multiply_ok all_bytes"
  by (simp add: all_bytes_def Multiply_ok_def Multiply_def xtime_def)

lemmas Multiply_shifts = all_bytes_D [OF Multiply_ok_all, unfolded Multiply_ok_def, simplified]


lemma gf_mul_small:
  "gf_mul 1 b = b" "gf_mul 2 b = xtime b" "gf_mul 3 b = b XOR xtime b"
  "gf_mul 9 b = b XOR xtime (xtime (xtime b))"
  "gf_mul 0xb b = b XOR xtime b XOR xtime (xtime (xtime b))"
  "gf_mul 0xd b = b XOR xtime (xtime b) XOR xtime (xtime (xtime b))"
  "gf_mul 0xe b = xtime b XOR xtime (xtime b) XOR xtime (xtime (xtime b))"
  by (simp_all add: gf_mul_def upt_0_8 xor.assoc)

definition fips_column :: "u8 list \<Rightarrow> u8 \<Rightarrow> u8 \<Rightarrow> u8 \<Rightarrow> u8 \<Rightarrow> u8 list" where
  "fips_column m a b c d =
    [gf_mul (m!0) a XOR gf_mul (m!1) b XOR gf_mul (m!2) c XOR gf_mul (m!3) d,
     gf_mul (m!0) b XOR gf_mul (m!1) c XOR gf_mul (m!2) d XOR gf_mul (m!3) a,
     gf_mul (m!0) c XOR gf_mul (m!1) d XOR gf_mul (m!2) a XOR gf_mul (m!3) b,
     gf_mul (m!0) d XOR gf_mul (m!1) a XOR gf_mul (m!2) b XOR gf_mul (m!3) c]"

lemma mix_column_fips:
  "mix_column (ucast a) (ucast b) (ucast c) (ucast d) = map ucast (fips_column [2, 3, 1, 1] a b c d)"
proof -
  have r: "mix_reduce (push_bit 1 (ucast p) XOR ucast q) = ucast (xtime p XOR q)" for p q :: u8
    by (rule mix_reduce_byte)
  show ?thesis
    using r [of "a XOR b" "b XOR c XOR d"] r [of "b XOR c" "a XOR c XOR d"]
      r [of "c XOR d" "a XOR b XOR d"] r [of "a XOR d" "a XOR b XOR c"]
    by (simp add: mix_column_def fips_column_def gf_mul_small ucast_xor push_bit_xor xtime_xor
        xor_ac Let_def)
qed

lemma inv_mix_column_fips:
  "inv_mix_column (ucast a) (ucast b) (ucast c) (ucast d)
    = map ucast (fips_column [0xe, 0xb, 0xd, 0x9] a b c d)"
  by (simp add: inv_mix_column_def fips_column_def gf_mul_small ucast_xor Multiply_xor
      Multiply_shifts xor_ac Let_def)

lemma fips_column_inverse:
  "fips_column [2, 3, 1, 1] a b c d = [a', b', c', d']
    \<Longrightarrow> fips_column [0xe, 0xb, 0xd, 0x9] a' b' c' d' = [a, b, c, d]"
  by (auto simp: fips_column_def gf_mul_small xtime_xor xor_ac)


section \<open>The transformations of the code\<close>

lemma list16E:
  assumes "length s = 16"
  obtains s0 s1 s2 s3 s4 s5 s6 s7 s8 s9 s10 s11 s12 s13 s14 s15 where
    "s = [s0, s1, s2, s3, s4, s5, s6, s7, s8, s9, s10, s11, s12, s13, s14, s15]"
  using assms by (auto simp: length_Suc_conv numeral_eq_Suc)

lemma upt_0_16: "[0..<16::nat] = [0, 1, 2, 3, 4, 5, 6, 7, 8, 9, 10, 11, 12, 13, 14, 15]"
  by code_simp

lemma unat_ucast_byte [simp]: "unat (ucast (b::u8) :: u32) = unat b"
  by (rule unat_ucast_up) simp

lemma ucast_ucast_byte [simp]: "ucast (ucast (b::u8) :: u32) = b"
  by (rule bit_word_eqI) (auto simp: bit_simps)

lemma SubBytes_fips: "SubBytes (map ucast s) = map ucast (fips_sub_bytes s)"
  by (simp add: SubBytes_def fips_sub_bytes_def)

lemma InvSubBytes_fips: "InvSubBytes (map ucast s) = map ucast (fips_inv_sub_bytes s)"
  by (simp add: InvSubBytes_def fips_inv_sub_bytes_def)

lemma ShiftRows_fips: "length s = 16 \<Longrightarrow> ShiftRows (map ucast s) = map ucast (fips_shift_rows s)"
  by (elim list16E) (simp add: ShiftRows_def fips_shift_rows_def ASTATE_def upt_0_16 Let_def)

lemma InvShiftRows_fips:
  "length s = 16 \<Longrightarrow> InvShiftRows (map ucast s) = map ucast (fips_inv_shift_rows s)"
  by (elim list16E) (simp add: InvShiftRows_def fips_inv_shift_rows_def ASTATE_def upt_0_16 Let_def)

lemma fips_mix_columns_list:
  "fips_mix m [s0, s1, s2, s3, s4, s5, s6, s7, s8, s9, s10, s11, s12, s13, s14, s15] =
    fips_column m s0 s1 s2 s3 @ fips_column m s4 s5 s6 s7 @ fips_column m s8 s9 s10 s11
    @ fips_column m s12 s13 s14 s15"
  by (simp add: fips_mix_def fips_column_def upt_0_16 Let_def)

lemma length_fips_column [simp]: "length (fips_column m a b c d) = 4"
  by (simp add: fips_column_def)

lemma four_columns:
  assumes "\<And>a b c d. f a b c d = [g0 a b c d, g1 a b c d, g2 a b c d, g3 a b c d]"
  shows "foldl (\<lambda>st i. blit st i (f (st ! (i + 0)) (st ! (i + 1)) (st ! (i + 2)) (st ! (i + 3))))
    [s0, s1, s2, s3, s4, s5, s6, s7, s8, s9, s10, s11, s12, s13, s14, s15] [0, 4, 8, 12]
    = f s0 s1 s2 s3 @ f s4 s5 s6 s7 @ f s8 s9 s10 s11 @ f s12 s13 s14 s15"
  by (simp add: assms blit_def)

lemma MixColumns_fips:
  assumes "length s = 16"
  shows "MixColumns (map ucast s) = map ucast (fips_mix_columns s)"
  using assms four_columns [of mix_column, OF mix_column_def [unfolded Let_def]]
  by (elim list16E)
    (simp only: MixColumns_def fips_mix_columns_def fips_mix_columns_list mix_column_fips list.map
      map_append)

lemma InvMixColumns_fips:
  assumes "length s = 16"
  shows "InvMixColumns (map ucast s) = map ucast (fips_inv_mix_columns s)"
  using assms four_columns [of inv_mix_column, OF inv_mix_column_def [unfolded Let_def]]
  by (elim list16E)
    (simp only: InvMixColumns_def fips_inv_mix_columns_def fips_mix_columns_list
      inv_mix_column_fips list.map map_append)

lemma word_byte_views:
  "drop_bit 24 (w::u32) = ucast (word_byte 24 w)"
  "drop_bit 16 (w::u32) AND 255 = ucast (word_byte 16 w)"
  "drop_bit 8 (w::u32) AND 255 = ucast (word_byte 8 w)"
  "(w::u32) AND 255 = ucast (word_byte 0 w)"
proof -
  have m: "(255::u32) = mask 8" by (simp add: mask_eq_exp_minus_1)
  show "drop_bit 24 (w::u32) = ucast (word_byte 24 w)"
    by (rule bit_word_eqI) (auto simp: bit_simps word_byte_def dest: bit_imp_le_length)
  show "drop_bit 16 (w::u32) AND 255 = ucast (word_byte 16 w)"
    "drop_bit 8 (w::u32) AND 255 = ucast (word_byte 8 w)"
    "(w::u32) AND 255 = ucast (word_byte 0 w)"
    unfolding m by (rule bit_word_eqI; auto simp: bit_simps word_byte_def)+
qed

lemma length_fips_states [simp]:
  "length (fips_sub_bytes s) = length s" "length (fips_inv_sub_bytes s) = length s"
  "length (fips_shift_rows s) = 16" "length (fips_inv_shift_rows s) = 16"
  "length (fips_mix_columns s) = 16" "length (fips_inv_mix_columns s) = 16"
  by (simp_all add: fips_sub_bytes_def fips_inv_sub_bytes_def fips_shift_rows_def
      fips_inv_shift_rows_def fips_mix_columns_def fips_inv_mix_columns_def fips_mix_def)

lemma four_words:
  assumes "4 \<le> length ws"
  obtains w0 w1 w2 w3 rest where "ws = w0 # w1 # w2 # w3 # rest"
  using assms by (auto simp: Suc_le_length_iff numeral_eq_Suc)

lemma AddRoundKey_fips:
  assumes "length s = 16" "4 * round + 4 \<le> length w"
  shows "AddRoundKey (map ucast s) (drop (4 * round) w) = map ucast (fips_add_round_key w round s)"
    and "length (fips_add_round_key w round s) = 16"
proof -
  have "4 \<le> length (drop (4 * round) w)" using assms(2) by simp
  then obtain w0 w1 w2 w3 rest where w: "drop (4 * round) w = w0 # w1 # w2 # w3 # rest"
    by (rule four_words)
  show "AddRoundKey (map ucast s) (drop (4 * round) w) = map ucast (fips_add_round_key w round s)"
    using assms(1) unfolding AddRoundKey_def fips_add_round_key_def w word_byte_views
    by (elim list16E) (simp add: word_bytes_def word_byte_def ucast_xor Let_def)
  show "length (fips_add_round_key w round s) = 16"
    using assms(1) unfolding fips_add_round_key_def w by (simp add: word_bytes_def)
qed


section \<open>The key schedule\<close>

definition bytes_word :: "u8 list \<Rightarrow> u32" where
  "bytes_word bs = le32 (bs ! 3) (bs ! 2) (bs ! 1) (bs ! 0)"

definition fips_rot_word :: "u32 \<Rightarrow> u32" where
  "fips_rot_word w = bytes_word (let bs = word_bytes w in tl bs @ [hd bs])"

definition fips_sub_word :: "u32 \<Rightarrow> u32" where
  "fips_sub_word w = bytes_word (map (\<lambda>b. sbox ! unat b) (word_bytes w))"

definition fips_rcon :: "nat \<Rightarrow> u32" where
  "fips_rcon i = bytes_word [(xtime ^^ (i - 1)) 1, 0, 0, 0]"

definition fips_next_word :: "nat \<Rightarrow> u32 list \<Rightarrow> nat \<Rightarrow> u32" where
  "fips_next_word Nk w i =
     (let temp = w ! (i - 1);
          temp = (if i mod Nk = 0 then fips_sub_word (fips_rot_word temp) XOR fips_rcon (i div Nk)
                  else if Nk > 6 \<and> i mod Nk = 4 then fips_sub_word temp
                  else temp)
      in w ! (i - Nk) XOR temp)"

definition fips_key_expansion :: "bytes \<Rightarrow> u32 list" where
  "fips_key_expansion k =
     (let Nk = length k div 4; Nr = 6 + Nk
      in foldl (\<lambda>w i. w @ [fips_next_word Nk w i])
           (map (\<lambda>i. bytes_word (take 4 (drop (4 * i) k))) [0..<Nk]) [Nk..<4 * (Nr + 1)])"

lemma Subword_fips: "Subword w = fips_sub_word w"
  unfolding Subword_def word_byte_views
  by (simp add: fips_sub_word_def bytes_word_def word_bytes_def word_byte_def le32_def or.assoc or.commute or.left_commute)

lemma rotword_fips: "push_bit 8 w OR drop_bit 24 w = fips_rot_word w"
proof (rule bit_word_eqI)
  fix n assume "n < LENGTH(32)"
  then consider "n < 8" | "8 \<le> n" "n < 16" | "16 \<le> n" "n < 24" | "24 \<le> n" "n < 32"
    by fastforce
  then show "bit (push_bit 8 w OR drop_bit 24 w) n = bit (fips_rot_word w) n"
    by cases (auto simp: fips_rot_word_def bytes_word_def word_bytes_def le32_def word_byte_def
        bit_simps dest: bit_imp_le_length)
qed

lemma Rcon_powers: "Rcon = map (\<lambda>k. (xtime ^^ k) 1) [0..<10]"
  by code_simp

lemma rcon_fips: "k < 10 \<Longrightarrow> push_bit 24 (ucast (Rcon ! k)) = fips_rcon (k + 1)"
  by (simp add: Rcon_powers fips_rcon_def bytes_word_def le32_def)

lemma foldl_assign:
  "m \<le> length xs \<Longrightarrow> foldl (\<lambda>xs i. xs[i := f i]) xs [0..<m] = map f [0..<m] @ drop m xs"
proof (induction m)
  case (Suc m)
  then show ?case
    by (simp add: list_update_append Cons_nth_drop_Suc [symmetric])
qed simp

lemma key_word_fips:
  "4 * i + 4 \<le> length k \<Longrightarrow> SWAP_BE32 (load32 k i) = bytes_word (take 4 (drop (4 * i) k))"
  by (simp add: SWAP_BE32_def BB_BIG_ENDIAN_def load32_def bswap32_le32 bytes_word_def)

definition fips_words :: "nat \<Rightarrow> u32 list \<Rightarrow> nat \<Rightarrow> u32 list" where
  "fips_words Nk w n = foldl (\<lambda>w i. w @ [fips_next_word Nk w i]) w [Nk..<n]"

lemma fips_words_Suc:
  "Nk \<le> n \<Longrightarrow> fips_words Nk w (Suc n) = fips_words Nk w n @ [fips_next_word Nk (fips_words Nk w n) n]"
  by (simp add: fips_words_def)

lemma length_fips_words: "length w = Nk \<Longrightarrow> Nk \<le> n \<Longrightarrow> length (fips_words Nk w n) = n"
proof (induction n)
  case (Suc n)
  then show ?case by (cases "Nk = Suc n") (auto simp: fips_words_Suc, simp add: fips_words_def)
qed (simp add: fips_words_def)

lemma KeyExpansion_loop:
  assumes Nk: "Nk = 4 \<or> Nk = 6 \<or> Nk = 8" and len: "28 + 4 * Nk \<le> length rk"
    and n: "Nk \<le> n" "n \<le> 28 + 4 * Nk"
  shows "\<exists>rk'. foldl (KeyExpansion_step Nk) (rk, 0, 0) [Nk..<n] = (rk', n mod Nk, n div Nk - 1)
    \<and> length rk' = length rk \<and> take n rk' = fips_words Nk (take Nk rk) n"
  using n
proof (induction n rule: dec_induct)
  case base
  then show ?case using Nk by (auto simp: fips_words_def)
next
  case (step n)
  let ?w = "fips_words Nk (take Nk rk) n"
  obtain rk' where ih: "foldl (KeyExpansion_step Nk) (rk, 0, 0) [Nk..<n] = (rk', n mod Nk, n div Nk - 1)"
    "length rk' = length rk" "take n rk' = ?w"
    using step by auto
  have lw: "length ?w = n" using len step by (intro length_fips_words) auto
  have nth: "rk' ! i = ?w ! i" if "i < n" for i
    using that ih(3) by (metis nth_take)
  have pos: "0 < Nk" "1 \<le> n div Nk" using Nk step(1) by (auto simp: div_greater_zero_iff Suc_le_eq)
  have "n div Nk \<le> 10" using Nk step(2,4) by auto
  then have k: "n div Nk - 1 < 10" "n div Nk - 1 + 1 = n div Nk" using pos by auto
  have next_word: "KeyExpansion_step Nk (rk', n mod Nk, n div Nk - 1) n =
     (rk'[n := fips_next_word Nk ?w n], Suc n mod Nk, Suc n div Nk - 1)"
  proof -
    have "rk' ! (n - 1) = ?w ! (n - 1)" "rk' ! (n - Nk) = ?w ! (n - Nk)"
      using nth pos step(1) by auto
    moreover have "(if n mod Nk + 1 = Nk then (0, n div Nk - 1 + 1) else (n mod Nk + 1, n div Nk - 1))
        = (Suc n mod Nk, Suc n div Nk - 1)"
      using pos k(2) by (auto simp: mod_Suc div_Suc)
    ultimately show ?thesis
      using k(2) rcon_fips [OF k(1)]
      by (auto simp: KeyExpansion_step_def fips_next_word_def rotword_fips Subword_fips Let_def
          split: if_splits)
  qed
  have "take (Suc n) (rk'[n := fips_next_word Nk ?w n]) = fips_words Nk (take Nk rk) (Suc n)"
    using ih(2,3) len step(4) step(1) by (simp add: take_Suc_conv_app_nth fips_words_Suc)
  then show ?case
    using ih step(1) next_word by auto
qed

end
