(* ===== verification/Aes_Cipher.thy ===== *)
theory Aes_Cipher
  imports Aes_Fips
begin

text \<open>
  Whole blocks and chains of blocks: \<open>aes_setkey\<close> followed by \<open>aes_encrypt_one_block\<close>
  is the cipher of FIPS 197 for the three key lengths, the decryption loop is its inverse cipher,
  and CBC decryption recovers what CBC encryption was given.
\<close>

section \<open>The key\<close>

lemma KeyExpansion_fips:
  assumes "length rk = 60" "length k = 4 * n" "n = 4 \<or> n = 6 \<or> n = 8"
  obtains rk' where "KeyExpansion rk k (length k) = (rk', 6 + n)" "length rk' = 60"
    "take (28 + 4 * n) rk' = fips_key_expansion k"
proof -
  have d: "length k div 4 = n" using assms(2) by simp
  let ?rk = "foldl (\<lambda>RoundKey i. RoundKey[i := SWAP_BE32 (load32 k i)]) rk [0..<n]"
  have n60: "n \<le> 60" "28 + 4 * n \<le> 60" using assms(3) by auto
  have rk: "?rk = map (\<lambda>i. SWAP_BE32 (load32 k i)) [0..<n] @ drop n rk"
    using assms(1) n60 by (intro foldl_assign) simp
  then have lrk: "length ?rk = 60" using assms(1) n60 by (simp only: length_append) simp
  have "take n ?rk = map (\<lambda>i. SWAP_BE32 (load32 k i)) [0..<n]" unfolding rk by simp
  also have "\<dots> = map (\<lambda>i. bytes_word (take 4 (drop (4 * i) k))) [0..<n]"
    using assms(2) by (auto simp: key_word_fips)
  finally have w: "fips_words n (take n ?rk) (28 + 4 * n) = fips_key_expansion k"
    unfolding fips_key_expansion_def fips_words_def Let_def d by (simp add: add.commute)
  have "28 + 4 * n \<le> length ?rk" "n \<le> 28 + 4 * n" using lrk n60 by simp_all
  then obtain rk' where loop:
    "foldl (KeyExpansion_step n) (?rk, 0, 0) [n..<28 + 4 * n] = (rk', (28 + 4 * n) mod n, (28 + 4 * n) div n - 1)"
    "length rk' = length ?rk" "take (28 + 4 * n) rk' = fips_key_expansion k"
    using KeyExpansion_loop [OF assms(3), of ?rk "28 + 4 * n"] w by auto
  have "KeyExpansion rk k (length k) = (rk', 6 + n)"
    unfolding KeyExpansion_def Let_def d unfolding assms(2) loop(1) by (simp only: prod.case)
  then show ?thesis using loop(2,3) lrk that by simp
qed

lemma aes_setkey_fips:
  assumes "length (aes_key aes) = 60" "length k = 4 * n" "n = 4 \<or> n = 6 \<or> n = 8"
  shows "unat (aes_rounds (aes_setkey aes k (length k))) = 6 + n"
    and "length (aes_key (aes_setkey aes k (length k))) = 60"
    and "take (28 + 4 * n) (aes_key (aes_setkey aes k (length k))) = fips_key_expansion k"
proof -
  obtain rk' where rk': "KeyExpansion (aes_key aes) k (length k) = (rk', 6 + n)" "length rk' = 60"
    "take (28 + 4 * n) rk' = fips_key_expansion k"
    using KeyExpansion_fips [OF assms] .
  then have set: "aes_setkey aes k (length k) = aes\<lparr>aes_key := rk', aes_rounds := of_nat (6 + n)\<rparr>"
    by (simp add: aes_setkey_def)
  show "unat (aes_rounds (aes_setkey aes k (length k))) = 6 + n"
    using assms(3) by (auto simp: set)
  show "length (aes_key (aes_setkey aes k (length k))) = 60"
    "take (28 + 4 * n) (aes_key (aes_setkey aes k (length k))) = fips_key_expansion k"
    using rk' by (simp_all add: set)
qed

section \<open>Encryption\<close>

definition fips_rounds :: "u32 list \<Rightarrow> nat \<Rightarrow> fips_state \<Rightarrow> fips_state" where
  "fips_rounds w n s = foldl (fips_round w) (fips_add_round_key w 0 s) [1..<Suc n]"

lemma fips_round_length: "length s = 16 \<Longrightarrow> 4 * i + 4 \<le> length w \<Longrightarrow> length (fips_round w s i) = 16"
  by (simp add: fips_round_def AddRoundKey_fips(2))

lemma aes_encrypt_loop_fips:
  assumes "length s = 16" "unat r = Suc n" "4 * (i + n + 2) \<le> length w"
  shows "aes_encrypt_loop r (drop (4 * i) w) (map ucast s) =
    map ucast (fips_add_round_key w (i + n + 1) (fips_shift_rows (fips_sub_bytes
      (foldl (fips_round w) (fips_add_round_key w i s) [i + 1..<i + 1 + n]))))"
  using assms
proof (induction n arbitrary: s r i)
  case 0
  then have "r = 1" by (simp add: word_unat_eq_iff)
  then show ?case
    using 0 AddRoundKey_fips [of s i w] AddRoundKey_fips [of _ "Suc i" w]
    by (subst aes_encrypt_loop.simps)
      (simp add: SubBytes_fips ShiftRows_fips Let_def add.commute)
next
  case (Suc n)
  let ?t = "fips_mix_columns (fips_shift_rows (fips_sub_bytes (fips_add_round_key w i s)))"
  have r: "unat (r - 1) = Suc n" "r - 1 \<noteq> 0"
    using Suc.prems(2) by (auto simp: unat_minus_one word_unat_eq_iff)
  have "aes_encrypt_loop r (drop (4 * i) w) (map ucast s)
      = aes_encrypt_loop (r - 1) (drop (4 * (i + 1)) w) (map ucast ?t)"
    using Suc.prems r AddRoundKey_fips [of s i w]
    by (subst aes_encrypt_loop.simps)
      (simp add: SubBytes_fips ShiftRows_fips MixColumns_fips Let_def add.commute)
  also have "\<dots> = map ucast (fips_add_round_key w (i + 1 + n + 1) (fips_shift_rows (fips_sub_bytes
      (foldl (fips_round w) (fips_add_round_key w (i + 1) ?t) [i + 1 + 1..<i + 1 + 1 + n]))))"
    using Suc.prems r by (intro Suc.IH) auto
  also have "fips_add_round_key w (i + 1) ?t = fips_round w (fips_add_round_key w i s) (i + 1)"
    by (simp add: fips_round_def)
  finally show ?case
    using upt_conv_Cons [of "i + 1" "i + 1 + Suc n"] by simp
qed

lemma aes_encrypt_1_fips:
  assumes "length s = 16" "unat (aes_rounds aes) = Nr" "1 \<le> Nr" "4 * (Nr + 1) \<le> length (aes_key aes)"
  shows "aes_encrypt_1 aes (map ucast s) = map ucast (fips_cipher Nr (aes_key aes) s)"
  using assms aes_encrypt_loop_fips [of s "aes_rounds aes" "Nr - 1" 0 "aes_key aes"]
  by (simp add: aes_encrypt_1_def fips_cipher_def)

section \<open>Decryption\<close>

lemma aes_decrypt_loop_fips:
  assumes "length s = 16" "unat r = Suc n" "4 * (n + 1) \<le> length w"
  shows "aes_decrypt_loop r w (4 * Suc n) (map ucast s) =
    map ucast (fips_add_round_key w 0 (fips_inv_sub_bytes (fips_inv_shift_rows
      (foldl (fips_inv_round w) s (rev [1..<Suc n])))))"
  using assms
proof (induction n arbitrary: s r)
  case 0
  then have "r = 1" by (simp add: word_unat_eq_iff)
  then show ?case
    using 0 AddRoundKey_fips [of _ 0 w]
    by (subst aes_decrypt_loop.simps) (simp add: InvSubBytes_fips InvShiftRows_fips Let_def)
next
  case (Suc n)
  have r: "unat (r - 1) = Suc n" "r - 1 \<noteq> 0"
    using Suc.prems(2) by (auto simp: unat_minus_one word_unat_eq_iff)
  have "4 * Suc (Suc n) - 4 = 4 * Suc n" by simp
  then have "aes_decrypt_loop r w (4 * Suc (Suc n)) (map ucast s)
      = aes_decrypt_loop (r - 1) w (4 * Suc n) (map ucast (fips_inv_round w s (Suc n)))"
    using Suc.prems r AddRoundKey_fips [of _ "Suc n" w]
    by (subst aes_decrypt_loop.simps)
      (simp add: InvSubBytes_fips InvShiftRows_fips InvMixColumns_fips Let_def fips_inv_round_def)
  also have "\<dots> = map ucast (fips_add_round_key w 0 (fips_inv_sub_bytes (fips_inv_shift_rows
      (foldl (fips_inv_round w) (fips_inv_round w s (Suc n)) (rev [1..<Suc n])))))"
    using Suc.prems r by (intro Suc.IH) (auto simp: fips_inv_round_def)
  finally show ?case by simp
qed

lemma aes_decrypt_1_fips:
  assumes "length s = 16" "unat (aes_rounds aes) = Nr" "1 \<le> Nr" "Nr \<le> 14"
    and "4 * (Nr + 1) \<le> length (aes_key aes)"
  shows "aes_decrypt_1 aes (map ucast s) = map ucast (fips_inv_cipher Nr (aes_key aes) s)"
proof -
  obtain n where n: "Nr = Suc n" using assms(3) by (cases Nr) auto
  have p: "unat (aes_rounds aes * 4) = 4 * Nr"
    using assms(2,4) by (simp add: unat_word_ariths)
  show ?thesis
    using assms n p AddRoundKey_fips [OF assms(1), of Nr "aes_key aes"]
      aes_decrypt_loop_fips [of "fips_add_round_key (aes_key aes) Nr s" "aes_rounds aes" n]
    by (simp add: aes_decrypt_1_def fips_inv_cipher_def Let_def)
qed


section \<open>The inverse cipher\<close>

lemma fips_inverse_steps:
  assumes "length s = 16"
  shows "fips_inv_sub_bytes (fips_sub_bytes s) = s"
    and "fips_inv_shift_rows (fips_shift_rows s) = s"
    and "fips_inv_mix_columns (fips_mix_columns s) = s"
proof -
  show "fips_inv_sub_bytes (fips_sub_bytes s) = s"
    by (simp add: fips_inv_sub_bytes_def fips_sub_bytes_def comp_def)
  show "fips_inv_shift_rows (fips_shift_rows s) = s"
    using assms by (elim list16E)
      (simp add: fips_inv_shift_rows_def fips_shift_rows_def upt_0_16 Let_def)
  have col: "fips_mix [0xe, 0xb, 0xd, 0x9] (fips_column [2, 3, 1, 1] s0 s1 s2 s3
      @ fips_column [2, 3, 1, 1] s4 s5 s6 s7 @ fips_column [2, 3, 1, 1] s8 s9 s10 s11
      @ fips_column [2, 3, 1, 1] s12 s13 s14 s15)
    = [s0, s1, s2, s3, s4, s5, s6, s7, s8, s9, s10, s11, s12, s13, s14, s15]"
    for s0 s1 s2 s3 s4 s5 s6 s7 s8 s9 s10 s11 s12 s13 s14 s15
  proof -
    have ex: "\<exists>a' b' c' d'. fips_column [2, 3, 1, 1] a b c d = [a', b', c', d']" for a b c d
      by (simp add: fips_column_def)
    obtain a0 a1 a2 a3 where a: "fips_column [2, 3, 1, 1] s0 s1 s2 s3 = [a0, a1, a2, a3]" using ex by blast
    obtain b0 b1 b2 b3 where b: "fips_column [2, 3, 1, 1] s4 s5 s6 s7 = [b0, b1, b2, b3]" using ex by blast
    obtain c0 c1 c2 c3 where c: "fips_column [2, 3, 1, 1] s8 s9 s10 s11 = [c0, c1, c2, c3]" using ex by blast
    obtain d0 d1 d2 d3 where d: "fips_column [2, 3, 1, 1] s12 s13 s14 s15 = [d0, d1, d2, d3]" using ex by blast
    show ?thesis
      unfolding a b c d append.simps fips_mix_columns_list fips_column_inverse [OF a]
        fips_column_inverse [OF b] fips_column_inverse [OF c] fips_column_inverse [OF d] by (rule refl)
  qed
  show "fips_inv_mix_columns (fips_mix_columns s) = s"
    using assms by (elim list16E)
      (simp only: fips_inv_mix_columns_def fips_mix_columns_def fips_mix_columns_list col)
qed

lemma fips_add_round_key_twice:
  assumes "length s = 16" "4 * i + 4 \<le> length w"
  shows "fips_add_round_key w i (fips_add_round_key w i s) = s"
proof -
  have "4 \<le> length (drop (4 * i) w)" using assms(2) by simp
  then obtain w0 w1 w2 w3 rest where w: "drop (4 * i) w = w0 # w1 # w2 # w3 # rest"
    by (rule four_words)
  have "length (concat (map word_bytes (take 4 (drop (4 * i) w)))) = 16"
    unfolding w by (simp add: word_bytes_def)
  then show ?thesis
    using assms(1) unfolding fips_add_round_key_def by (intro nth_equalityI) (simp_all add: xor.assoc)
qed

lemma fips_rounds_inverse:
  assumes "length s = 16" "4 * (n + 1) \<le> length w"
  shows "foldl (fips_inv_round w) (fips_shift_rows (fips_sub_bytes
      (foldl (fips_round w) s [1..<Suc n]))) (rev [1..<Suc n]) = fips_shift_rows (fips_sub_bytes s)
    \<and> length (foldl (fips_round w) s [1..<Suc n]) = 16"
  using assms
proof (induction n)
  case (Suc n)
  let ?t = "foldl (fips_round w) s [1..<Suc n]"
  have t: "length ?t = 16" using Suc by (simp del: upt_Suc)
  have up: "[1..<Suc (Suc n)] = [1..<Suc n] @ [Suc n]" by simp
  have "fips_inv_round w (fips_shift_rows (fips_sub_bytes (fips_round w ?t (Suc n)))) (Suc n)
      = fips_shift_rows (fips_sub_bytes ?t)"
    using t Suc.prems
    by (simp add: fips_inv_round_def fips_round_def fips_inverse_steps AddRoundKey_fips(2)
        fips_add_round_key_twice del: upt_Suc)
  moreover have "length (fips_round w ?t (Suc n)) = 16"
    using t Suc.prems by (simp add: fips_round_length del: upt_Suc)
  ultimately show ?case
    using Suc unfolding up by (simp del: upt_Suc)
qed simp

lemma fips_inv_cipher_cipher:
  assumes "length s = 16" "1 \<le> Nr" "4 * (Nr + 1) \<le> length w"
  shows "fips_inv_cipher Nr w (fips_cipher Nr w s) = s"
    and "length (fips_cipher Nr w s) = 16"
proof -
  obtain n where n: "Nr = Suc n" using assms(2) by (cases Nr) auto
  have l: "length (fips_add_round_key w 0 s) = 16"
    using assms AddRoundKey_fips(2) [of s 0 w] by simp
  show "fips_inv_cipher Nr w (fips_cipher Nr w s) = s"
    using assms n l fips_rounds_inverse [OF l, of n w]
    by (simp add: fips_inv_cipher_def fips_cipher_def fips_add_round_key_twice fips_inverse_steps)
  show "length (fips_cipher Nr w s) = 16"
    using assms by (simp add: fips_cipher_def AddRoundKey_fips(2))
qed


lemma fips_add_round_key_take:
  "4 * i + 4 \<le> m \<Longrightarrow> fips_add_round_key (take m w) i s = fips_add_round_key w i s"
  by (simp add: fips_add_round_key_def drop_take)

lemma fips_cipher_take:
  assumes "m = 4 * (Nr + 1)"
  shows "fips_cipher Nr (take m w) s = fips_cipher Nr w s"
proof -
  have "foldl (fips_round (take m w)) t [1..<Nr] = foldl (fips_round w) t [1..<Nr]" for t
    using assms by (intro foldl_cong_set) (auto simp: fips_round_def fips_add_round_key_take)
  then show ?thesis using assms by (simp add: fips_cipher_def fips_add_round_key_take)
qed

section \<open>The properties of a block\<close>

text \<open>A context whose key schedule is complete for its number of rounds.\<close>

definition aes_ready :: "tls_aes \<Rightarrow> bool" where
  "aes_ready aes \<longleftrightarrow> (let Nr = unat (aes_rounds aes)
     in 1 \<le> Nr \<and> Nr \<le> 14 \<and> 4 * (Nr + 1) \<le> length (aes_key aes))"

definition block_cipher :: "tls_aes \<Rightarrow> bytes \<Rightarrow> bytes" where
  "block_cipher aes = fips_cipher (unat (aes_rounds aes)) (aes_key aes)"

lemma ucast_bytes [simp]: "map ucast (map ucast (s :: bytes) :: u32 list) = s"
  "map (ucast \<circ> (ucast :: u8 \<Rightarrow> u32)) s = s"
  by (simp_all add: comp_def)

lemma aes_encrypt_1_block:
  "aes_ready aes \<Longrightarrow> length s = 16 \<Longrightarrow> aes_encrypt_1 aes (map ucast s) = map ucast (block_cipher aes s)"
  by (simp add: block_cipher_def aes_ready_def Let_def aes_encrypt_1_fips)

lemma aes_decrypt_1_block:
  "aes_ready aes \<Longrightarrow> length s = 16 \<Longrightarrow>
    aes_decrypt_1 aes (map ucast (block_cipher aes s)) = map ucast s"
  by (simp add: block_cipher_def aes_ready_def Let_def aes_decrypt_1_fips fips_inv_cipher_cipher)

lemma length_block_cipher: "aes_ready aes \<Longrightarrow> length s = 16 \<Longrightarrow> length (block_cipher aes s) = 16"
  by (simp add: block_cipher_def aes_ready_def Let_def fips_inv_cipher_cipher)

lemma key_lengths: "length k \<in> {16, 24, 32} \<Longrightarrow>
  \<exists>n. length k = 4 * n \<and> (n = 4 \<or> n = 6 \<or> n = 8)"
  by auto

lemma aes_setkey_ready:
  assumes "length (aes_key aes) = 60" "length k \<in> {16, 24, 32}"
  shows "aes_ready (aes_setkey aes k (length k))"
    and "block_cipher (aes_setkey aes k (length k)) =
      fips_cipher (6 + length k div 4) (fips_key_expansion k)"
proof -
  obtain n where n: "length k = 4 * n" "n = 4 \<or> n = 6 \<or> n = 8" using key_lengths assms(2) by blast
  note set = aes_setkey_fips [OF assms(1) n]
  show "aes_ready (aes_setkey aes k (length k))"
    using set n(2) by (auto simp: aes_ready_def Let_def)
  have "28 + 4 * n = 4 * (6 + n + 1)" by simp
  then show "block_cipher (aes_setkey aes k (length k)) =
      fips_cipher (6 + length k div 4) (fips_key_expansion k)"
    using fips_cipher_take [of "28 + 4 * n" "6 + n" "aes_key (aes_setkey aes k (length k))"] set n(1)
    by (simp add: block_cipher_def fun_eq_iff)
qed

text \<open>
  Property C14. For a key of 128, 192 or 256 bits, \<open>aes_setkey\<close> followed by
  \<open>aes_encrypt_one_block\<close> is the cipher of FIPS 197 under the key expansion of FIPS 197,
  whatever the context held before.
\<close>

theorem aes_encrypt_one_block_fips:
  assumes "length (aes_key aes) = 60" "length k \<in> {16, 24, 32}" "length pt = 16"
  shows "aes_encrypt_one_block (aes_setkey aes k (length k)) pt =
    fips_cipher (6 + length k div 4) (fips_key_expansion k) pt"
  using aes_setkey_ready [OF assms(1,2)] assms(3)
  by (simp add: aes_encrypt_one_block_def aes_encrypt_1_block)

lemma aes_encrypt_one_block_fips_witness:
  "aes_encrypt_one_block (aes_setkey \<lparr>aes_key = replicate 60 0, aes_rounds = 0\<rparr> (replicate 16 1) 16)
      (replicate 16 2)
    = fips_cipher 10 (fips_key_expansion (replicate 16 1)) (replicate 16 2)"
  using aes_encrypt_one_block_fips [of "\<lparr>aes_key = replicate 60 0, aes_rounds = 0\<rparr>"
      "replicate 16 1" "replicate 16 2"]
  by simp

text \<open>
  Property C15. Decrypting a state with \<open>aes_decrypt_1\<close> undoes \<open>aes_encrypt_1\<close> under the
  same key schedule, for every schedule of up to fourteen rounds.
\<close>

theorem aes_decrypt_encrypt:
  assumes "length s = 16" "1 \<le> unat (aes_rounds aes)" "unat (aes_rounds aes) \<le> 14"
    and "4 * (unat (aes_rounds aes) + 1) \<le> length (aes_key aes)"
  shows "aes_decrypt_1 aes (aes_encrypt_1 aes (map ucast s)) = map ucast (s :: bytes)"
proof -
  have "aes_ready aes" using assms by (simp add: aes_ready_def Let_def)
  then show ?thesis using assms(1) by (simp add: aes_encrypt_1_block aes_decrypt_1_block)
qed

lemma aes_decrypt_encrypt_witness:
  "aes_decrypt_1 \<lparr>aes_key = replicate 60 7, aes_rounds = 10\<rparr>
     (aes_encrypt_1 \<lparr>aes_key = replicate 60 7, aes_rounds = 10\<rparr> (map ucast (replicate 16 (5::u8))))
    = map ucast (replicate 16 (5::u8))"
  using aes_decrypt_encrypt [of "replicate 16 5" "\<lparr>aes_key = replicate 60 7, aes_rounds = 10\<rparr>"]
  by simp

section \<open>Chains of blocks\<close>

fun cbc_blocks :: "(bytes \<Rightarrow> bytes) \<Rightarrow> bytes \<Rightarrow> bytes list \<Rightarrow> bytes list" where
  "cbc_blocks E iv [] = []"
| "cbc_blocks E iv (p # ps) = (let c = E (map2 (XOR) p iv) in c # cbc_blocks E c ps)"

lemma unat_of_nat_u64: "m < 2 ^ 64 \<Longrightarrow> unat (of_nat m :: u64) = m"
  by (simp only: unat_of_nat) simp

lemma map2_ucast_xor:
  "map2 (\<lambda>p v. ucast (p XOR v) :: u32) xs ys = map ucast (map2 (XOR) xs (ys :: bytes))"
  by (simp add: zip_map1 case_prod_unfold comp_def)

lemma aes_cbc_encrypt_loop_blocks:
  assumes "aes_ready aes" "length iv = 16" "length pt = 16 * n" "16 * n < 2 ^ 64"
  shows "aes_cbc_encrypt_loop aes iv (pt @ rest) (of_nat (length pt)) =
    Some (concat (cbc_blocks (block_cipher aes) iv (chunks 16 pt)))"
  using assms(2-)
proof (induction n arbitrary: iv pt)
  case 0
  then show ?case by (simp add: aes_cbc_encrypt_loop.simps)
next
  case (Suc n)
  let ?c = "block_cipher aes (map2 (XOR) (take 16 pt) iv)"
  have len: "unat (of_nat (length pt) :: u64) = length pt"
    using Suc.prems(2,3) by (intro unat_of_nat_u64) simp
  then have pos: "(of_nat (length pt) :: u64) > 0"
    using Suc.prems(2) by (simp add: word_less_nat_alt)
  have sub: "(of_nat (length pt) :: u64) - 16 = of_nat (length (drop 16 pt))"
    using Suc.prems(2) by (simp add: of_nat_diff)
  have c: "length (map2 (XOR) (take 16 pt) iv) = 16" using Suc.prems by simp
  have ch: "chunks 16 pt = take 16 pt # chunks 16 (drop 16 pt)"
    using Suc.prems(2) by (simp add: chunks.simps [of 16 pt])
  have ih: "aes_cbc_encrypt_loop aes ?c (drop 16 pt @ rest) (of_nat (length (drop 16 pt))) =
      Some (concat (cbc_blocks (block_cipher aes) ?c (chunks 16 (drop 16 pt))))"
    using Suc.prems length_block_cipher [OF assms(1) c] by (intro Suc.IH) auto
  have "\<not> length (pt @ rest) < 16" "take 16 (pt @ rest) = take 16 pt"
      "drop 16 (pt @ rest) = drop 16 pt @ rest"
    using Suc.prems(2) by simp_all
  then have "aes_cbc_encrypt_loop aes iv (pt @ rest) (of_nat (length pt)) =
      map_option (\<lambda>r. ?c @ r)
        (aes_cbc_encrypt_loop aes ?c (drop 16 pt @ rest) (of_nat (length (drop 16 pt))))"
    using pos aes_encrypt_1_block [OF assms(1) c]
    by (subst aes_cbc_encrypt_loop.simps)
      (simp only: Let_def map2_ucast_xor if_True if_False ucast_bytes sub)
  then show ?case using ih ch by (simp add: Let_def)
qed


lemma chunks_lengths: "c \<in> set (chunks 16 xs) \<Longrightarrow> length c = 16"
  by (induction xs rule: block_induct [where n = 16]) auto

lemma concat_chunks: "16 dvd length xs \<Longrightarrow> concat (chunks 16 xs) = xs"
  by (induction xs rule: block_induct [where n = 16]) (auto simp: dvd_imp_le)

lemma cbc_blocks_lengths:
  assumes "\<And>s. length s = 16 \<Longrightarrow> length (E s) = 16"
  shows "\<forall>p\<in>set ps. length p = 16 \<Longrightarrow> length iv = 16 \<Longrightarrow> \<forall>c\<in>set (cbc_blocks E iv ps). length c = 16"
proof (induction ps arbitrary: iv)
  case (Cons p ps)
  have c: "length (E (map2 (XOR) p iv)) = 16" using Cons.prems assms by simp
  have "\<forall>c\<in>set (cbc_blocks E (E (map2 (XOR) p iv)) ps). length c = 16"
    by (rule Cons.IH) (use Cons.prems(1) c in simp_all)
  then show ?case using c by (simp add: Let_def)
qed simp

lemma length_concat_16: "\<forall>c\<in>set cs. length c = 16 \<Longrightarrow> length (concat cs) = 16 * length cs"
  by (induction cs) auto

lemma length_cbc_blocks [simp]: "length (cbc_blocks E iv ps) = length ps"
  by (induction ps arbitrary: iv) (auto simp: Let_def)

lemma map2_xor_twice: "length v = length xs \<Longrightarrow> map2 (XOR) (map2 (XOR) xs v) v = (xs :: bytes)"
  by (intro nth_equalityI) (simp_all add: xor.assoc)

lemma decrypt_xor:
  assumes "length p = 16" "length v = 16"
  shows "map2 (\<lambda>a w. ucast (a XOR ucast w) :: u8) (map ucast (map2 (XOR) p v) :: u32 list) v = p"
proof -
  have "map2 (\<lambda>a w. ucast (a XOR ucast w) :: u8) (map ucast (map2 (XOR) p v) :: u32 list) v
      = map2 (XOR) (map2 (XOR) p v) v"
    by (simp add: zip_map1 case_prod_unfold comp_def flip: ucast_xor)
  then show ?thesis using map2_xor_twice assms by simp
qed

text \<open>The buffer \<open>ivbuf\<close> points to, whichever of the two it is.\<close>

lemma aes_cbc_decrypt_loop_blocks:
  assumes "aes_ready aes"
  shows "\<forall>p\<in>set ps. length p = 16 \<Longrightarrow> length (if f then iv2 else iv3) = 16
    \<Longrightarrow> 16 * length ps < 2 ^ 64
    \<Longrightarrow> aes_cbc_decrypt_loop aes iv2 iv3 f
          (concat (cbc_blocks (block_cipher aes) (if f then iv2 else iv3) ps) @ rest) (of_nat (16 * length ps))
        = Some (concat ps)"
proof (induction ps arbitrary: iv2 iv3 f)
  case Nil
  then show ?case by (simp add: aes_cbc_decrypt_loop.simps)
next
  case (Cons p ps)
  let ?iv = "if f then iv2 else iv3"
  let ?c = "block_cipher aes (map2 (XOR) p ?iv)"
  let ?cs = "concat (cbc_blocks (block_cipher aes) ?c ps)"
  have p: "length p = 16" "length (map2 (XOR) p ?iv) = 16" using Cons.prems by simp_all
  have c: "length ?c = 16" using assms p(2) by (rule length_block_cipher)
  have "unat (of_nat (16 * length (p # ps)) :: u64) = 16 * length (p # ps)"
    using Cons.prems(3) by (rule unat_of_nat_u64)
  then have pos: "(of_nat (16 * length (p # ps)) :: u64) \<noteq> 0" by (metis length_Cons mult_eq_0_iff
    nat.distinct(1) unat_0 zero_neq_numeral)
  have sub: "(of_nat (16 * length (p # ps)) :: u64) - 16 = of_nat (16 * length ps)" by simp
  have pt: "map2 (\<lambda>a v. ucast (a XOR ucast v)) (map ucast (map2 (XOR) p ?iv) :: u32 list) ?iv = p"
    using p(1) Cons.prems(2) by (rule decrypt_xor)
  have ih: "aes_cbc_decrypt_loop aes (if f then iv2 else ?c) (if f then ?c else iv3) (\<not> f) (?cs @ rest)
      (of_nat (16 * length ps)) = Some (concat ps)"
    using Cons.IH [of "\<not> f" "if f then iv2 else ?c" "if f then ?c else iv3"] Cons.prems(1,3) c
    by (cases f) simp_all
  have cc: "concat (cbc_blocks (block_cipher aes) ?iv (p # ps)) = ?c @ ?cs"
    by (simp add: Let_def)
  have "aes_cbc_decrypt_loop aes iv2 iv3 f (?c @ ?cs @ rest) (of_nat (16 * length (p # ps)))
      = map_option (\<lambda>r. p @ r) (aes_cbc_decrypt_loop aes (if f then iv2 else ?c)
          (if f then ?c else iv3) (\<not> f) (?cs @ rest) (of_nat (16 * length ps)))"
    using pos c aes_decrypt_1_block [OF assms p(2)] pt sub
    by (subst aes_cbc_decrypt_loop.simps) (cases f; simp add: Let_def)
  then show ?case unfolding cc ih by simp
qed

text \<open>
  Property C16. On data of whole blocks \<open>aes_cbc_encrypt\<close> writes the cipher block chaining
  of the block cipher, and \<open>aes_cbc_decrypt\<close> with the same key schedule and initialisation
  vector recovers the data, whatever the uninitialised second buffer held.
\<close>

theorem aes_cbc_roundtrip:
  assumes "1 \<le> unat (aes_rounds aes)" "unat (aes_rounds aes) \<le> 14"
    and "4 * (unat (aes_rounds aes) + 1) \<le> length (aes_key aes)"
    and "length iv = 16" "length pt = 16 * n" "length pt < 2 ^ 64"
  shows "\<exists>ct. aes_cbc_encrypt aes iv pt (of_nat (length pt)) = Some ct
    \<and> ct = concat (cbc_blocks (block_cipher aes) iv (chunks 16 pt))
    \<and> aes_cbc_decrypt aes junk iv ct (of_nat (length ct)) = Some pt"
proof -
  have ready: "aes_ready aes" using assms(1-3) by (simp add: aes_ready_def Let_def)
  let ?cs = "cbc_blocks (block_cipher aes) iv (chunks 16 pt)"
  have ch: "\<forall>p\<in>set (chunks 16 pt). length p = 16" using chunks_lengths by blast
  have pt: "concat (chunks 16 pt) = pt" using assms(5) by (intro concat_chunks) simp
  have l: "length pt = 16 * length (chunks 16 pt)" using length_concat_16 [OF ch] unfolding pt .
  have "\<forall>c\<in>set ?cs. length c = 16"
    using cbc_blocks_lengths [OF length_block_cipher [OF ready] ch assms(4)] .
  from length_concat_16 [OF this] have lc: "length (concat ?cs) = 16 * length (chunks 16 pt)"
    unfolding length_cbc_blocks .
  have iv: "take 16 iv = iv" using assms(4) by simp
  have "16 * n < 2 ^ 64" using assms(5,6) by simp
  note enc = aes_cbc_encrypt_loop_blocks [OF ready assms(4,5) this]
  have d: "16 * length (chunks 16 pt) < 2 ^ 64" using assms(6) by (subst (asm) l)
  have "length (if True then iv else junk) = 16" for junk using assms(4) by simp
  note dec = aes_cbc_decrypt_loop_blocks [OF ready ch this d]
  have "aes_cbc_encrypt aes iv pt (of_nat (length pt)) = Some (concat ?cs)"
    using enc [of "[]"] unfolding aes_cbc_encrypt_def iv append_Nil2 .
  moreover have "aes_cbc_decrypt aes junk iv (concat ?cs) (of_nat (length (concat ?cs))) = Some pt"
    using dec [of junk "[]"]
    unfolding aes_cbc_decrypt_def append_Nil2 lc iv if_True pt .
  ultimately show ?thesis by (intro exI [of _ "concat ?cs"] conjI refl)
qed

lemma aes_cbc_roundtrip_witness:
  "\<exists>ct. aes_cbc_encrypt \<lparr>aes_key = replicate 60 7, aes_rounds = 10\<rparr> (replicate 16 1) (replicate 32 2) 32
      = Some ct
    \<and> aes_cbc_decrypt \<lparr>aes_key = replicate 60 7, aes_rounds = 10\<rparr> [] (replicate 16 1) ct
        (of_nat (length ct)) = Some (replicate 32 2)"
  using aes_cbc_roundtrip [of "\<lparr>aes_key = replicate 60 7, aes_rounds = 10\<rparr>" "replicate 16 1"
      "replicate 32 2" 2 "[]"]
  by auto

text \<open>
  When the length is not a multiple of sixteen the loop of \<open>aes_cbc_encrypt\<close>
  does not stop at zero but reads beyond the data: the function has no bounded result.
\<close>

theorem aes_cbc_encrypt_partial_block:
  assumes "length pt mod 16 \<noteq> 0" "length pt < 2 ^ 64"
  shows "aes_cbc_encrypt aes iv pt (of_nat (length pt)) = None"
proof -
  have "aes_cbc_encrypt_loop aes iv pt (of_nat (length pt)) = None"
    if "length pt mod 16 \<noteq> 0" "length pt < 2 ^ 64" for iv pt
    using that
  proof (induction pt arbitrary: iv rule: length_induct)
    case (1 pt)
    have "unat (of_nat (length pt) :: u64) = length pt" using 1(3) by (rule unat_of_nat_u64)
    moreover have "0 < length pt" using 1(2) by (cases pt) auto
    ultimately have pos: "(of_nat (length pt) :: u64) > 0" by (simp add: word_less_nat_alt)
    show ?case
    proof (cases "length pt < 16")
      case True
      then show ?thesis using pos by (subst aes_cbc_encrypt_loop.simps) simp
    next
      case False
      have sub: "(of_nat (length pt) :: u64) - 16 = of_nat (length (drop 16 pt))"
        using False by (simp add: of_nat_diff)
      have "length (drop 16 pt) < length pt" "length (drop 16 pt) < 2 ^ 64"
        using 1(3) False by simp_all
      moreover have "length (drop 16 pt) mod 16 \<noteq> 0" using 1(2) False by (simp add: le_mod_geq)
      ultimately have "aes_cbc_encrypt_loop aes v (drop 16 pt) (of_nat (length (drop 16 pt))) = None" for v
        using 1(1) [THEN spec, of "drop 16 pt"] by simp
      then show ?thesis
        using pos False
        by (subst aes_cbc_encrypt_loop.simps)
          (simp only: Let_def sub if_True if_False option.map)
    qed
  qed
  then show ?thesis using assms by (simp add: aes_cbc_encrypt_def)
qed

lemma aes_cbc_encrypt_partial_block_witness:
  "\<forall>aes iv. aes_cbc_encrypt aes iv [1, 2, 3] 3 = None"
  using aes_cbc_encrypt_partial_block [of "[1, 2, 3]"] by simp

end
