(* ===== verification/Tls_Record.thy ===== *)
theory Tls_Record
  imports Tls_Hmac Gcm Aes_Cipher
begin

text \<open>
  The record layer of the TLS 1.2 client, \<open>networking/tls.c\<close>: the output buffer,
  \<open>xwrite_encrypted_aesgcm\<close>, \<open>xwrite_encrypted_and_hmac_signed\<close> and their callers, and
  \<open>tls_xread_record\<close> with \<open>tls_aesgcm_decrypt\<close>. Both sides work in place on the buffers of
  \<open>struct tls_state\<close>. The file descriptors are the bytes written so far and the outcomes of
  the coming reads. \<open>None\<close> is the death of the process, or an access outside a buffer.
\<close>

section \<open>State\<close>

definition TLS_MAJ :: u8 where "TLS_MAJ = 3"
definition TLS_MIN :: u8 where "TLS_MIN = 3"
definition RECORD_TYPE_ALERT :: u8 where "RECORD_TYPE_ALERT = 21"
definition RECORD_TYPE_HANDSHAKE :: u8 where "RECORD_TYPE_HANDSHAKE = 22"
definition TLS_RSA_WITH_NULL_SHA256 :: u16 where "TLS_RSA_WITH_NULL_SHA256 = 0x003B"
definition ALLOW_RSA_NULL_SHA256 :: bool where "ALLOW_RSA_NULL_SHA256 = False"

definition TLS_MAX_OUTBUF :: nat where "TLS_MAX_OUTBUF = 2 ^ 14"
definition RECHDR_LEN :: nat where "RECHDR_LEN = 5"
definition OUTBUF_PFX :: nat where "OUTBUF_PFX = 8 + AES_BLOCK_SIZE"
definition OUTBUF_SFX :: nat where "OUTBUF_SFX = 32 + 16"
definition MAX_INBUF :: nat where "MAX_INBUF = RECHDR_LEN + 2 ^ 14 + 2048"
definition ENCRYPTION_AESGCM :: u32 where "ENCRYPTION_AESGCM = push_bit 4 1"
definition ENCRYPT_ON_WRITE :: u32 where "ENCRYPT_ON_WRITE = push_bit 5 1"

text \<open>One outcome of \<open>read\<close> with enough room: these bytes, none at the end, or an error.\<close>

datatype read_event = Got bytes | Read_error

record tls_state =
  flags :: u32
  ofd :: bytes
  ifd :: "read_event list"
  min_encrypted_len_on_read :: nat
  cipher_id :: u16
  MAC_size :: nat
  outbuf :: bytes
  outbuf_size :: nat
  inbuf :: bytes
  inbuf_size :: nat
  ofs_to_buffered :: nat
  buffered_size :: nat
  handshake_hash_ctx :: md5_ctx
  write_seq64_be :: u64
  client_write_IV :: bytes
  server_write_IV :: bytes
  client_write_MAC_key :: bytes
  aes_encrypt :: tls_aes
  aes_decrypt :: tls_aes
  tls_H :: bytes

text \<open>
  What the build and the machine decide: the two configuration switches, the random bytes, and
  what uninitialised memory happens to hold.
\<close>

record tls_env =
  ENABLE_FEATURE_TLS_SHA1 :: bool
  unaligned_ok :: bool
  urandom :: bytes
  stack_blocks :: "bytes \<times> bytes"
  stack_pre :: hmac_precomputed
  stack_block :: bytes
  fresh :: u8

definition TLS_MAC_SIZE :: "tls_env \<Rightarrow> tls_state \<Rightarrow> nat" where
  "TLS_MAC_SIZE env tls = (if \<not> ENABLE_FEATURE_TLS_SHA1 env then SHA256_OUTSIZE else MAC_size tls)"

definition xrealloc :: "tls_env \<Rightarrow> bytes \<Rightarrow> nat \<Rightarrow> bytes" where
  "xrealloc env buf n = take n (buf @ replicate (n - length buf) (fresh env))"

definition hash_handshake :: "tls_state \<Rightarrow> bytes \<Rightarrow> tls_state" where
  "hash_handshake tls buffer =
     tls\<lparr>handshake_hash_ctx := md5_hash (handshake_hash_ctx tls) buffer\<rparr>"

definition tls_free_outbuf :: "tls_state \<Rightarrow> tls_state" where
  "tls_free_outbuf tls = tls\<lparr>outbuf_size := 0, outbuf := []\<rparr>"

text \<open>\<open>tls_get_outbuf\<close>; the pointer it returns is always \<open>outbuf + OUTBUF_PFX\<close>.\<close>

definition tls_get_outbuf :: "tls_env \<Rightarrow> tls_state \<Rightarrow> nat \<Rightarrow> tls_state option" where
  "tls_get_outbuf env tls len =
     (if len > TLS_MAX_OUTBUF then None
      else let len = len + (OUTBUF_PFX + OUTBUF_SFX)
           in Some (if outbuf_size tls < len
                    then tls\<lparr>outbuf_size := len, outbuf := xrealloc env (outbuf tls) len\<rparr>
                    else tls))"

definition tls_get_zeroed_outbuf :: "tls_env \<Rightarrow> tls_state \<Rightarrow> nat \<Rightarrow> tls_state option" where
  "tls_get_zeroed_outbuf env tls len =
     map_option (\<lambda>tls. tls\<lparr>outbuf := blit (outbuf tls) OUTBUF_PFX (replicate len 0)\<rparr>)
       (tls_get_outbuf env tls len)"

definition xwrite :: "tls_state \<Rightarrow> nat \<Rightarrow> nat \<Rightarrow> tls_state" where
  "xwrite tls p len = tls\<lparr>ofd := ofd tls @ take len (drop p (outbuf tls))\<rparr>"

text \<open>The header fields of the record at offset \<open>p\<close> of the output buffer.\<close>

definition set_type :: "nat \<Rightarrow> u8 \<Rightarrow> tls_state \<Rightarrow> tls_state" where
  "set_type p typ tls = tls\<lparr>outbuf := (outbuf tls)[p := typ]\<rparr>"

definition set_proto :: "nat \<Rightarrow> tls_state \<Rightarrow> tls_state" where
  "set_proto p tls = tls\<lparr>outbuf := (outbuf tls)[p + 1 := TLS_MAJ, p + 2 := TLS_MIN]\<rparr>"

definition set_len16 :: "nat \<Rightarrow> nat \<Rightarrow> tls_state \<Rightarrow> tls_state" where
  "set_len16 p sz tls =
     tls\<lparr>outbuf := (outbuf tls)[p + 3 := of_nat (sz div 256), p + 4 := of_nat (sz mod 256)]\<rparr>"

section \<open>Writing\<close>

text \<open>
  \<open>xwrite_encrypted_and_hmac_signed\<close>. The padding loop runs at least once.
\<close>

function pad_loop :: "bytes \<Rightarrow> nat \<Rightarrow> u8 \<Rightarrow> bytes \<times> nat" where
  "pad_loop mem sz padding_length =
     (let mem = mem[OUTBUF_PFX + sz := padding_length];
          sz = sz + 1
      in if sz mod AES_BLOCK_SIZE \<noteq> 0 then pad_loop mem sz padding_length else (mem, sz))"
  by pat_completeness auto
termination
  by (relation "measure (\<lambda>(mem, sz, padding_length). 15 - sz mod 16)")
    (auto simp: AES_BLOCK_SIZE_def mod_Suc split: if_splits)

declare pad_loop.simps [simp del]

definition xwrite_encrypted_and_hmac_signed ::
  "tls_env \<Rightarrow> tls_state \<Rightarrow> nat \<Rightarrow> u8 \<Rightarrow> tls_state option" where
  "xwrite_encrypted_and_hmac_signed env tls sz typ =
     (let buf = OUTBUF_PFX;
          xhdr = (if \<not> ALLOW_RSA_NULL_SHA256 \<or> cipher_id tls \<noteq> TLS_RSA_WITH_NULL_SHA256
                  then buf - RECHDR_LEN - AES_BLOCK_SIZE else buf - RECHDR_LEN);
          tls = set_len16 xhdr sz (set_proto xhdr (set_type xhdr typ tls))
      in case hmac (ENABLE_FEATURE_TLS_SHA1 env) (MAC_size tls) (stack_blocks env) (stack_pre env)
                (take (TLS_MAC_SIZE env tls) (client_write_MAC_key tls))
                [store64 (write_seq64_be tls), take RECHDR_LEN (drop xhdr (outbuf tls)),
                 take sz (drop buf (outbuf tls))] of
           None \<Rightarrow> None
         | Some mac \<Rightarrow>
             let tls = tls\<lparr>outbuf := blit (outbuf tls) (buf + sz) mac\<rparr>;
                 tls = tls\<lparr>write_seq64_be := SWAP_BE64 (1 + SWAP_BE64 (write_seq64_be tls))\<rparr>;
                 sz = sz + TLS_MAC_SIZE env tls
             in if ALLOW_RSA_NULL_SHA256 \<and> cipher_id tls = TLS_RSA_WITH_NULL_SHA256
                then Some (xwrite (set_len16 xhdr sz tls) xhdr (RECHDR_LEN + sz))
                else let tls = tls\<lparr>outbuf := blit (outbuf tls) (buf - AES_BLOCK_SIZE)
                                   (take AES_BLOCK_SIZE (urandom env))\<rparr>;
                         padding_length = NOT (of_nat sz) AND (of_nat AES_BLOCK_SIZE - 1);
                         (mem, sz) = pad_loop (outbuf tls) sz padding_length
                     in case aes_cbc_encrypt (aes_encrypt tls) (drop (buf - AES_BLOCK_SIZE) mem)
                               (drop buf mem) (of_nat sz) of
                          None \<Rightarrow> None
                        | Some ct \<Rightarrow>
                            let tls = tls\<lparr>outbuf := blit mem buf ct\<rparr>;
                                sz = sz + AES_BLOCK_SIZE
                            in Some (xwrite (set_len16 xhdr sz tls) xhdr (RECHDR_LEN + sz)))"

text \<open>\<open>xwrite_encrypted_aesgcm\<close>. The loop encrypts in place, counting from two.\<close>

definition htonl :: "u32 \<Rightarrow> u32" where
  "htonl = SWAP_BE32"

definition COUNTER :: "bytes \<Rightarrow> u32 \<Rightarrow> bytes" where
  "COUNTER v x = blit v 12 (store32 x)"

function aesgcm_loop :: "tls_aes \<Rightarrow> bytes \<Rightarrow> bytes \<Rightarrow> nat \<Rightarrow> u32 \<Rightarrow> nat \<Rightarrow> bytes \<times> bytes \<times> nat" where
  "aesgcm_loop aes nonce mem buf ctr remaining =
     (if remaining \<noteq> 0
      then let ctr = ctr + 1;
               nonce = COUNTER nonce (htonl ctr);
               scratch = aes_encrypt_one_block aes nonce;
               n = (if remaining > AES_BLOCK_SIZE then AES_BLOCK_SIZE else remaining);
               mem = xorbuf mem buf (Outside scratch) n
           in aesgcm_loop aes nonce mem (buf + n) ctr (remaining - n)
      else (nonce, mem, buf))"
  by pat_completeness auto
termination
  by (relation "measure (\<lambda>(aes, nonce, mem, buf, ctr, remaining). remaining)")
    (auto simp: AES_BLOCK_SIZE_def)

declare aesgcm_loop.simps [simp del]

definition xwrite_encrypted_aesgcm ::
  "tls_env \<Rightarrow> tls_state \<Rightarrow> nat \<Rightarrow> u8 \<Rightarrow> tls_state option" where
  "xwrite_encrypted_aesgcm env tls sz typ =
     (let buf = OUTBUF_PFX;
          xhdr = buf - 8 - RECHDR_LEN;
          tls = set_type xhdr typ tls;
          aad = (stack_block env)[8 := typ, 9 := TLS_MAJ, 10 := TLS_MIN, 11 := of_nat (sz div 256)];
          aad = COUNTER aad (SWAP_LE32 (of_nat sz AND 0xff));
          nonce = blit (stack_block env) 0 (take 4 (client_write_IV tls));
          t64 = write_seq64_be tls;
          nonce = blit nonce 4 (store64 t64);
          aad = blit aad 0 (store64 t64);
          tls = tls\<lparr>outbuf := blit (outbuf tls) (buf - 8) (store64 t64)\<rparr>;
          tls = tls\<lparr>write_seq64_be := SWAP_BE64 (1 + SWAP_BE64 t64)\<rparr>;
          (nonce, mem, buf) = aesgcm_loop (aes_encrypt tls) nonce (outbuf tls) buf 1 sz;
          tls = tls\<lparr>outbuf := mem\<rparr>
      in case aesgcm_GHASH (unaligned_ok env) (tls_H tls) aad (drop OUTBUF_PFX (outbuf tls))
                (of_nat sz) of
           None \<Rightarrow> None
         | Some authtag \<Rightarrow>
             let nonce = COUNTER nonce (htonl 1);
                 scratch = aes_encrypt_one_block (aes_encrypt tls) nonce;
                 authtag = xorbuf_aligned_AES_BLOCK_SIZE authtag scratch;
                 tls = tls\<lparr>outbuf := blit (outbuf tls) buf authtag\<rparr>;
                 xhdr = OUTBUF_PFX - 8 - RECHDR_LEN;
                 sz = sz + (8 + 16);
                 tls = set_len16 xhdr sz (set_proto xhdr tls)
             in Some (xwrite tls xhdr (sz + RECHDR_LEN)))"

definition xwrite_encrypted :: "tls_env \<Rightarrow> tls_state \<Rightarrow> nat \<Rightarrow> u8 \<Rightarrow> tls_state option" where
  "xwrite_encrypted env tls sz typ =
     (if flags tls AND ENCRYPTION_AESGCM = 0
      then xwrite_encrypted_and_hmac_signed env tls sz typ
      else xwrite_encrypted_aesgcm env tls sz typ)"

definition xwrite_handshake_record :: "tls_state \<Rightarrow> nat \<Rightarrow> tls_state" where
  "xwrite_handshake_record tls sz =
     (let xhdr = OUTBUF_PFX - RECHDR_LEN;
          tls = set_len16 xhdr sz (set_proto xhdr (set_type xhdr RECORD_TYPE_HANDSHAKE tls))
      in xwrite tls xhdr (RECHDR_LEN + sz))"

definition xwrite_and_update_handshake_hash ::
  "tls_env \<Rightarrow> tls_state \<Rightarrow> nat \<Rightarrow> tls_state option" where
  "xwrite_and_update_handshake_hash env tls sz =
     (if flags tls AND ENCRYPT_ON_WRITE = 0
      then let tls = xwrite_handshake_record tls sz
           in Some (hash_handshake tls (take sz (drop OUTBUF_PFX (outbuf tls))))
      else xwrite_encrypted env tls sz RECORD_TYPE_HANDSHAKE)"

section \<open>Reading\<close>

text \<open>
  \<open>tls_aesgcm_decrypt\<close> writes the plaintext eight bytes before the ciphertext it reads: the
  source of \<open>xorbuf3\<close> overlaps its destination.
\<close>

function aesgcm_decrypt_loop :: "tls_aes \<Rightarrow> bytes \<Rightarrow> bytes \<Rightarrow> nat \<Rightarrow> u32 \<Rightarrow> nat \<Rightarrow> bytes" where
  "aesgcm_decrypt_loop aes nonce mem buf ctr remaining =
     (if remaining \<noteq> 0
      then let ctr = ctr + 1;
               nonce = COUNTER nonce (htonl ctr);
               scratch = aes_encrypt_one_block aes nonce;
               n = (if remaining > AES_BLOCK_SIZE then AES_BLOCK_SIZE else remaining);
               mem = xorbuf3 mem buf (Outside scratch) (Inside (buf + 8)) n
           in aesgcm_decrypt_loop aes nonce mem (buf + n) ctr (remaining - n)
      else mem)"
  by pat_completeness auto
termination
  by (relation "measure (\<lambda>(aes, nonce, mem, buf, ctr, remaining). remaining)")
    (auto simp: AES_BLOCK_SIZE_def)

declare aesgcm_decrypt_loop.simps [simp del]

definition tls_aesgcm_decrypt :: "tls_env \<Rightarrow> tls_state \<Rightarrow> nat \<Rightarrow> int \<Rightarrow> tls_state option" where
  "tls_aesgcm_decrypt env tls buf sz =
     (if sz < 0 \<or> int buf + 8 + sz > int (length (inbuf tls)) then None
      else let nonce = blit (stack_block env) 0 (take 4 (server_write_IV tls));
               nonce = blit nonce 4 (take 8 (drop buf (inbuf tls)))
           in Some (tls\<lparr>inbuf :=
                aesgcm_decrypt_loop (aes_decrypt tls) nonce (inbuf tls) buf 1 (nat sz)\<rparr>))"

text \<open>
  The reading loop of \<open>tls_xread_record\<close>. It stops with a complete record, at the end of the
  input between two records, or dies.
\<close>

datatype read_stop = Packet tls_state nat nat | Eof tls_state | Read_die

fun events_size :: "read_event list \<Rightarrow> nat" where
  "events_size [] = 0"
| "events_size (Got bs # es) = length bs + events_size es"
| "events_size (Read_error # es) = events_size es"

fun safe_read :: "nat \<Rightarrow> read_event list \<Rightarrow> bytes option \<times> read_event list" where
  "safe_read rem [] = (Some [], [])"
| "safe_read rem (Got bs # es) =
     (if length bs \<le> rem then (Some bs, es) else (Some (take rem bs), Got (drop rem bs) # es))"
| "safe_read rem (Read_error # es) = (None, es)"

lemma safe_read_size:
  "safe_read rem es = (Some bs, es') \<Longrightarrow> length bs + events_size es' = events_size es"
  by (cases "(rem, es)" rule: safe_read.cases) (auto split: if_splits)

lemma safe_read_less:
  "(Some bs, es') = safe_read rem es \<Longrightarrow> bs \<noteq> [] \<Longrightarrow> events_size es' < events_size es"
  using safe_read_size [of rem es bs es'] by (cases bs) auto

definition record_target :: "tls_state \<Rightarrow> nat" where
  "record_target tls = RECHDR_LEN + (256 * unat (inbuf tls ! 3) + unat (inbuf tls ! 4))"

definition grow_inbuf :: "tls_env \<Rightarrow> tls_state \<Rightarrow> tls_state" where
  "grow_inbuf env tls =
     (let inbuf_sz = inbuf_size tls + MAX_INBUF div 8;
          inbuf_sz = (if inbuf_sz > MAX_INBUF then MAX_INBUF else inbuf_sz)
      in tls\<lparr>inbuf_size := inbuf_sz, inbuf := xrealloc env (inbuf tls) inbuf_sz\<rparr>)"

text \<open>The header is looked at once it is complete and the target not yet known.\<close>

definition header_check :: "tls_state \<Rightarrow> nat \<Rightarrow> nat \<Rightarrow> nat option" where
  "header_check tls got target =
     (if got \<ge> RECHDR_LEN \<and> target = MAX_INBUF
      then let target = record_target tls
           in if target > MAX_INBUF \<or> inbuf tls ! 1 \<noteq> TLS_MAJ \<or> inbuf tls ! 2 \<noteq> TLS_MIN
              then None else Some target
      else Some target)"

definition read_more :: "tls_env \<Rightarrow> tls_state \<Rightarrow> nat \<Rightarrow> (tls_state \<times> bytes) option" where
  "read_more env tls got =
     (let tls = (if inbuf_size tls - got = 0 then grow_inbuf env tls else tls);
          rem = inbuf_size tls - got
      in case safe_read rem (ifd tls) of
           (None, es) \<Rightarrow> None
         | (Some bs, es) \<Rightarrow> Some (tls\<lparr>ifd := es, inbuf := blit (inbuf tls) got bs\<rparr>, bs))"

lemma read_more_size:
  "read_more env tls got = Some (tls', bs) \<Longrightarrow>
     length bs + events_size (ifd tls') = events_size (ifd tls)"
  by (auto simp: read_more_def grow_inbuf_def Let_def split: prod.splits option.splits
      dest: safe_read_size)

lemma read_more_less:
  "read_more env tls got = Some (tls', bs) \<Longrightarrow> bs \<noteq> [] \<Longrightarrow>
     events_size (ifd tls') < events_size (ifd tls)"
  using read_more_size [of env tls got tls' bs] by (cases bs) auto

function read_loop :: "tls_env \<Rightarrow> tls_state \<Rightarrow> nat \<Rightarrow> nat \<Rightarrow> read_stop" where
  "read_loop env tls got target =
     (case header_check tls got target of
        None \<Rightarrow> Read_die
      | Some target \<Rightarrow>
          if got \<ge> target then Packet tls got target
          else case read_more env tls got of
                 None \<Rightarrow> Read_die
               | Some (tls, bs) \<Rightarrow>
                   if bs = [] then (if got = 0 then Eof (tls\<lparr>buffered_size := 0\<rparr>) else Read_die)
                   else read_loop env tls (got + length bs) target)"
  by pat_completeness auto
termination
  by (relation "measure (\<lambda>(env, tls, got, target). events_size (ifd tls))")
    (auto dest: read_more_less)

declare read_loop.simps [simp del]

lemma header_check_ge:
  "header_check tls got target = Some target' \<Longrightarrow> RECHDR_LEN \<le> target \<Longrightarrow> RECHDR_LEN \<le> target'"
  by (auto simp: header_check_def record_target_def Let_def split: if_splits)

lemma read_loop_measure:
  "read_loop env tls got target = Packet tls' got' target' \<Longrightarrow> RECHDR_LEN \<le> target \<Longrightarrow>
     RECHDR_LEN \<le> target' \<and> target' \<le> got' \<and>
     got' + events_size (ifd tls') = got + events_size (ifd tls)"
proof (induction env tls got target rule: read_loop.induct)
  case (1 env tls got target)
  show ?case
  proof (cases "header_check tls got target")
    case None
    then show ?thesis using "1.prems"(1) by (simp add: read_loop.simps [of env tls got target])
  next
    case (Some t)
    note t = Some and ge = header_check_ge [OF Some "1.prems"(2)]
    show ?thesis
    proof (cases "t \<le> got")
      case True
      then show ?thesis using "1.prems"(1) t ge by (simp add: read_loop.simps [of env tls got target])
    next
      case False
      then obtain u bs where m: "read_more env tls got = Some (u, bs)" "bs \<noteq> []"
          "read_loop env u (got + length bs) t = Packet tls' got' target'"
        using "1.prems"(1) t
        by (auto simp: read_loop.simps [of env tls got target] split: option.splits if_splits)
      then show ?thesis
        using "1.IH" [OF t False m(1) refl m(2,3) ge] read_more_size [OF m(1)] by simp
    qed
  qed
qed

text \<open>
  What follows once the record lies at the start of the buffer: \<open>open_record\<close> decrypts it in
  place and gives the length of its content, \<open>finish_record\<close> handles alerts and the handshake
  hash. \<open>Again\<close> is the \<open>goto again\<close> after a warning.
\<close>

datatype record_stop = Again tls_state | Return tls_state int

definition open_record :: "tls_env \<Rightarrow> tls_state \<Rightarrow> int \<Rightarrow> (tls_state \<times> int) option" where
  "open_record env tls sz =
     (if min_encrypted_len_on_read tls \<noteq> 0
      then if sz < int (min_encrypted_len_on_read tls) then None
           else if flags tls AND ENCRYPTION_AESGCM \<noteq> 0
           then let p = RECHDR_LEN;
                    sz = sz - int (8 + AES_BLOCK_SIZE)
                in map_option (\<lambda>tls. (tls, sz)) (tls_aesgcm_decrypt env tls p sz)
           else if min_encrypted_len_on_read tls > TLS_MAC_SIZE env tls
           then let p = RECHDR_LEN
                in if sz mod int AES_BLOCK_SIZE \<noteq> 0 then None
                   else let sz = sz - int AES_BLOCK_SIZE
                        in case aes_cbc_decrypt (aes_decrypt tls) (stack_block env) (drop p (inbuf tls))
                                  (drop (p + AES_BLOCK_SIZE) (inbuf tls)) (of_int sz) of
                             None \<Rightarrow> None
                           | Some pt \<Rightarrow>
                               let tls = tls\<lparr>inbuf := blit (inbuf tls) p pt\<rparr>;
                                   padding_len = uint (inbuf tls ! nat (int p + sz - 1));
                                   padding_len = padding_len + 1
                               in Some (tls, sz - (int (TLS_MAC_SIZE env tls) + padding_len))
           else Some (tls, sz - int (min_encrypted_len_on_read tls))
      else Some (tls, sz))"

definition finish_record :: "tls_state \<Rightarrow> int \<Rightarrow> record_stop option" where
  "finish_record tls sz =
     (if sz < 0 then None
      else if inbuf tls ! 0 = RECORD_TYPE_ALERT \<and> sz \<ge> 2
      then let p = RECHDR_LEN
           in if inbuf tls ! p = 2 then None
              else if inbuf tls ! p = 1
              then if inbuf tls ! (p + 1) = 0 then Some (Return tls 0) else Some (Again tls)
              else Some (Return tls 0)
      else if inbuf tls ! 0 = RECORD_TYPE_HANDSHAKE
      then Some (Return (hash_handshake tls (take (nat sz) (drop RECHDR_LEN (inbuf tls)))) sz)
      else Some (Return tls sz))"

lemma open_record_frame:
  "open_record env tls sz = Some (tls', sz') \<Longrightarrow>
     buffered_size tls' = buffered_size tls \<and> ifd tls' = ifd tls"
  by (auto simp: open_record_def tls_aesgcm_decrypt_def Let_def split: if_splits option.splits)

lemma finish_record_again: "finish_record tls sz = Some (Again tls') \<Longrightarrow> tls' = tls"
  by (auto simp: finish_record_def Let_def split: if_splits)

function tls_xread_record :: "tls_env \<Rightarrow> tls_state \<Rightarrow> (tls_state \<times> int) option" where
  "tls_xread_record env tls =
     (let got = buffered_size tls;
          tls = (if got \<noteq> 0
                 then tls\<lparr>inbuf := blit (inbuf tls) 0 (take got (drop (ofs_to_buffered tls) (inbuf tls)))\<rparr>
                 else tls)
      in case read_loop env tls got MAX_INBUF of
           Read_die \<Rightarrow> None
         | Eof tls \<Rightarrow> Some (tls, 0)
         | Packet tls got target \<Rightarrow>
             let tls = tls\<lparr>buffered_size := got - target, ofs_to_buffered := target\<rparr>
             in case open_record env tls (int target - int RECHDR_LEN) of
                  None \<Rightarrow> None
                | Some (tls, sz) \<Rightarrow>
                    (case finish_record tls sz of
                       None \<Rightarrow> None
                     | Some (Return tls sz) \<Rightarrow> Some (tls, sz)
                     | Some (Again tls) \<Rightarrow> tls_xread_record env tls))"
  by pat_completeness auto
termination
  by (relation "measure (\<lambda>(env, tls). buffered_size tls + events_size (ifd tls))")
    (auto dest!: read_loop_measure open_record_frame finish_record_again
      simp: RECHDR_LEN_def MAX_INBUF_def split: if_splits)

declare tls_xread_record.simps [simp del]

end
