(* ===== verification/Tls_Gcm.thy ===== *)
theory Tls_Gcm
  imports Tls_Record
begin

text \<open>
  Records protected with AES-GCM: what \<open>xwrite_encrypted_aesgcm\<close> sends is the GenericAEADCipher
  record of RFC 5288, with the authenticated encryption of NIST SP 800-38D, and
  \<open>tls_aesgcm_decrypt\<close> recovers the content in place although its reads and writes overlap.
\<close>

section \<open>Counter mode\<close>

text \<open>SP 800-38D, section 6.5, with the counter in the last four bytes of the block.\<close>

function ctr_xor :: "(bytes \<Rightarrow> bytes) \<Rightarrow> bytes \<Rightarrow> u32 \<Rightarrow> bytes \<Rightarrow> bytes" where
  "ctr_xor E iv n data =
     (if data = [] then []
      else map2 (XOR) (take 16 data) (E (iv @ store_be32 n)) @ ctr_xor E iv (n + 1) (drop 16 data))"
  by pat_completeness auto
termination
  by (relation "measure (\<lambda>(E, iv, n, data). length data)") auto

declare ctr_xor.simps [simp del]

lemma ctr_xor_Nil [simp]: "ctr_xor E iv n [] = []"
  by (simp add: ctr_xor.simps)

text \<open>What is needed of the cipher: blocks to blocks.\<close>

locale block_fun =
  fixes E :: "bytes \<Rightarrow> bytes"
  assumes block: "length s = 16 \<Longrightarrow> length (E s) = 16"
begin

lemma length_ctr_xor:
  "length iv = 12 \<Longrightarrow> length (ctr_xor E iv n data) = length data"
proof (induction data arbitrary: n rule: length_induct)
  case (1 data)
  show ?case
  proof (cases "data = []")
    case False
    have "length (E (iv @ store_be32 n)) = 16"
      using 1(2) by (intro block) (simp add: store_be32_def)
    moreover have "length (ctr_xor E iv (n + 1) (drop 16 data)) = length (drop 16 data)"
      using 1 False by simp
    ultimately show ?thesis using False by (subst ctr_xor.simps) simp
  qed simp
qed

lemma ctr_xor_twice:
  "length iv = 12 \<Longrightarrow> ctr_xor E iv n (ctr_xor E iv n data) = data"
proof (induction data arbitrary: n rule: length_induct)
  case (1 data)
  show ?case
  proof (cases "data = []")
    case False
    let ?k = "E (iv @ store_be32 n)" and ?r = "ctr_xor E iv (n + 1) (drop 16 data)"
    have k: "length ?k = 16" using 1(2) by (intro block) (simp add: store_be32_def)
    have c: "ctr_xor E iv n data = map2 (XOR) (take 16 data) ?k @ ?r"
      using False by (subst ctr_xor.simps) simp
    have r: "ctr_xor E iv (n + 1) ?r = drop 16 data" using 1 False by simp
    have x: "map2 (XOR) (map2 (XOR) d ?k) ?k = d" if "length d \<le> 16" for d
      using that k by (intro nth_equalityI) (simp_all add: xor.assoc)
    show ?thesis
    proof (cases "length data \<le> 16")
      case True
      moreover have "?k \<noteq> []" using k by auto
      ultimately show ?thesis unfolding c using False k x [of data]
        by (subst ctr_xor.simps) simp
    next
      case nle: False
      then have "take 16 (map2 (XOR) (take 16 data) ?k @ ?r) = map2 (XOR) (take 16 data) ?k"
          "drop 16 (map2 (XOR) (take 16 data) ?k @ ?r) = ?r"
        using k by simp_all
      moreover have "?k \<noteq> []" using k by auto
      ultimately show ?thesis unfolding c using False k x [of "take 16 data"] r nle
        by (subst ctr_xor.simps) simp
    qed
  qed simp
qed

lemma ctr_xor_step:
  assumes "length iv = 12" "r \<noteq> 0" "r \<le> length data"
  defines "m \<equiv> if r > AES_BLOCK_SIZE then AES_BLOCK_SIZE else r"
  shows "ctr_xor E iv n (take r data) =
    map2 (XOR) (take m data) (take m (E (iv @ store_be32 n)))
      @ ctr_xor E iv (n + 1) (take (r - m) (drop m data))"
proof -
  have k: "length (E (iv @ store_be32 n)) = 16"
    using assms(1) by (intro block) (simp add: store_be32_def)
  have z: "map2 (XOR) a (take (length a) b) = map2 (XOR) a (b :: bytes)" for a b
    by (induction a arbitrary: b) (auto simp: zip_Cons1 split: list.splits)
  show ?thesis
  proof (cases "r > 16")
    case True
    then have "m = 16" by (simp add: m_def AES_BLOCK_SIZE_def)
    then show ?thesis using assms(2,3) True k by (subst ctr_xor.simps) (simp add: drop_take)
  next
    case False
    then have m: "m = r" by (simp add: m_def AES_BLOCK_SIZE_def)
    have "length (take r data) = r" using assms(3) by simp
    then show ?thesis using z [of "take r data" "E (iv @ store_be32 n)"] assms(2,3) False m
      by (subst ctr_xor.simps) simp
  qed
qed

end

lemma length_Let_state:
  fixes a :: aes_state
  shows "length a = n \<Longrightarrow> (\<And>x. length x = n \<Longrightarrow> length (f x) = n) \<Longrightarrow> length (Let a f :: aes_state) = n"
  by (simp add: Let_def)

lemma length_Let_word:
  fixes v :: u32
  shows "(\<And>x. length (f x) = n) \<Longrightarrow> length (Let v f :: aes_state) = n"
  by (simp add: Let_def)

lemma fst_Let_state:
  fixes a :: aes_state
  shows "length a = n \<Longrightarrow> (\<And>x. length x = n \<Longrightarrow> length (fst (f x)) = n) \<Longrightarrow>
    length (fst (Let a f :: aes_state \<times> u32 list)) = n"
  by (simp add: Let_def)

lemma fst_Let_word:
  fixes v :: u32
  shows "(\<And>x. length (fst (f x)) = n) \<Longrightarrow> length (fst (Let v f :: aes_state \<times> u32 list)) = n"
  by (simp add: Let_def)

lemma length_fst_foldl:
  assumes "\<And>p i. length (fst (f p i)) = length (fst p)"
  shows "length (fst (foldl f p xs)) = length (fst p)"
  by (induction xs arbitrary: p) (simp_all add: assms)

lemma length_transformations:
  "length (AddRoundKey s k) = length s" "length (SubBytes s) = length s"
  "length (ShiftRows s) = length s" "length s = 16 \<Longrightarrow> length (MixColumns s) = 16"
proof -
  show "length (AddRoundKey s k) = length s"
    unfolding AddRoundKey_def
    by (subst length_fst_foldl) (unfold split_beta, (intro fst_Let_state fst_Let_word; simp), simp)
  show "length (ShiftRows s) = length s"
    unfolding ShiftRows_def by (intro length_Let_state length_Let_word; simp)
  define f where "f = (\<lambda>s i. blit s i (mix_column (s ! (i + 0)) (s ! (i + 1)) (s ! (i + 2)) (s ! (i + 3))))"
  have "length (f s i) = 16" if "length s = 16" "i \<le> 12" for s i
    using that by (simp add: f_def mix_column_def Let_def)
  then show "length s = 16 \<Longrightarrow> length (MixColumns s) = 16"
    unfolding MixColumns_def f_def [symmetric] foldl.simps by simp
qed (simp add: SubBytes_def)

lemma length_aes_encrypt_loop: "length s = 16 \<Longrightarrow> length (aes_encrypt_loop n k s) = 16"
proof (induction n k s rule: aes_encrypt_loop.induct)
  case (1 n k s)
  have l: "length (ShiftRows (SubBytes (AddRoundKey s k))) = 16"
    using 1(2) by (simp only: length_transformations(1-3))
  show ?case
  proof (cases "n - 1 = 0")
    case True
    show ?thesis
      unfolding aes_encrypt_loop.simps [of n k s] Let_def if_P [OF True]
      using l by (simp only: length_transformations(1))
  next
    case False
    show ?thesis
      unfolding aes_encrypt_loop.simps [of n k s] Let_def if_not_P [OF False]
      by (rule "1.IH" [OF refl refl refl refl False length_transformations(4) [OF l]])
  qed
qed

interpretation aes_block: block_fun "aes_encrypt_one_block aes" for aes
  by unfold_locales (simp add: aes_encrypt_one_block_def aes_encrypt_1_def length_aes_encrypt_loop)

lemma length_store_be32 [simp]: "length (store_be32 v) = 4"
  by (simp add: store_be32_def)

lemma COUNTER_iv:
  assumes "length nonce = 16"
  shows "COUNTER nonce (htonl n) = take 12 nonce @ store_be32 n"
  using assms by (simp add: COUNTER_def htonl_def SWAP_BE32_def BB_BIG_ENDIAN_def blit_def store32_bswap32)

lemma blit_blit: "p + length a + length b \<le> length mem \<Longrightarrow>
  blit (blit mem p a) (p + length a) b = blit mem p (a @ b)"
  by (simp add: blit_def add.commute add.left_commute)

lemma drop_blit: "p + length a \<le> q \<Longrightarrow> p + length a \<le> length mem \<Longrightarrow> drop q (blit mem p a) = drop q mem"
  by (simp add: blit_def)

lemma aesgcm_loop_ctr:
  "length nonce = 16 \<Longrightarrow> buf + remaining \<le> length mem \<Longrightarrow>
    \<exists>nonce'. aesgcm_loop aes nonce mem buf n remaining =
      (nonce', blit mem buf (ctr_xor (aes_encrypt_one_block aes) (take 12 nonce) (n + 1)
          (take remaining (drop buf mem))), buf + remaining)
      \<and> length nonce' = 16 \<and> take 12 nonce' = take 12 nonce"
proof (induction aes nonce mem buf n remaining rule: aesgcm_loop.induct)
  case (1 aes nonce mem buf n remaining)
  show ?case
  proof (cases "remaining = 0")
    case True
    then show ?thesis using "1.prems" by (simp add: aesgcm_loop.simps)
  next
    case False
    define c where "c = COUNTER nonce (htonl (n + 1))"
    define k where "k = aes_encrypt_one_block aes c"
    define m where "m = (if remaining > AES_BLOCK_SIZE then AES_BLOCK_SIZE else remaining)"
    define mem1 where "mem1 = xorbuf mem buf (Outside k) m"
    have c: "c = take 12 nonce @ store_be32 (n + 1)" "length c = 16"
      using "1.prems"(1) by (simp_all add: c_def COUNTER_iv)
    have k: "length k = 16" using aes_block.block [OF c(2)] by (simp add: k_def)
    have m: "m \<le> remaining" "m \<le> 16" by (simp_all add: m_def AES_BLOCK_SIZE_def)
    let ?x = "map2 (XOR) (take m (drop buf mem)) (take m k)"
    have x: "length ?x = m" using m k "1.prems"(2) by simp
    have mem1: "mem1 = blit mem buf ?x"
      unfolding mem1_def using m k "1.prems"(2) by (intro xorbuf_map2) simp_all
    have len: "length mem1 = length mem" using m "1.prems"(2) k by (simp add: mem1)
    have d: "drop (buf + m) mem1 = drop (buf + m) mem"
      using drop_blit [of buf ?x "buf + m" mem] x m(1) "1.prems"(2) by (simp add: mem1)
    have eq: "aesgcm_loop aes nonce mem buf n remaining =
        aesgcm_loop aes c mem1 (buf + m) (n + 1) (remaining - m)"
      using False unfolding aesgcm_loop.simps [of aes nonce mem buf n remaining]
      by (simp add: Let_def c_def k_def m_def mem1_def)
    have "take 12 c = take 12 nonce" using c "1.prems"(1) by simp
    then obtain nonce' where ih: "aesgcm_loop aes c mem1 (buf + m) (n + 1) (remaining - m) =
        (nonce', blit mem1 (buf + m) (ctr_xor (aes_encrypt_one_block aes) (take 12 nonce) (n + 1 + 1)
          (take (remaining - m) (drop (buf + m) mem))), buf + remaining)"
        "length nonce' = 16" "take 12 nonce' = take 12 nonce"
      using "1.IH" [OF False refl c_def k_def m_def mem1_def] c(2) m len d "1.prems"(2)
      by auto
    let ?R = "ctr_xor (aes_encrypt_one_block aes) (take 12 nonce) (n + 1 + 1)
          (take (remaining - m) (drop (buf + m) mem))"
    have "length ?R = remaining - m"
      using aes_block.length_ctr_xor "1.prems"(1,2) m by simp
    then have "blit mem1 (buf + m) ?R = blit mem buf (?x @ ?R)"
      using blit_blit [of buf ?x ?R mem] x m(1) "1.prems"(2) by (simp add: mem1)
    moreover have "?x @ ?R = ctr_xor (aes_encrypt_one_block aes) (take 12 nonce) (n + 1)
        (take remaining (drop buf mem))"
      using aes_block.ctr_xor_step [of "take 12 nonce" remaining "drop buf mem" aes "n + 1"] "1.prems"(1,2) False
      by (simp add: k_def c(1) add.commute flip: m_def)
    ultimately show ?thesis using eq ih by simp
  qed
qed

lemma map2_xor_commute: "map2 (XOR) a b = map2 (XOR) b (a :: bytes)"
  by (induction a b rule: list_induct2') (simp_all add: xor.commute)

lemma aesgcm_decrypt_loop_ctr:
  "length nonce = 16 \<Longrightarrow> buf + 8 + remaining \<le> length mem \<Longrightarrow>
    aesgcm_decrypt_loop aes nonce mem buf n remaining =
      blit mem buf (ctr_xor (aes_encrypt_one_block aes) (take 12 nonce) (n + 1)
        (take remaining (drop (buf + 8) mem)))"
proof (induction aes nonce mem buf n remaining rule: aesgcm_decrypt_loop.induct)
  case (1 aes nonce mem buf n remaining)
  show ?case
  proof (cases "remaining = 0")
    case True
    then show ?thesis using "1.prems" by (simp add: aesgcm_decrypt_loop.simps)
  next
    case False
    define c where "c = COUNTER nonce (htonl (n + 1))"
    define k where "k = aes_encrypt_one_block aes c"
    define m where "m = (if remaining > AES_BLOCK_SIZE then AES_BLOCK_SIZE else remaining)"
    define mem1 where "mem1 = xorbuf3 mem buf (Outside k) (Inside (buf + 8)) m"
    have c: "c = take 12 nonce @ store_be32 (n + 1)" "length c = 16"
      using "1.prems"(1) by (simp_all add: c_def COUNTER_iv)
    have k: "length k = 16" using aes_block.block [OF c(2)] by (simp add: k_def)
    have m: "m \<le> remaining" "m \<le> 16" by (simp_all add: m_def AES_BLOCK_SIZE_def)
    let ?x = "map2 (XOR) (take m (drop (buf + 8) mem)) (take m k)"
    have x: "length ?x = m" using m k "1.prems"(2) by simp
    have "mem1 = blit mem buf (map2 (XOR) (take m k) (take m (drop (buf + 8) mem)))"
      unfolding mem1_def using m k "1.prems"(2)
      by (subst xorbuf3_map2) (simp_all add: src_view_def src_ahead_def)
    then have mem1: "mem1 = blit mem buf ?x" by (simp only: map2_xor_commute)
    have len: "length mem1 = length mem" using m "1.prems"(2) k by (simp add: mem1)
    have d: "drop (buf + m + 8) mem1 = drop (buf + m + 8) mem"
      using drop_blit [of buf ?x "buf + m + 8" mem] x m(1) "1.prems"(2) by (simp add: mem1)
    have eq: "aesgcm_decrypt_loop aes nonce mem buf n remaining =
        aesgcm_decrypt_loop aes c mem1 (buf + m) (n + 1) (remaining - m)"
      using False unfolding aesgcm_decrypt_loop.simps [of aes nonce mem buf n remaining]
      by (simp add: Let_def c_def k_def m_def mem1_def)
    let ?R = "ctr_xor (aes_encrypt_one_block aes) (take 12 nonce) (n + 1 + 1)
          (take (remaining - m) (drop (buf + m + 8) mem))"
    have "take 12 c = take 12 nonce" using c "1.prems"(1) by simp
    then have ih: "aesgcm_decrypt_loop aes c mem1 (buf + m) (n + 1) (remaining - m) =
        blit mem1 (buf + m) ?R"
      using "1.IH" [OF False refl c_def k_def m_def mem1_def] c(2) m len d "1.prems"(2)
      by simp
    have "length ?R = remaining - m"
      using aes_block.length_ctr_xor "1.prems"(1,2) m by simp
    then have "blit mem1 (buf + m) ?R = blit mem buf (?x @ ?R)"
      using blit_blit [of buf ?x ?R mem] x m(1) "1.prems"(2) by (simp add: mem1)
    moreover have "?x @ ?R = ctr_xor (aes_encrypt_one_block aes) (take 12 nonce) (n + 1)
        (take remaining (drop (buf + 8) mem))"
      using aes_block.ctr_xor_step [of "take 12 nonce" remaining "drop (buf + 8) mem" aes "n + 1"] "1.prems"(1,2) False
      by (simp add: k_def c(1) ac_simps flip: m_def)
    ultimately show ?thesis using eq ih by simp
  qed
qed

section \<open>The record\<close>

definition blk_bytes :: "blk \<Rightarrow> bytes" where
  "blk_bytes v = store_be64 (ucast (drop_bit 64 v)) @ store_be64 (ucast v)"

text \<open>The authentication tag of SP 800-38D under a 96-bit IV; \<open>H\<close> is the hash subkey.\<close>

definition gcm_tag :: "(bytes \<Rightarrow> bytes) \<Rightarrow> bytes \<Rightarrow> bytes \<Rightarrow> bytes \<Rightarrow> bytes \<Rightarrow> bytes" where
  "gcm_tag E H iv a c =
     map2 (XOR) (blk_bytes (gcm_ghash (blk H) (gcm_blocks a c))) (E (iv @ store_be32 1))"

definition be16 :: "nat \<Rightarrow> bytes" where
  "be16 n = [of_nat (n div 256), of_nat (n mod 256)]"

text \<open>
  The record of RFC 5246 and RFC 5288: header, explicit nonce, ciphertext and tag. The explicit
  nonce is the sequence number, which also is the beginning of the additional data.
\<close>

definition tls_gcm_record ::
  "(bytes \<Rightarrow> bytes) \<Rightarrow> bytes \<Rightarrow> bytes \<Rightarrow> bytes \<Rightarrow> u8 \<Rightarrow> bytes \<Rightarrow> bytes" where
  "tls_gcm_record E H salt seq typ content =
     (let iv = salt @ seq;
          c = ctr_xor E iv 2 content;
          aad = seq @ [typ, 3, 3] @ be16 (length content)
      in [typ, 3, 3] @ be16 (length content + 24) @ seq @ c @ gcm_tag E H iv aad c)"

lemma SWAP_BE64_store: "store64 (SWAP_BE64 v) = store_be64 v"
  by (simp add: SWAP_BE64_def BB_BIG_ENDIAN_def store64_bswap64)

lemma bswap64_bswap64: "bswap64 (bswap64 v) = v"
proof -
  have "store64 (bswap64 (bswap64 v)) = store64 v"
    by (simp add: store64_bswap64 store_be64_def)
  then show ?thesis using arg_cong [of _ _ "\<lambda>bs. load64 bs 0"] load64_store64 by metis
qed

lemma length_be64_bytes [simp]: "length (store_be64 v) = 8"
  by (simp add: store_be64_def)

lemma length_blk_bytes [simp]: "length (blk_bytes v) = 16"
  by (simp add: blk_bytes_def)

lemma blk_blk_bytes: "blk (blk_bytes v) = v"
proof -
  have "blk (blk_bytes v) = join64 (ucast (drop_bit 64 v)) (ucast v)"
    unfolding blk_bytes_def SWAP_BE64_store [symmetric] by (rule blk_store_be64)
  also have "\<dots> = v" by (rule bit_word_eqI) (auto simp: bit_join64 bit_simps)
  finally show ?thesis .
qed

lemma blk_bytes_blk: "length s = 16 \<Longrightarrow> blk s = v \<Longrightarrow> s = blk_bytes v"
  using blk_inject [of s "blk_bytes v"] by (simp add: blk_blk_bytes)

lemma blit_at:
  "length pre = p \<Longrightarrow> length a = length b \<Longrightarrow> blit (pre @ a @ rest) p b = pre @ b @ rest"
  by (simp add: blit_def)

lemma low_byte: "store32 (of_nat n AND 0xff) = [of_nat (n mod 256), 0, 0, 0]"
proof -
  have m: "(0xff :: u32) = mask 8" by (simp add: mask_eq_exp_minus_1)
  have w: "store32 (w AND mask 8) = [ucast w, 0, 0, 0]" for w :: u32
    unfolding store32_def list.inject
    by (intro conjI bit_word_eqI refl) (auto simp: bit_simps)
  have "(ucast (of_nat n :: u32) :: u8) = of_nat (n mod 256)"
    by (rule word_unat_eq_iff [THEN iffD2])
      (simp add: unat_of_nat take_bit_eq_mod unsigned_ucast_eq mod_mod_cancel)
  then show ?thesis unfolding m w by simp
qed

lemma aad_bytes:
  assumes "length s = 16" "length seq = 8"
  shows "blit (COUNTER (s[8 := typ, 9 := TLS_MAJ, 10 := TLS_MIN, 11 := of_nat (n div 256)])
      (SWAP_LE32 (of_nat n AND 0xff))) 0 seq = (seq @ [typ, 3, 3] @ be16 n) @ [0, 0, 0]"
proof -
  obtain a0 a1 a2 a3 a4 a5 a6 a7 a8 a9 a10 a11 a12 a13 a14 a15 where
    s: "s = [a0, a1, a2, a3, a4, a5, a6, a7, a8, a9, a10, a11, a12, a13, a14, a15]"
    using list16 [OF assms(1)] by blast
  show ?thesis using assms(2)
    by (simp add: s COUNTER_def SWAP_LE32_def BB_BIG_ENDIAN_def low_byte blit_def be16_def
        TLS_MAJ_def TLS_MIN_def)
qed

lemma hdr_updates:
  assumes "length pre = p"
  shows "(pre @ h # rest)[p := t] = pre @ t # rest"
    "(pre @ h0 # h1 # h2 # rest)[p + 1 := x, p + 2 := y] = pre @ h0 # x # y # rest"
    "(pre @ h0 # h1 # h2 # h3 # h4 # rest)[p + 3 := x, p + 4 := y] = pre @ h0 # h1 # h2 # x # y # rest"
  using assms by (simp_all add: list_update_append numeral_eq_Suc)

text \<open>The output buffer around a content of \<open>n\<close> bytes.\<close>

lemma outbuf_parts:
  assumes "OUTBUF_PFX + n + OUTBUF_SFX \<le> length mem"
  obtains pre h0 h1 h2 h3 h4 s d t rest where
    "mem = pre @ h0 # h1 # h2 # h3 # h4 # s @ d @ t @ rest" "length pre = 11" "length s = 8"
    "length d = n" "length t = 16" "d = take n (drop OUTBUF_PFX mem)"
proof -
  have l: "24 + n + 48 \<le> length mem"
    using assms by (simp add: OUTBUF_PFX_def OUTBUF_SFX_def AES_BLOCK_SIZE_def)
  let ?m = "drop 16 mem"
  have "mem = take 11 mem @ mem ! 11 # mem ! 12 # mem ! 13 # mem ! 14 # mem ! 15 # ?m"
    using l append_take_drop_id [of 11 mem] Cons_nth_drop_Suc [of 11 mem] Cons_nth_drop_Suc [of 12 mem]
      Cons_nth_drop_Suc [of 13 mem] Cons_nth_drop_Suc [of 14 mem] Cons_nth_drop_Suc [of 15 mem]
    by simp
  moreover have "?m = take 8 ?m @ take n (drop 24 mem) @ take 16 (drop (24 + n) mem) @ drop (40 + n) mem"
    using append_take_drop_id [of 8 ?m] append_take_drop_id [of n "drop 24 mem"]
      append_take_drop_id [of 16 "drop (24 + n) mem"] by (simp add: add.commute)
  ultimately show thesis using l
    by (intro that [of "take 11 mem" "mem ! 11" "mem ! 12" "mem ! 13" "mem ! 14" "mem ! 15"
          "take 8 ?m" "take n (drop 24 mem)" "take 16 (drop (24 + n) mem)" "drop (40 + n) mem"])
      (simp_all add: OUTBUF_PFX_def AES_BLOCK_SIZE_def)
qed

lemma aesgcm_record_written:
  assumes "length (tls_H tls) = 16" "4 \<le> length (client_write_IV tls)"
    and "length (stack_block env) = 16" "OUTBUF_PFX + n + OUTBUF_SFX \<le> length (outbuf tls)"
    and "n \<le> TLS_MAX_OUTBUF"
  shows "\<exists>tls'. xwrite_encrypted_aesgcm env tls n typ = Some tls'
    \<and> ofd tls' = ofd tls @ tls_gcm_record (aes_encrypt_one_block (aes_encrypt tls)) (tls_H tls)
        (take 4 (client_write_IV tls)) (store64 (write_seq64_be tls)) typ
        (take n (drop OUTBUF_PFX (outbuf tls)))
    \<and> SWAP_BE64 (write_seq64_be tls') = SWAP_BE64 (write_seq64_be tls) + 1"
proof -
  obtain pre h0 h1 h2 h3 h4 s d t rest where o: "outbuf tls = pre @ h0 # h1 # h2 # h3 # h4 # s @ d @ t @ rest"
    and l: "length pre = 11" "length s = 8" "length d = n" "length t = 16"
    and d: "d = take n (drop OUTBUF_PFX (outbuf tls))"
    using outbuf_parts [OF assms(4)] .
  let ?E = "aes_encrypt_one_block (aes_encrypt tls)" and ?seq = "store64 (write_seq64_be tls)"
  let ?salt = "take 4 (client_write_IV tls)"
  let ?iv = "?salt @ ?seq" and ?h = "[typ, h1, h2, h3, h4]"
  let ?c = "ctr_xor ?E ?iv 2 d" and ?aad = "?seq @ [typ, 3, 3] @ be16 n"
  define stack where "stack = blit (blit (stack_block env) 0 ?salt) 4 ?seq"
  have st: "length stack = 16" "take 12 stack = ?iv"
    using assms(2,3) by (simp_all add: stack_def blit_def)
  have mem0: "(outbuf tls)[11 := typ] = pre @ ?h @ s @ d @ t @ rest"
    unfolding o using hdr_updates(1) [OF l(1)] by simp
  have mem1: "blit (pre @ ?h @ s @ d @ t @ rest) 16 ?seq = (pre @ ?h @ ?seq) @ d @ t @ rest"
    using blit_at [of "pre @ ?h" 16 s ?seq "d @ t @ rest"] l by simp
  have lc: "length ?c = n" using aes_block.length_ctr_xor [of ?iv] l(3) assms(2) by simp
  have "take n (drop 24 ((pre @ ?h @ ?seq) @ d @ t @ rest)) = d" using l by simp
  then obtain nonce' where loop: "aesgcm_loop (aes_encrypt tls) stack ((pre @ ?h @ ?seq) @ d @ t @ rest) 24 1 n
      = (nonce', blit ((pre @ ?h @ ?seq) @ d @ t @ rest) 24 ?c, 24 + n)"
      "length nonce' = 16" "take 12 nonce' = ?iv"
    using aesgcm_loop_ctr [OF st(1), of 24 n "(pre @ ?h @ ?seq) @ d @ t @ rest" "aes_encrypt tls" 1]
      st(2) l by auto
  have mem2: "blit ((pre @ ?h @ ?seq) @ d @ t @ rest) 24 ?c = (pre @ ?h @ ?seq) @ ?c @ t @ rest"
    using l lc by (intro blit_at) simp_all
  have "length ?c < 2 ^ 29" "length (?seq @ [typ, 3, 3] @ be16 n) = 13"
    using lc assms(5) by (simp_all add: TLS_MAX_OUTBUF_def be16_def)
  then obtain g where g: "aesgcm_GHASH (unaligned_ok env) (tls_H tls) (?aad @ [0, 0, 0]) (?c @ t @ rest) (of_nat n)
        = Some g" "length g = 16" "blk g = gcm_ghash (blk (tls_H tls)) (gcm_blocks ?aad ?c)"
    using aesgcm_GHASH_blocks [OF assms(1), of ?aad ?c "unaligned_ok env" "t @ rest"] lc by auto
  define tag where "tag = gcm_tag ?E (tls_H tls) ?iv ?aad ?c"
  have kl: "length (?E (?iv @ store_be32 1)) = 16" using assms(2) by (intro aes_block.block) simp
  have tag: "xorbuf_aligned_AES_BLOCK_SIZE g (?E (COUNTER nonce' (htonl 1))) = tag"
    unfolding COUNTER_iv [OF loop(2)] loop(3) tag_def gcm_tag_def blk_bytes_blk [OF g(2,3), symmetric]
    using g(2) kl by (rule xorbuf_aligned_map2)
  have ltag: "length tag = 16" unfolding tag_def gcm_tag_def using kl by simp
  have mem3: "blit ((pre @ ?h @ ?seq) @ ?c @ t @ rest) (24 + n) tag = (pre @ ?h @ ?seq) @ ?c @ tag @ rest"
    using blit_at [of "(pre @ ?h @ ?seq) @ ?c" "24 + n" t tag rest] l lc ltag by simp
  note aad = aad_bytes [OF assms(3), of ?seq "typ" n]
  have d2: "drop 24 ((pre @ ?h @ ?seq) @ ?c @ t @ rest) = ?c @ t @ rest" using l by simp
  let ?final = "pre @ typ # 3 # 3 # of_nat ((n + 24) div 256) # of_nat ((n + 24) mod 256)
      # ?seq @ ?c @ tag @ rest"
  have hdr: "set_len16 11 (n + 24) (set_proto 11 (u\<lparr>outbuf := (pre @ ?h @ ?seq) @ ?c @ tag @ rest\<rparr>))
      = u\<lparr>outbuf := ?final\<rparr>" for u
    using hdr_updates(2,3) [OF l(1)] by (simp add: set_len16_def set_proto_def TLS_MAJ_def TLS_MIN_def)
  let ?R = "typ # 3 # 3 # of_nat ((n + 24) div 256) # of_nat ((n + 24) mod 256) # ?seq @ ?c @ tag"
  have R: "length ?R = n + 29" using lc ltag by simp
  then have "take (n + 29) (?R @ rest) = ?R" by (metis append_eq_conv_conj)
  then have "take (n + 29) (drop 11 ?final) = ?R"
    using l(1) by simp
  then have rec: "take (n + 29) (drop 11 ?final) =
      tls_gcm_record ?E (tls_H tls) ?salt ?seq typ d"
    using l(3) by (simp add: tls_gcm_record_def Let_def be16_def tag_def)
  define u where "u = tls\<lparr>write_seq64_be := SWAP_BE64 (1 + SWAP_BE64 (write_seq64_be tls))\<rparr>"
  have off: "OUTBUF_PFX = 24" "RECHDR_LEN = 5"
    by (simp_all add: OUTBUF_PFX_def RECHDR_LEN_def AES_BLOCK_SIZE_def)
  have "xwrite_encrypted_aesgcm env tls n typ
      = Some (xwrite (u\<lparr>outbuf := ?final\<rparr>) 11 (n + 29))"
    unfolding xwrite_encrypted_aesgcm_def Let_def off set_type_def
    using mem0 mem1 loop(1) mem2 d2 aad g(1) tag mem3 hdr [of u]
    by (simp add: stack_def [symmetric] u_def add.commute [of n 29])

  then show ?thesis
    using rec d off(1) by (simp add: xwrite_def u_def bswap64_bswap64 add.commute SWAP_BE64_def BB_BIG_ENDIAN_def)
qed

text \<open>
  Property C11. What \<open>xwrite_encrypted_aesgcm\<close> sends for the content lying in the output buffer is
  the record of RFC 5288: header, sequence number, content encrypted in counter mode from two, and
  the authentication tag of SP 800-38D over sequence number, type, version and length. The
  sequence number is then one more.
\<close>

theorem xwrite_encrypted_aesgcm_record:
  assumes "length (tls_H tls) = 16" "4 \<le> length (client_write_IV tls)"
    and "length (stack_block env) = 16" "OUTBUF_PFX + n + OUTBUF_SFX \<le> length (outbuf tls)"
    and "n \<le> TLS_MAX_OUTBUF"
  shows "\<exists>tls'. xwrite_encrypted_aesgcm env tls n typ = Some tls'
    \<and> ofd tls' = ofd tls @ tls_gcm_record (aes_encrypt_one_block (aes_encrypt tls)) (tls_H tls)
        (take 4 (client_write_IV tls)) (store64 (write_seq64_be tls)) typ
        (take n (drop OUTBUF_PFX (outbuf tls)))
    \<and> SWAP_BE64 (write_seq64_be tls') = SWAP_BE64 (write_seq64_be tls) + 1"
  using assms by (rule aesgcm_record_written)

definition env0 :: tls_env where
  "env0 = \<lparr>ENABLE_FEATURE_TLS_SHA1 = False, unaligned_ok = True, urandom = replicate 16 0x5A,
     stack_blocks = (replicate 64 0xAA, replicate 64 0xBB), stack_pre = pre0,
     stack_block = replicate 16 0xCC, fresh = 0xDD\<rparr>"

definition tls0 :: "u32 \<Rightarrow> bytes \<Rightarrow> bytes \<Rightarrow> read_event list \<Rightarrow> tls_state" where
  "tls0 fl mem IV es = \<lparr>flags = fl, ofd = [], ifd = es, min_encrypted_len_on_read = 24,
     cipher_id = 0x009C, MAC_size = 0, outbuf = mem, outbuf_size = length mem,
     inbuf = [], inbuf_size = 0, ofs_to_buffered = 0, buffered_size = 0, handshake_hash_ctx = ctx0,
     write_seq64_be = 0, client_write_IV = IV, server_write_IV = IV,
     client_write_MAC_key = replicate 32 1,
     aes_encrypt = \<lparr>aes_key = replicate 60 7, aes_rounds = 10\<rparr>,
     aes_decrypt = \<lparr>aes_key = replicate 60 7, aes_rounds = 10\<rparr>, tls_H = replicate 16 3\<rparr>"

lemma xwrite_encrypted_aesgcm_record_witness:
  "\<exists>tls'. xwrite_encrypted_aesgcm env0 (tls0 16 (replicate 100 0x41) [1, 2, 3, 4] []) 20 23 = Some tls'
    \<and> ofd tls' = tls_gcm_record (aes_encrypt_one_block \<lparr>aes_key = replicate 60 7, aes_rounds = 10\<rparr>)
        (replicate 16 3) [1, 2, 3, 4] (store64 0) 23 (replicate 20 0x41)"
  using xwrite_encrypted_aesgcm_record [of "tls0 16 (replicate 100 0x41) [1, 2, 3, 4] []" env0 20 23]
  by (auto simp: tls0_def env0_def OUTBUF_PFX_def OUTBUF_SFX_def AES_BLOCK_SIZE_def TLS_MAX_OUTBUF_def)

end
