(* ===== verification/Tls_Read.thy ===== *)
theory Tls_Read
  imports Tls_Gcm
begin

text \<open>
  \<open>tls_xread_record\<close>: however the network cuts the stream, a complete record at the front of the
  pending bytes is found, and the bytes behind it stay pending; the input buffer's invariant holds
  throughout.
\<close>

section \<open>The pending bytes\<close>

fun ready_bytes :: "read_event list \<Rightarrow> bytes" where
  "ready_bytes [] = []"
| "ready_bytes (Read_error # es) = []"
| "ready_bytes (Got bs # es) = (if bs = [] then [] else bs @ ready_bytes es)"

definition pending :: "tls_state \<Rightarrow> bytes" where
  "pending tls = take (buffered_size tls) (drop (ofs_to_buffered tls) (inbuf tls))
     @ ready_bytes (ifd tls)"

definition inbuf_ok :: "tls_state \<Rightarrow> bool" where
  "inbuf_ok tls \<longleftrightarrow> length (inbuf tls) = inbuf_size tls \<and> inbuf_size tls \<le> MAX_INBUF
     \<and> (buffered_size tls \<noteq> 0 \<longrightarrow> ofs_to_buffered tls + buffered_size tls \<le> inbuf_size tls)"

text \<open>The buffer holds \<open>got\<close> bytes of the current record at its start.\<close>

definition filled :: "tls_state \<Rightarrow> nat \<Rightarrow> bool" where
  "filled tls got \<longleftrightarrow> length (inbuf tls) = inbuf_size tls \<and> inbuf_size tls \<le> MAX_INBUF
     \<and> got \<le> inbuf_size tls"

definition arrived :: "tls_state \<Rightarrow> nat \<Rightarrow> bytes" where
  "arrived tls got = take got (inbuf tls) @ ready_bytes (ifd tls)"

definition same_but_input :: "tls_state \<Rightarrow> tls_state \<Rightarrow> bool" where
  "same_but_input tls tls' \<longleftrightarrow>
     tls'\<lparr>inbuf := inbuf tls, inbuf_size := inbuf_size tls, ifd := ifd tls\<rparr> = tls"

lemma same_but_input_refl [simp]: "same_but_input tls tls"
  by (simp add: same_but_input_def)

lemma same_but_input_trans: "same_but_input a b \<Longrightarrow> same_but_input b c \<Longrightarrow> same_but_input a c"
  by (cases a; cases b; cases c) (simp add: same_but_input_def)

lemma safe_read_ready:
  "safe_read rem es = (Some bs, es') \<Longrightarrow> bs \<noteq> [] \<Longrightarrow> ready_bytes es = bs @ ready_bytes es'"
  "safe_read rem es = (Some bs, es') \<Longrightarrow> length bs \<le> rem"
  by (cases "(rem, es)" rule: safe_read.cases; auto split: if_splits)+

lemma safe_read_some:
  "0 < rem \<Longrightarrow> ready_bytes es \<noteq> [] \<Longrightarrow> \<exists>bs es'. safe_read rem es = (Some bs, es') \<and> bs \<noteq> []"
  by (cases "(rem, es)" rule: safe_read.cases) (auto split: if_splits)

lemma length_xrealloc [simp]: "length (xrealloc env buf n) = n"
  by (simp add: xrealloc_def)

lemma take_xrealloc: "k \<le> length buf \<Longrightarrow> k \<le> n \<Longrightarrow> take k (xrealloc env buf n) = take k buf"
  by (simp add: xrealloc_def min_def)

lemma grow_inbuf_filled:
  fixes env :: tls_env
  assumes "filled tls got" "got < MAX_INBUF"
  defines "u \<equiv> if inbuf_size tls - got = 0 then grow_inbuf env tls else tls"
  shows "filled u got" "got < inbuf_size u" "take got (inbuf u) = take got (inbuf tls)"
    "ifd u = ifd tls" "same_but_input tls u"
  using assms
  by (auto simp: filled_def grow_inbuf_def Let_def take_xrealloc same_but_input_def MAX_INBUF_def
      RECHDR_LEN_def)

lemma read_more_filled:
  assumes "read_more env tls got = Some (tls', bs)" "filled tls got" "got < MAX_INBUF"
  shows "filled tls' (got + length bs)" "take got (inbuf tls') = take got (inbuf tls)"
    "take (got + length bs) (inbuf tls') = take got (inbuf tls) @ bs"
    "bs \<noteq> [] \<Longrightarrow> ready_bytes (ifd tls) = bs @ ready_bytes (ifd tls')" "same_but_input tls tls'"
proof -
  define u where "u = (if inbuf_size tls - got = 0 then grow_inbuf env tls else tls)"
  note u = grow_inbuf_filled [OF assms(2,3), of env, folded u_def]
  obtain es where s: "safe_read (inbuf_size u - got) (ifd tls) = (Some bs, es)"
    and t: "tls' = u\<lparr>ifd := es, inbuf := blit (inbuf u) got bs\<rparr>"
    using assms(1) u(4) unfolding read_more_def u_def [symmetric] Let_def
    by (auto split: prod.splits option.splits)
  have l: "length bs \<le> inbuf_size u - got" using safe_read_ready(2) [OF s] .
  show "filled tls' (got + length bs)" using u(1,2) l by (simp add: filled_def t)
  show tb: "take (got + length bs) (inbuf tls') = take got (inbuf tls) @ bs"
    using u(1-3) l by (simp add: t take_blit filled_def)
  show "take got (inbuf tls') = take got (inbuf tls)"
    using arg_cong [OF tb, of "take got"] u(3) assms(2) by (simp add: filled_def min_def)
  show "bs \<noteq> [] \<Longrightarrow> ready_bytes (ifd tls) = bs @ ready_bytes (ifd tls')"
    using safe_read_ready(1) [OF s] by (simp add: t)
  show "same_but_input tls tls'"
    using u(5) by (simp add: t same_but_input_def)
qed

lemma read_more_some:
  assumes "filled tls got" "got < MAX_INBUF" "ready_bytes (ifd tls) \<noteq> []"
  obtains tls' bs where "read_more env tls got = Some (tls', bs)" "bs \<noteq> []"
proof -
  define u where "u = (if inbuf_size tls - got = 0 then grow_inbuf env tls else tls)"
  note u = grow_inbuf_filled [OF assms(1,2), of env, folded u_def]
  obtain bs es where "safe_read (inbuf_size u - got) (ifd tls) = (Some bs, es)" "bs \<noteq> []"
    using safe_read_some [of "inbuf_size u - got" "ifd tls"] u(2) assms(3) by auto
  moreover from this have "read_more env tls got = Some (u\<lparr>ifd := es, inbuf := blit (inbuf u) got bs\<rparr>, bs)"
    using u(4) unfolding read_more_def u_def [symmetric] Let_def by simp
  ultimately show thesis using that by blast
qed

lemma arrived_read_more:
  assumes "read_more env tls got = Some (tls', bs)" "bs \<noteq> []" "filled tls got" "got < MAX_INBUF"
  shows "arrived tls' (got + length bs) = arrived tls got"
  using read_more_filled(3,4) [OF assms(1,3,4)] assms(2) by (simp add: arrived_def)

section \<open>Finding a record\<close>

definition header_target :: "bytes \<Rightarrow> nat" where
  "header_target S = RECHDR_LEN + (256 * unat (S ! 3) + unat (S ! 4))"

definition good_header :: "bytes \<Rightarrow> bool" where
  "good_header S \<longleftrightarrow> RECHDR_LEN \<le> length S \<and> S ! 1 = TLS_MAJ \<and> S ! 2 = TLS_MIN
     \<and> header_target S \<le> MAX_INBUF"

lemma nth_arrived: "filled tls got \<Longrightarrow> i < got \<Longrightarrow> inbuf tls ! i = arrived tls got ! i"
  by (simp add: arrived_def filled_def nth_append)

lemma header_check_arrived:
  assumes "filled tls got"
  shows "header_check tls got target =
    (if RECHDR_LEN \<le> got \<and> target = MAX_INBUF
     then if good_header (arrived tls got) then Some (header_target (arrived tls got)) else None
     else Some target)"
proof (cases "RECHDR_LEN \<le> got")
  case True
  have "RECHDR_LEN \<le> length (arrived tls got)"
    using True assms by (simp add: arrived_def filled_def)
  moreover have "inbuf tls ! i = arrived tls got ! i" if "i < 5" for i
    using nth_arrived [OF assms] that True by (simp add: RECHDR_LEN_def)
  ultimately show ?thesis
    using True
    by (auto simp: header_check_def record_target_def good_header_def header_target_def Let_def)
qed (simp add: header_check_def)

lemma target_bounds: "RECHDR_LEN \<le> header_target S" "RECHDR_LEN < MAX_INBUF"
  by (simp_all add: header_target_def RECHDR_LEN_def MAX_INBUF_def)

lemma length_arrived: "filled tls got \<Longrightarrow> length (arrived tls got) = got + length (ready_bytes (ifd tls))"
  by (simp add: arrived_def filled_def)

lemma read_loop_complete:
  "filled tls got \<Longrightarrow> arrived tls got = S \<Longrightarrow> good_header S \<Longrightarrow> header_target S \<le> length S
   \<Longrightarrow> target = MAX_INBUF \<or> target = header_target S
   \<Longrightarrow> \<exists>tls' got'. read_loop env tls got target = Packet tls' got' (header_target S)
     \<and> filled tls' got' \<and> header_target S \<le> got' \<and> arrived tls' got' = S \<and> same_but_input tls tls'"
proof (induction env tls got target rule: read_loop.induct)
  case (1 env tls got target)
  let ?T = "header_target S"
  obtain t where t: "header_check tls got target = Some t" "t = ?T \<or> t = MAX_INBUF \<and> got < RECHDR_LEN"
    using "1.prems" header_check_arrived [OF "1.prems"(1), of target]
    by (cases "RECHDR_LEN \<le> got \<and> target = MAX_INBUF") (auto simp: not_le)
  have T: "?T \<le> MAX_INBUF" using "1.prems"(3) by (simp add: good_header_def)
  show ?case
  proof (cases "t \<le> got")
    case True
    then have "t = ?T" using t(2) target_bounds(2) by auto
    then show ?thesis
      using True t(1) "1.prems"(1,2)
      by (intro exI [of _ tls] exI [of _ got]) (simp add: read_loop.simps [of env tls got target])
  next
    case False
    have lt: "got < ?T" using t(2) False target_bounds(1) [of S] by auto
    then have "ready_bytes (ifd tls) \<noteq> []"
      using length_arrived [OF "1.prems"(1)] "1.prems"(2,4) by auto
    moreover have max: "got < MAX_INBUF" using lt T by simp
    ultimately obtain u bs where m: "read_more env tls got = Some (u, bs)" "bs \<noteq> []"
      using read_more_some [OF "1.prems"(1)] by blast
    note u = read_more_filled(1,5) [OF m(1) "1.prems"(1) max]
    have "arrived u (got + length bs) = S"
      using arrived_read_more [OF m "1.prems"(1) max] "1.prems"(2) by simp
    moreover have "t = MAX_INBUF \<or> t = ?T" using t(2) by blast
    ultimately obtain tls' got' where
      "read_loop env u (got + length bs) t = Packet tls' got' ?T" "filled tls' got'" "?T \<le> got'"
      "arrived tls' got' = S" "same_but_input u tls'"
      using "1.IH" [OF t(1) False m(1) refl m(2) u(1) _ "1.prems"(3,4)] by blast
    moreover have "read_loop env tls got target = read_loop env u (got + length bs) t"
      using t(1) False m by (simp add: read_loop.simps [of env tls got target])
    ultimately show ?thesis using same_but_input_trans [OF u(2)] by auto
  qed
qed

text \<open>
  The state in which the first pending record is opened: it lies at the start of the buffer, what
  follows it is pending.
\<close>

definition same_static :: "tls_state \<Rightarrow> tls_state \<Rightarrow> bool" where
  "same_static tls tls' \<longleftrightarrow>
     tls'\<lparr>inbuf := inbuf tls, inbuf_size := inbuf_size tls, ifd := ifd tls,
       ofs_to_buffered := ofs_to_buffered tls, buffered_size := buffered_size tls\<rparr> = tls"

lemma same_static_fields:
  "same_static tls tls' \<Longrightarrow> flags tls' = flags tls \<and> MAC_size tls' = MAC_size tls
     \<and> min_encrypted_len_on_read tls' = min_encrypted_len_on_read tls
     \<and> server_write_IV tls' = server_write_IV tls \<and> aes_decrypt tls' = aes_decrypt tls
     \<and> handshake_hash_ctx tls' = handshake_hash_ctx tls"
  by (cases tls; cases tls') (simp add: same_static_def)

definition at_front :: "tls_state \<Rightarrow> tls_state \<Rightarrow> bytes \<Rightarrow> bytes \<Rightarrow> bool" where
  "at_front tls tls' record rest \<longleftrightarrow> inbuf_ok tls' \<and> same_static tls tls'
     \<and> length record \<le> inbuf_size tls' \<and> take (length record) (inbuf tls') = record
     \<and> pending tls' = rest
     \<and> (buffered_size tls' \<noteq> 0 \<longrightarrow> ofs_to_buffered tls' = length record)"

definition after_read :: "tls_env \<Rightarrow> tls_state \<Rightarrow> int \<Rightarrow> (tls_state \<times> int) option" where
  "after_read env tls sz =
     (case open_record env tls sz of
        None \<Rightarrow> None
      | Some (tls, sz) \<Rightarrow>
          (case finish_record tls sz of
             None \<Rightarrow> None
           | Some (Return tls sz) \<Rightarrow> Some (tls, sz)
           | Some (Again tls) \<Rightarrow> tls_xread_record env tls))"

definition moved_front :: "tls_state \<Rightarrow> tls_state" where
  "moved_front tls =
     (if buffered_size tls \<noteq> 0
      then tls\<lparr>inbuf := blit (inbuf tls) 0 (take (buffered_size tls) (drop (ofs_to_buffered tls) (inbuf tls)))\<rparr>
      else tls)"

lemma moved_front_filled:
  assumes "inbuf_ok tls"
  shows "filled (moved_front tls) (buffered_size tls)"
    "arrived (moved_front tls) (buffered_size tls) = pending tls"
    "same_but_input tls (moved_front tls)"
proof -
  let ?d = "take (buffered_size tls) (drop (ofs_to_buffered tls) (inbuf tls))"
  have d: "buffered_size tls \<noteq> 0 \<Longrightarrow> length ?d = buffered_size tls"
    using assms by (auto simp: inbuf_ok_def)
  show "filled (moved_front tls) (buffered_size tls)"
    using assms by (auto simp: filled_def moved_front_def inbuf_ok_def)
  show "arrived (moved_front tls) (buffered_size tls) = pending tls"
    using assms d take_blit [of 0 "inbuf tls" ?d]
    by (auto simp: arrived_def moved_front_def pending_def inbuf_ok_def)
  show "same_but_input tls (moved_front tls)"
    by (simp add: same_but_input_def moved_front_def)
qed

lemma tls_xread_record_eq:
  "tls_xread_record env tls =
     (case read_loop env (moved_front tls) (buffered_size tls) MAX_INBUF of
        Read_die \<Rightarrow> None
      | Eof tls \<Rightarrow> Some (tls, 0)
      | Packet tls got target \<Rightarrow>
          after_read env (tls\<lparr>buffered_size := got - target, ofs_to_buffered := target\<rparr>)
            (int target - int RECHDR_LEN))"
  unfolding tls_xread_record.simps [of env tls] Let_def after_read_def moved_front_def ..

lemma tls_xread_record_front:
  assumes "inbuf_ok tls" "pending tls = record @ rest" "good_header record"
    and "header_target record = length record"
  obtains tls' where "at_front tls tls' record rest"
    "tls_xread_record env tls = after_read env tls' (int (length record) - int RECHDR_LEN)"
proof -
  let ?S = "record @ rest" and ?T = "length record"
  have T: "header_target ?S = ?T" "good_header ?S"
    using assms(3,4) by (auto simp: header_target_def good_header_def nth_append RECHDR_LEN_def)
  obtain u got where u: "read_loop env (moved_front tls) (buffered_size tls) MAX_INBUF = Packet u got ?T"
      "filled u got" "?T \<le> got" "arrived u got = ?S" "same_but_input (moved_front tls) u"
    using read_loop_complete [OF moved_front_filled(1,2) [OF assms(1)], of "MAX_INBUF" env] T assms(2)
    by auto
  define v where "v = u\<lparr>buffered_size := got - ?T, ofs_to_buffered := ?T\<rparr>"
  have "same_but_input tls u" using same_but_input_trans [OF moved_front_filled(3) [OF assms(1)] u(5)] .
  then have "same_static tls v"
    by (cases tls; cases u) (simp add: same_but_input_def same_static_def v_def)
  moreover have "take ?T (inbuf v) = record"
    using arg_cong [OF u(4), of "take ?T"] u(2,3) by (simp add: arrived_def filled_def v_def min_def)
  moreover have "pending v = rest"
    using arg_cong [OF u(4), of "drop ?T"] u(2,3)
    by (simp add: arrived_def filled_def v_def pending_def drop_take)
  moreover have "inbuf_ok v" "?T \<le> inbuf_size v"
    using u(2,3) by (simp_all add: inbuf_ok_def filled_def v_def)
  moreover have "ofs_to_buffered v = ?T" by (simp add: v_def)
  ultimately have "at_front tls v record rest" by (simp add: at_front_def)
  moreover have "tls_xread_record env tls = after_read env v (int ?T - int RECHDR_LEN)"
    by (simp add: tls_xread_record_eq u(1) v_def)
  ultimately show thesis by (rule that)
qed

section \<open>Receiving an AES-GCM record\<close>

text \<open>A record as \<open>tls_gcm_record\<close> makes it, but with any sixteen bytes for the tag.\<close>

definition gcm_record_with_tag ::
  "(bytes \<Rightarrow> bytes) \<Rightarrow> bytes \<Rightarrow> bytes \<Rightarrow> u8 \<Rightarrow> bytes \<Rightarrow> bytes \<Rightarrow> bytes" where
  "gcm_record_with_tag E salt seq typ content tag =
     [typ, 3, 3] @ be16 (length content + 24) @ seq @ ctr_xor E (salt @ seq) 2 content @ tag"

lemma unat_be16:
  "n < 2 ^ 16 \<Longrightarrow> 256 * unat (of_nat (n div 256) :: u8) + unat (of_nat (n mod 256) :: u8) = n"
proof -
  assume "n < 2 ^ 16"
  then have "n div 256 < 256" by simp
  then have "unat (of_nat (n div 256) :: u8) = n div 256" "unat (of_nat (n mod 256) :: u8) = n mod 256"
    by (simp_all add: unat_of_nat take_bit_eq_mod)
  then show ?thesis by simp
qed

lemma blit_prefix: "length pre = p \<Longrightarrow> blit (pre @ rest) p b = pre @ b @ drop (length b) rest"
  by (simp add: blit_def)

lemma finish_record_plain:
  assumes "0 \<le> sz" "inbuf tls ! 0 \<noteq> RECORD_TYPE_ALERT" "inbuf_ok tls"
  obtains tls' where "finish_record tls sz = Some (Return tls' sz)" "inbuf tls' = inbuf tls"
    "pending tls' = pending tls" "inbuf_ok tls'"
  using assms
  by (intro that [of "if inbuf tls ! 0 = RECORD_TYPE_HANDSHAKE
        then hash_handshake tls (take (nat sz) (drop RECHDR_LEN (inbuf tls))) else tls"])
    (simp_all add: finish_record_def hash_handshake_def pending_def inbuf_ok_def)

lemma tls_gcm_receive:
  assumes "inbuf_ok tls" "length (stack_block env) = 16" "4 \<le> length (server_write_IV tls)"
    and "flags tls AND ENCRYPTION_AESGCM \<noteq> 0" "min_encrypted_len_on_read tls \<noteq> 0"
    and "min_encrypted_len_on_read tls \<le> length content + 24"
    and "length content \<le> TLS_MAX_OUTBUF" "length seq = 8" "length tag = 16" "typ \<noteq> RECORD_TYPE_ALERT"
    and "pending tls = gcm_record_with_tag (aes_encrypt_one_block (aes_decrypt tls))
      (take 4 (server_write_IV tls)) seq typ content tag @ rest"
  shows "\<exists>tls'. tls_xread_record env tls = Some (tls', int (length content))
    \<and> inbuf tls' ! 0 = typ \<and> take (length content) (drop RECHDR_LEN (inbuf tls')) = content
    \<and> pending tls' = rest \<and> inbuf_ok tls'"
proof -
  define n where "n = length content"
  let ?E = "aes_encrypt_one_block (aes_decrypt tls)" and ?salt = "take 4 (server_write_IV tls)"
  let ?iv = "?salt @ seq" and ?hdr = "[typ, 3, 3] @ be16 (n + 24)"
  define ct where "ct = ctr_xor ?E ?iv 2 content"
  define R where "R = gcm_record_with_tag ?E ?salt seq typ content tag"
  have iv: "length ?iv = 12" using assms(3,8) by simp
  have R: "R = ?hdr @ seq @ ct @ tag" by (simp add: R_def gcm_record_with_tag_def ct_def n_def)
  have lct: "length ct = n" using aes_block.length_ctr_xor [OF iv] by (simp add: ct_def n_def)
  have lR: "length R = n + 29" using assms(8,9) lct by (simp add: R be16_def)
  have n: "n \<le> 2 ^ 14" using assms(7) by (simp add: n_def TLS_MAX_OUTBUF_def)
  have t: "header_target R = length R"
    using unat_be16 [of "n + 24"] n lR by (simp add: header_target_def R be16_def RECHDR_LEN_def)
  have g: "good_header R"
    unfolding good_header_def t using n lR
    by (simp add: R RECHDR_LEN_def MAX_INBUF_def TLS_MAJ_def TLS_MIN_def)
  obtain u where u: "at_front tls u R rest"
      "tls_xread_record env tls = after_read env u (int (length R) - int RECHDR_LEN)"
    using tls_xread_record_front [OF assms(1) assms(11) [folded R_def] g t] .
  obtain X where X: "inbuf u = R @ X"
    using u(1) append_take_drop_id [of "length R" "inbuf u"] by (metis at_front_def)
  note f = same_static_fields [of tls u]
  have st: "same_static tls u" "inbuf_ok u" "pending u = rest"
      "buffered_size u \<noteq> 0 \<longrightarrow> ofs_to_buffered u = n + 29"
    using u(1) lR by (simp_all add: at_front_def)
  define nonce where "nonce = blit (blit (stack_block env) 0 ?salt) 4 seq"
  have nonce: "length nonce = 16" "take 12 nonce = ?iv"
    using assms(2,3,8) by (simp_all add: nonce_def blit_def)
  have d13: "take n (drop 13 (inbuf u)) = ct" "take 8 (drop 5 (inbuf u)) = seq"
    using assms(8) lct by (simp_all add: X R be16_def)
  have "aesgcm_decrypt_loop (aes_decrypt tls) nonce (inbuf u) 5 1 n
      = blit (inbuf u) 5 (ctr_xor ?E ?iv 2 ct)"
    using aesgcm_decrypt_loop_ctr [OF nonce(1), of 5 n "inbuf u" "aes_decrypt tls" 1] d13(1) lR X
    by (simp add: nonce(2))
  also have "ctr_xor ?E ?iv 2 ct = content"
    unfolding ct_def by (rule aes_block.ctr_xor_twice [OF iv])
  finally have dec: "aesgcm_decrypt_loop (aes_decrypt tls) nonce (inbuf u) 5 1 n = blit (inbuf u) 5 content" .
  define v where "v = u\<lparr>inbuf := blit (inbuf u) 5 content\<rparr>"
  have "tls_aesgcm_decrypt env u 5 (int n) = Some v"
    using f st(1) d13(2) dec lR X
    by (simp add: tls_aesgcm_decrypt_def v_def Let_def flip: nonce_def)
  then have o: "open_record env u (int (n + 24)) = Some (v, int n)"
    using f st(1) assms(4-6) by (simp add: open_record_def Let_def RECHDR_LEN_def AES_BLOCK_SIZE_def n_def)
  have iv0: "inbuf v = ?hdr @ content @ drop n (seq @ ct @ tag @ X)"
    using blit_prefix [of ?hdr 5 "seq @ ct @ tag @ X" content] by (simp add: v_def X R be16_def n_def)
  have v: "inbuf_ok v" "pending v = rest"
    using st lR X drop_blit [of 5 content "n + 29" "inbuf u"]
    by (auto simp: v_def inbuf_ok_def pending_def n_def)
  have v0: "inbuf v ! 0 = typ" and vc: "take n (drop 5 (inbuf v)) = content"
    by (simp_all add: iv0 be16_def n_def)
  obtain w where "finish_record v (int n) = Some (Return w (int n))" "inbuf w = inbuf v"
      "pending w = pending v" "inbuf_ok w"
    using finish_record_plain [of "int n" v] v0 assms(10) v(1) by auto
  moreover have "tls_xread_record env tls = after_read env u (int (n + 24))"
    unfolding u(2) lR by (simp add: RECHDR_LEN_def add.commute)
  ultimately show ?thesis
    using o v(2) v0 vc by (simp add: after_read_def RECHDR_LEN_def n_def)
qed

section \<open>The invariant of the input buffer\<close>

lemma length_xorbuf3 [simp]: "length (xorbuf3 mem d s1 s2 n) = length mem"
  by (induction n arbitrary: mem d s1 s2) simp_all

lemma length_aesgcm_decrypt_loop [simp]:
  "length (aesgcm_decrypt_loop aes nonce mem buf n r) = length mem"
proof (induction aes nonce mem buf n r rule: aesgcm_decrypt_loop.induct)
  case (1 aes nonce mem buf n r)
  then show ?case
    by (cases "r = 0")
      (simp_all add: aesgcm_decrypt_loop.simps [of aes nonce mem buf n r]
        aesgcm_decrypt_loop.simps [of aes nonce mem buf n 0] Let_def)
qed

lemma aes_cbc_decrypt_loop_length:
  "aes_cbc_decrypt_loop aes iv2 iv3 f ct len = Some pt \<Longrightarrow> length (if f then iv2 else iv3) \<le> 16
   \<Longrightarrow> length pt \<le> length ct"
proof (induction aes iv2 iv3 f ct len arbitrary: pt rule: aes_cbc_decrypt_loop.induct)
  case (1 aes iv2 iv3 f ct len)
  show ?case
  proof (cases "len = 0")
    case True
    then show ?thesis using "1.prems"(1) by (simp add: aes_cbc_decrypt_loop.simps)
  next
    case False
    let ?iv = "if f then iv2 else iv3" and ?n = "take 16 ct"
    let ?a = "aes_decrypt_1 aes (map ucast (take 16 ct))"
    let ?b = "map2 (\<lambda>a v. ucast (a XOR ucast v)) ?a ?iv :: bytes"
    have l: "\<not> length ct < 16"
      using "1.prems"(1) False by (auto simp: aes_cbc_decrypt_loop.simps [of aes iv2 iv3 f ct len])
    have "aes_cbc_decrypt_loop aes iv2 iv3 f ct len = map_option (\<lambda>r. ?b @ r)
        (aes_cbc_decrypt_loop aes (if f then iv2 else ?n) (if f then ?n else iv3) (\<not> f)
          (drop 16 ct) (len - 16))"
      unfolding aes_cbc_decrypt_loop.simps [of aes iv2 iv3 f ct len] using False l
      by (cases f) (simp_all add: Let_def)
    then have "map_option (\<lambda>r. ?b @ r) (aes_cbc_decrypt_loop aes (if f then iv2 else ?n)
        (if f then ?n else iv3) (\<not> f) (drop 16 ct) (len - 16)) = Some pt"
      using "1.prems"(1) by (rule trans [OF sym])
    then obtain r where r: "aes_cbc_decrypt_loop aes (if f then iv2 else ?n) (if f then ?n else iv3)
        (\<not> f) (drop 16 ct) (len - 16) = Some r" "pt = ?b @ r"
      unfolding map_option_eq_Some by blast
    have "length r \<le> length (drop 16 ct)"
      using "1.IH" [OF False l refl refl refl refl refl, of "if f then iv2 else ?n" "if f then ?n else iv3"] r(1)
      by (cases f) auto
    moreover have "length ?b \<le> 16" using "1.prems"(2) by simp
    ultimately show ?thesis using r(2) l by simp
  qed
qed

lemma open_record_keeps:
  assumes "open_record env tls sz = Some (tls', sz')" "inbuf_ok tls"
  shows "inbuf_ok tls'"
proof -
  have gcm: "inbuf_ok u" if "tls_aesgcm_decrypt env tls p m = Some u" for p m u
    using that assms(2) by (auto simp: tls_aesgcm_decrypt_def inbuf_ok_def Let_def split: if_splits)
  have cbc: "inbuf_ok (tls\<lparr>inbuf := blit (inbuf tls) 5 pt\<rparr>)"
    if "aes_cbc_decrypt aes junk (drop 5 (inbuf tls)) (drop (5 + 16) (inbuf tls)) len = Some pt"
    for aes junk len pt
  proof -
    have "length pt \<le> length (drop (5 + 16) (inbuf tls))"
      using that unfolding aes_cbc_decrypt_def by (rule aes_cbc_decrypt_loop_length) simp
    then have "length pt = 0 \<or> 5 + length pt \<le> length (inbuf tls)"
      unfolding length_drop by linarith
    then show ?thesis using assms(2) by (auto simp: inbuf_ok_def)
  qed
  show ?thesis
    using assms gcm cbc
    by (auto simp: open_record_def Let_def RECHDR_LEN_def AES_BLOCK_SIZE_def split: if_splits option.splits)
qed

lemma finish_record_keeps:
  "finish_record tls sz = Some (Return tls' sz') \<Longrightarrow> inbuf_ok tls \<Longrightarrow> inbuf_ok tls'"
  by (auto simp: finish_record_def Let_def inbuf_ok_def hash_handshake_def split: if_splits)

lemma read_loop_keeps:
  "filled tls got \<Longrightarrow> target \<le> MAX_INBUF \<Longrightarrow>
     (\<forall>u g t. read_loop env tls got target = Packet u g t \<longrightarrow> filled u g \<and> t \<le> g) \<and>
     (\<forall>u. read_loop env tls got target = Eof u \<longrightarrow> inbuf_ok u)"
proof (induction env tls got target rule: read_loop.induct)
  case (1 env tls got target)
  show ?case
  proof (cases "header_check tls got target")
    case None
    then show ?thesis by (simp add: read_loop.simps [of env tls got target])
  next
    case (Some t)
    then have t: "t \<le> MAX_INBUF"
      using "1.prems"(2) by (auto simp: header_check_def Let_def split: if_splits)
    show ?thesis
    proof (cases "t \<le> got")
      case True
      then show ?thesis using Some "1.prems"(1) by (simp add: read_loop.simps [of env tls got target])
    next
      case False
      have max: "got < MAX_INBUF" using False t by simp
      show ?thesis
      proof (cases "read_more env tls got")
        case None
        then show ?thesis using Some False by (simp add: read_loop.simps [of env tls got target])
      next
        case (Some p)
        obtain u bs where p: "p = (u, bs)" by (cases p)
        note m = Some [unfolded p] and h = \<open>header_check tls got target = Some t\<close>
        note f = read_more_filled(1) [OF m "1.prems"(1) max]
        show ?thesis
        proof (cases "bs = []")
          case True
          have "inbuf_ok (u\<lparr>buffered_size := 0\<rparr>)" using f by (simp add: filled_def inbuf_ok_def)
          then show ?thesis using h False m True by (simp add: read_loop.simps [of env tls got target])
        next
          case nonempty: False
          then show ?thesis
            using "1.IH" [OF h False m refl nonempty f t] h False m
            by (simp add: read_loop.simps [of env tls got target])
        qed
      qed
    qed
  qed
qed

lemma tls_xread_record_keeps_lemma:
  "inbuf_ok tls \<Longrightarrow> tls_xread_record env tls = Some (tls', sz) \<Longrightarrow> inbuf_ok tls'"
proof (induction env tls rule: tls_xread_record.induct)
  case (1 env tls)
  note keep = read_loop_keeps [OF moved_front_filled(1) [OF "1.prems"(1)], of MAX_INBUF env]
  show ?case
  proof (cases "read_loop env (moved_front tls) (buffered_size tls) MAX_INBUF")
    case (Packet u got target)
    define v where "v = u\<lparr>buffered_size := got - target, ofs_to_buffered := target\<rparr>"
    have "inbuf_ok v" using keep Packet by (auto simp: v_def inbuf_ok_def filled_def)
    moreover obtain w sz1 where w: "open_record env v (int target - int RECHDR_LEN) = Some (w, sz1)"
      using "1.prems"(2) Packet
      by (auto simp: tls_xread_record_eq after_read_def v_def split: option.splits)
    ultimately have ok: "inbuf_ok w" using open_record_keeps by blast
    consider x m where "finish_record w sz1 = Some (Return x m)" "tls' = x"
      | "finish_record w sz1 = Some (Again w)" "tls_xread_record env w = Some (tls', sz)"
      using "1.prems"(2) Packet w finish_record_again
      by (auto simp: tls_xread_record_eq [of env tls] after_read_def v_def split: option.splits record_stop.splits)
    then show ?thesis
    proof cases
      case 1
      then show ?thesis using finish_record_keeps ok by blast
    next
      case 2
      have "inbuf_ok w \<Longrightarrow> tls_xread_record env w = Some (tls', sz) \<Longrightarrow> inbuf_ok tls'"
        using "1.IH" Packet w 2(1) unfolding moved_front_def v_def by auto
      then show ?thesis using ok 2(2) by blast
    qed
  qed (use "1.prems"(2) keep in \<open>auto simp: tls_xread_record_eq [of env tls]\<close>)
qed

section \<open>Incomplete and malformed records\<close>

lemma read_more_empty:
  assumes "read_more env tls got = Some (tls', [])" "filled tls got" "got < MAX_INBUF"
  shows "ready_bytes (ifd tls) = []"
proof (rule ccontr)
  assume "ready_bytes (ifd tls) \<noteq> []"
  from read_more_some [OF assms(2,3) this, of env] show False using assms(1) by auto
qed

lemma read_loop_dies:
  "filled tls got \<Longrightarrow> arrived tls got = S \<Longrightarrow> S \<noteq> []
   \<Longrightarrow> \<not> (good_header S \<and> header_target S \<le> length S)
   \<Longrightarrow> target = MAX_INBUF \<or> target = header_target S \<and> good_header S
   \<Longrightarrow> read_loop env tls got target = Read_die"
proof (induction env tls got target rule: read_loop.induct)
  case (1 env tls got target)
  let ?T = "header_target S"
  show ?case
  proof (cases "header_check tls got target")
    case None
    then show ?thesis by (simp add: read_loop.simps [of env tls got target])
  next
    case (Some t)
    then have t: "t = ?T \<and> good_header S \<or> t = MAX_INBUF \<and> got < RECHDR_LEN"
      using "1.prems"(2,5) header_check_arrived [OF "1.prems"(1), of target]
      by (cases "RECHDR_LEN \<le> got \<and> target = MAX_INBUF") (auto split: if_splits)
    have "got \<le> length S" using length_arrived [OF "1.prems"(1)] "1.prems"(2) by simp
    then have False: "\<not> t \<le> got" using t "1.prems"(4) target_bounds(2) by auto
    then have max: "got < MAX_INBUF" using t by (auto simp: good_header_def)
    show ?thesis
    proof (cases "read_more env tls got")
      case None
      then show ?thesis using Some False by (simp add: read_loop.simps [of env tls got target])
    next
      case (Some p)
      obtain u bs where p: "p = (u, bs)" by (cases p)
      note m = Some [unfolded p] and h = \<open>header_check tls got target = Some t\<close>
      show ?thesis
      proof (cases "bs = []")
        case True
        then have "got \<noteq> 0"
          using read_more_empty [OF _ "1.prems"(1) max] m length_arrived [OF "1.prems"(1)] "1.prems"(2,3)
          by auto
        then show ?thesis using h False m True by (simp add: read_loop.simps [of env tls got target])
      next
        case nonempty: False
        have "arrived u (got + length bs) = S"
          using arrived_read_more [OF m nonempty "1.prems"(1) max] "1.prems"(2) by simp
        moreover have "t = MAX_INBUF \<or> t = ?T \<and> good_header S" using t by blast
        ultimately have "read_loop env u (got + length bs) t = Read_die"
          using "1.IH" [OF h False m refl nonempty read_more_filled(1) [OF m "1.prems"(1) max] _ "1.prems"(3,4)]
          by blast
        then show ?thesis using h False m nonempty by (simp add: read_loop.simps [of env tls got target])
      qed
    qed
  qed
qed

section \<open>Properties\<close>

text \<open>
  Property C9. What one side sends with \<open>xwrite_encrypted_aesgcm\<close>, a side with the same keys
  receives with \<open>tls_xread_record\<close>: whatever the network makes of the stream and whatever else
  is pending behind the record, the record type and the content arrive and the rest stays pending.
\<close>

theorem tls_gcm_channel:
  assumes "length (stack_block env) = 16" "length (stack_block env') = 16"
    and "length (tls_H w) = 16" "4 \<le> length (client_write_IV w)"
    and "OUTBUF_PFX + n + OUTBUF_SFX \<le> length (outbuf w)" "n \<le> TLS_MAX_OUTBUF"
    and "typ \<noteq> RECORD_TYPE_ALERT" "xwrite_encrypted_aesgcm env w n typ = Some w'"
    and "inbuf_ok r" "flags r AND ENCRYPTION_AESGCM \<noteq> 0" "min_encrypted_len_on_read r = 24"
    and "aes_decrypt r = aes_encrypt w" "4 \<le> length (server_write_IV r)"
    and "take 4 (server_write_IV r) = take 4 (client_write_IV w)"
    and "pending r = drop (length (ofd w)) (ofd w') @ rest"
  shows "\<exists>r'. tls_xread_record env' r = Some (r', int n)
    \<and> inbuf r' ! 0 = typ
    \<and> take n (drop RECHDR_LEN (inbuf r')) = take n (drop OUTBUF_PFX (outbuf w))
    \<and> pending r' = rest \<and> inbuf_ok r'"
proof -
  let ?E = "aes_encrypt_one_block (aes_encrypt w)" and ?d = "take n (drop OUTBUF_PFX (outbuf w))"
  let ?salt = "take 4 (client_write_IV w)" and ?seq = "store64 (write_seq64_be w)"
  have ld: "length ?d = n" using assms(5) by simp
  have "ofd w' = ofd w @ tls_gcm_record ?E (tls_H w) ?salt ?seq typ ?d"
    using aesgcm_record_written [OF assms(3,4,1,5,6), of "typ"] assms(8) by auto
  moreover obtain tag where "length tag = 16"
      "tls_gcm_record ?E (tls_H w) ?salt ?seq typ ?d = gcm_record_with_tag ?E ?salt ?seq typ ?d tag"
  proof
    have "length (?salt @ ?seq) = 12" using assms(4) by simp
    then show "length (gcm_tag ?E (tls_H w) (?salt @ ?seq) (?seq @ [typ, 3, 3] @ be16 (length ?d))
        (ctr_xor ?E (?salt @ ?seq) 2 ?d)) = 16"
      using aes_block.block by (simp add: gcm_tag_def)
  qed (simp add: tls_gcm_record_def gcm_record_with_tag_def Let_def)
  ultimately have "pending r = gcm_record_with_tag (aes_encrypt_one_block (aes_decrypt r))
      (take 4 (server_write_IV r)) ?seq typ ?d tag @ rest"
    using assms(12,14,15) by simp
  then show ?thesis
    using tls_gcm_receive [OF assms(9,2,13,10), of ?d ?seq tag "typ" rest] assms(6,7,11) ld
      \<open>length tag = 16\<close> by simp
qed

lemma tls_gcm_channel_witness:
  "\<exists>w' r'. xwrite_encrypted_aesgcm env0 (tls0 16 (replicate 100 0x41) [1, 2, 3, 4] []) 20 23 = Some w'
    \<and> tls_xread_record env0 (tls0 16 [] [1, 2, 3, 4] [Got (ofd w')]) = Some (r', 20)
    \<and> take 20 (drop RECHDR_LEN (inbuf r')) = replicate 20 0x41"
proof -
  let ?w = "tls0 16 (replicate 100 0x41) [1, 2, 3, 4] []"
  obtain w' where w: "xwrite_encrypted_aesgcm env0 ?w 20 23 = Some w'" "ofd w' \<noteq> []"
    using aesgcm_record_written [of ?w env0 20 23]
    by (auto simp: tls0_def env0_def OUTBUF_PFX_def OUTBUF_SFX_def AES_BLOCK_SIZE_def TLS_MAX_OUTBUF_def
        tls_gcm_record_def Let_def)
  then show ?thesis
    using tls_gcm_channel [of env0 env0 ?w 20 23 w' "tls0 16 [] [1, 2, 3, 4] [Got (ofd w')]" "[]"]
    by (simp add: tls0_def env0_def OUTBUF_PFX_def OUTBUF_SFX_def AES_BLOCK_SIZE_def TLS_MAX_OUTBUF_def
        RECORD_TYPE_ALERT_def inbuf_ok_def pending_def ENCRYPTION_AESGCM_def) blast
qed

text \<open>
  Property C20. The tag of a received AES-GCM record is not looked at: whatever its sixteen bytes
  are, the record is accepted and its content returned.
\<close>

theorem tls_gcm_tag_not_checked:
  assumes "inbuf_ok tls" "length (stack_block env) = 16" "4 \<le> length (server_write_IV tls)"
    and "flags tls AND ENCRYPTION_AESGCM \<noteq> 0" "min_encrypted_len_on_read tls = 24"
    and "length content \<le> TLS_MAX_OUTBUF" "length seq = 8" "length tag = 16" "typ \<noteq> RECORD_TYPE_ALERT"
    and "pending tls = gcm_record_with_tag (aes_encrypt_one_block (aes_decrypt tls))
      (take 4 (server_write_IV tls)) seq typ content tag @ rest"
  shows "\<exists>tls'. tls_xread_record env tls = Some (tls', int (length content))
    \<and> take (length content) (drop RECHDR_LEN (inbuf tls')) = content"
  using tls_gcm_receive [OF assms(1-4) _ _ assms(6-10)] assms(5) by auto

definition forged :: tls_state where
  "forged = tls0 16 [] [1, 2, 3, 4]
     [Got (gcm_record_with_tag (aes_encrypt_one_block \<lparr>aes_key = replicate 60 7, aes_rounds = 10\<rparr>)
       [1, 2, 3, 4] (replicate 8 0) 23 [0x41] (replicate 16 0xFF))]"

lemma forged_pending:
  "pending forged = gcm_record_with_tag (aes_encrypt_one_block (aes_decrypt forged))
     (take 4 (server_write_IV forged)) (replicate 8 0) 23 [0x41] (replicate 16 0xFF) @ []"
  by (simp add: forged_def tls0_def pending_def gcm_record_with_tag_def)

lemma forged_setup:
  "inbuf_ok forged" "length (stack_block env0) = 16" "4 \<le> length (server_write_IV forged)"
  "flags forged AND ENCRYPTION_AESGCM \<noteq> 0" "min_encrypted_len_on_read forged = 24"
  by (simp_all add: forged_def tls0_def env0_def inbuf_ok_def ENCRYPTION_AESGCM_def)

lemma tls_gcm_tag_not_checked_witness:
  "\<exists>tls'. tls_xread_record env0 forged = Some (tls', 1)
    \<and> take 1 (drop RECHDR_LEN (inbuf tls')) = [0x41]"
  using tls_gcm_tag_not_checked [OF forged_setup, of "[0x41]" "replicate 8 0" "replicate 16 0xFF" 23 "[]"]
    forged_pending
  by (simp add: TLS_MAX_OUTBUF_def RECORD_TYPE_ALERT_def)

text \<open>
  Property C22. Reading a record keeps the invariant of the input buffer, on every input: the
  allocated size is the recorded one and at most \<open>MAX_INBUF\<close>, and the bytes kept for the next
  record lie inside.
\<close>

theorem tls_xread_record_keeps_inbuf_ok:
  assumes "inbuf_ok tls" "tls_xread_record env tls = Some (tls', sz)"
  shows "inbuf_ok tls'"
  using assms by (rule tls_xread_record_keeps_lemma)

lemma tls_xread_record_keeps_inbuf_ok_witness:
  "\<exists>tls'. tls_xread_record env0 forged = Some (tls', 1) \<and> inbuf_ok tls'"
proof -
  obtain tls' where "tls_xread_record env0 forged = Some (tls', 1)"
    using tls_gcm_receive [OF forged_setup(1-4), of "[0x41]" "replicate 8 0" "replicate 16 0xFF" 23 "[]"]
      forged_setup(5) forged_pending
    by (auto simp: TLS_MAX_OUTBUF_def RECORD_TYPE_ALERT_def)
  then show ?thesis using tls_xread_record_keeps_inbuf_ok [OF forged_setup(1)] by blast
qed

text \<open>
  Property C23. When the pending bytes neither begin with a complete record of TLS 1.2 of
  acceptable length nor are empty, the reader dies: on a wrong version, on a length that exceeds
  the buffer and on a stream that ends or fails within a record.
\<close>

theorem tls_xread_record_malformed:
  assumes "inbuf_ok tls" "pending tls \<noteq> []"
    and "\<not> (good_header (pending tls) \<and> header_target (pending tls) \<le> length (pending tls))"
  shows "tls_xread_record env tls = None"
  using read_loop_dies [OF moved_front_filled(1,2) [OF assms(1)] assms(2,3), of MAX_INBUF env]
  by (simp add: tls_xread_record_eq)

lemma tls_xread_record_malformed_witness:
  "tls_xread_record env0 (tls0 16 [] [1, 2, 3, 4] [Got [23, 3], Got [1, 0, 0], Got [5]]) = None"
  using tls_xread_record_malformed [of "tls0 16 [] [1, 2, 3, 4] [Got [23, 3], Got [1, 0, 0], Got [5]]" env0]
  by (simp add: tls0_def inbuf_ok_def pending_def good_header_def TLS_MIN_def)

end
