(* ===== verification/Tls_Cbc.thy ===== *)
theory Tls_Cbc
  imports Tls_Read
begin

text \<open>
  Records protected with a keyed hash and AES in cipher block chaining mode:
  \<open>xwrite_encrypted_and_hmac_signed\<close> sends the GenericBlockCipher record of RFC 5246, and
  \<open>tls_xread_record\<close> recovers its content.
\<close>

section \<open>The record\<close>

definition cbc_pad :: "bytes \<Rightarrow> bytes" where
  "cbc_pad P = P @ replicate (16 - length P mod 16) (of_nat (15 - length P mod 16))"

text \<open>Content, MAC and padding, encrypted from a random block that is sent in clear.\<close>

definition cbc_record :: "tls_aes \<Rightarrow> bytes \<Rightarrow> u8 \<Rightarrow> bytes \<Rightarrow> bytes \<Rightarrow> bytes" where
  "cbc_record aes iv typ content mac =
     (let P = cbc_pad (content @ mac)
      in [typ, 3, 3] @ be16 (length P + 16) @ iv
           @ concat (cbc_blocks (block_cipher aes) iv (chunks 16 P)))"

definition tls_mac :: "(bytes \<Rightarrow> bytes) \<Rightarrow> bytes \<Rightarrow> bytes \<Rightarrow> u8 \<Rightarrow> bytes \<Rightarrow> bytes" where
  "tls_mac H key seq typ content =
     rfc2104_hmac H key (seq @ [typ, 3, 3] @ be16 (length content) @ content)"

lemma length_cbc_pad: "length (cbc_pad P) = length P + (16 - length P mod 16)"
  "16 dvd length (cbc_pad P)"
proof -
  show l: "length (cbc_pad P) = length P + (16 - length P mod 16)" by (simp add: cbc_pad_def)
  obtain q r where "length P = 16 * q + r" "r < 16" "length P mod 16 = r"
    using mod_less_divisor [of 16 "length P"] mult_div_mod_eq [of 16 "length P"] by (metis zero_less_numeral)
  then have "length P + (16 - length P mod 16) = 16 * (q + 1)" by simp
  then show "16 dvd length (cbc_pad P)" unfolding l by simp
qed

lemma chunk_facts:
  assumes "16 dvd length P"
  shows "\<forall>c\<in>set (chunks 16 P). length c = 16" "concat (chunks 16 P) = P"
    "16 * length (chunks 16 P) = length P"
proof -
  show a: "\<forall>c\<in>set (chunks 16 P). length c = 16" using chunks_lengths by blast
  show b: "concat (chunks 16 P) = P" using assms by (rule concat_chunks)
  show "16 * length (chunks 16 P) = length P" using length_concat_16 [OF a] unfolding b by (rule sym)
qed

lemma length_cbc_chain:
  assumes "aes_ready aes" "length iv = 16" "16 dvd length P"
  shows "length (concat (cbc_blocks (block_cipher aes) iv (chunks 16 P))) = length P"
  using length_concat_16 [OF cbc_blocks_lengths [OF length_block_cipher [OF assms(1)]
      chunk_facts(1) [OF assms(3)] assms(2)]] chunk_facts(3) [OF assms(3)] by simp

section \<open>Receiving\<close>

lemma unat_of_nat_byte: "k < 256 \<Longrightarrow> unat (of_nat k :: u8) = k"
  by (simp add: unat_of_nat take_bit_eq_mod)

lemma last_pad:
  "cbc_pad P \<noteq> []" "uint (last (cbc_pad P)) = 15 - int (length P) mod 16"
proof -
  have k: "16 - length P mod 16 = Suc (15 - length P mod 16)" by (simp add: Suc_diff_le)
  show "cbc_pad P \<noteq> []" unfolding cbc_pad_def k by simp
  have "last (cbc_pad P) = of_nat (15 - length P mod 16)" unfolding cbc_pad_def k by (simp add: last_replicate)
  moreover have "unat (of_nat (15 - length P mod 16) :: u8) = 15 - length P mod 16"
    by (rule unat_of_nat_byte) simp
  ultimately have "unat (last (cbc_pad P)) = 15 - length P mod 16" by simp
  then show "uint (last (cbc_pad P)) = 15 - int (length P) mod 16"
    unfolding uint_nat by (simp add: of_nat_diff zmod_int)
qed

lemma int_plus_16: "int (n + 16) - 16 = int n" "(of_int (int n) :: 'a :: len word) = of_nat n" and nat_end: "nat (int 5 + int n - 1) = 4 + n"
  by simp_all

lemma open_record_cbc:
  assumes "flags u AND ENCRYPTION_AESGCM = 0" "TLS_MAC_SIZE env u < min_encrypted_len_on_read u"
    and "min_encrypted_len_on_read u \<le> N" "int N mod 16 = 0"
    and "aes_cbc_decrypt (aes_decrypt u) (stack_block env) (drop 5 (inbuf u)) (drop 21 (inbuf u))
      (of_int (int N - 16)) = Some pt"
    and "uint (inbuf (u\<lparr>inbuf := blit (inbuf u) 5 pt\<rparr>) ! nat (int 5 + (int N - 16) - 1)) = q"
  shows "open_record env u (int N) = Some (u\<lparr>inbuf := blit (inbuf u) 5 pt\<rparr>,
    int N - 16 - (int (TLS_MAC_SIZE env u) + (q + 1)))"
proof -
  have off: "RECHDR_LEN = 5" "AES_BLOCK_SIZE = 16" "5 + 16 = (21 :: nat)" "int 16 = 16"
    by (simp_all add: RECHDR_LEN_def AES_BLOCK_SIZE_def)
  have mac: "TLS_MAC_SIZE env (u\<lparr>inbuf := b\<rparr>) = TLS_MAC_SIZE env u" for b
    by (simp add: TLS_MAC_SIZE_def)
  have "min_encrypted_len_on_read u \<noteq> 0" "\<not> int N < int (min_encrypted_len_on_read u)" using assms(2,3) by linarith+
  then show ?thesis
    unfolding open_record_def Let_def off using assms(1,2,4,5) by (simp only: simp_thms if_True if_False option.case mac assms(6))
qed

lemma tls_cbc_receive:
  assumes "inbuf_ok tls" "length (stack_block env) = 16" "aes_ready (aes_decrypt tls)"
    and "flags tls AND ENCRYPTION_AESGCM = 0" "TLS_MAC_SIZE env tls < min_encrypted_len_on_read tls"
    and "min_encrypted_len_on_read tls \<le> length (cbc_pad (content @ mac)) + 16"
    and "length content \<le> TLS_MAX_OUTBUF" "length mac = TLS_MAC_SIZE env tls" "length mac \<le> 32"
    and "length iv = 16" "typ \<noteq> RECORD_TYPE_ALERT"
    and "pending tls = cbc_record (aes_decrypt tls) iv typ content mac @ rest"
  shows "\<exists>tls'. tls_xread_record env tls = Some (tls', int (length content))
    \<and> inbuf tls' ! 0 = typ \<and> take (length content) (drop RECHDR_LEN (inbuf tls')) = content
    \<and> pending tls' = rest \<and> inbuf_ok tls'"
proof -
  define P where "P = cbc_pad (content @ mac)"
  define n where "n = length P"
  define ct where "ct = concat (cbc_blocks (block_cipher (aes_decrypt tls)) iv (chunks 16 P))"
  define R where "R = cbc_record (aes_decrypt tls) iv typ content mac"
  let ?hdr = "[typ, 3, 3] @ be16 (n + 16)"
  have d: "16 dvd n" and lP: "n = length content + length mac + (16 - (length content + length mac) mod 16)"
    using length_cbc_pad [of "content @ mac"] by (simp_all add: n_def P_def)
  have R: "R = ?hdr @ iv @ ct" by (simp add: R_def cbc_record_def P_def n_def ct_def Let_def)
  have lct: "length ct = n"
    using length_cbc_chain [OF assms(3,10)] d by (simp add: ct_def n_def)
  have lR: "length R = n + 21" using assms(10) lct by (simp add: R be16_def)
  have n: "n \<le> 2 ^ 14 + 48" using assms(7,9) lP by (simp add: TLS_MAX_OUTBUF_def)
  have t: "header_target R = length R"
    using unat_be16 [of "n + 16"] n lR by (simp add: header_target_def R be16_def RECHDR_LEN_def)
  have g: "good_header R"
    unfolding good_header_def t using n lR
    by (simp add: R RECHDR_LEN_def MAX_INBUF_def TLS_MAJ_def TLS_MIN_def)
  obtain u where u: "at_front tls u R rest"
      "tls_xread_record env tls = after_read env u (int (length R) - int RECHDR_LEN)"
    using tls_xread_record_front [OF assms(1) assms(12) [folded R_def] g t] .
  obtain X where X: "inbuf u = R @ X"
    using u(1) append_take_drop_id [of "length R" "inbuf u"] by (metis at_front_def)
  note f = same_static_fields [of tls u]
  have st: "same_static tls u" "inbuf_ok u" "pending u = rest"
      "buffered_size u \<noteq> 0 \<longrightarrow> ofs_to_buffered u = n + 21"
    using u(1) lR by (simp_all add: at_front_def)
  have mac: "TLS_MAC_SIZE env u = length mac" using f st(1) assms(8) by (simp add: TLS_MAC_SIZE_def)
  have "16 * length (chunks 16 P) < 2 ^ 64" using chunk_facts(3) [of P] d n by (simp add: n_def)
  note dec0 = aes_cbc_decrypt_loop_blocks [OF assms(3) chunk_facts(1) _ this, of True iv "stack_block env" X]
  have "aes_cbc_decrypt_loop (aes_decrypt tls) iv (stack_block env) True (ct @ X) (of_nat n) = Some P"
    using dec0 assms(10) d chunk_facts(2,3) [of P] by (simp add: ct_def n_def)
  moreover have "take 16 (drop 5 (inbuf u)) = iv" "drop 21 (inbuf u) = ct @ X"
    using assms(10) by (simp_all add: X R be16_def)
  ultimately have dec: "aes_cbc_decrypt (aes_decrypt u) (stack_block env) (drop 5 (inbuf u))
      (drop 21 (inbuf u)) (of_nat n) = Some P"
    using f st(1) by (simp add: aes_cbc_decrypt_def)
  define v where "v = u\<lparr>inbuf := blit (inbuf u) 5 P\<rparr>"
  have iv0: "inbuf v = ?hdr @ P @ drop n (iv @ ct @ X)"
    using blit_prefix [of ?hdr 5 "iv @ ct @ X" P] by (simp add: v_def X R be16_def n_def)
  have np: "0 < n" using lP by simp
  have "inbuf v ! (4 + n) = P ! (n - 1)"
    using np by (simp add: iv0 be16_def nth_append nth_Cons' n_def)
  then have pl: "uint (inbuf v ! (4 + n)) = 15 - int (length (content @ mac)) mod 16"
    using last_pad [of "content @ mac"] by (simp add: last_conv_nth P_def n_def)
  have sz: "int n - (int (length mac) + (15 - int (length (content @ mac)) mod 16 + 1)) = int (length content)"
    using lP by (simp add: of_nat_diff zmod_int)
  have m16: "int (n + 16) mod 16 = 0" using d by presburger
  have le: "min_encrypted_len_on_read tls \<le> n + 16" using assms(6) by (simp add: n_def P_def)
  have "open_record env u (int (n + 16)) = Some (v, int (n + 16) - 16
      - (int (TLS_MAC_SIZE env u) + (15 - int (length (content @ mac)) mod 16 + 1)))"
    unfolding v_def
    using dec pl m16 le f st(1) assms(4,5) mac assms(8)
    by (intro open_record_cbc) (simp_all only: v_def simp_thms int_plus_16 nat_end tls_state.simps)
  then have o: "open_record env u (int (n + 16)) = Some (v, int (length content))"
    using sz mac by simp
  have v: "inbuf_ok v" "pending v = rest"
    using st lR X drop_blit [of 5 P "n + 21" "inbuf u"]
    by (auto simp: v_def inbuf_ok_def pending_def n_def)
  have v0: "inbuf v ! 0 = typ" by (simp add: iv0 be16_def)
  have vc: "take (length content) (drop 5 (inbuf v)) = content"
    by (simp add: iv0 be16_def P_def cbc_pad_def)
  obtain w where "finish_record v (int (length content)) = Some (Return w (int (length content)))" "inbuf w = inbuf v"
      "pending w = pending v" "inbuf_ok w"
    using finish_record_plain [of "int (length content)" v] v0 assms(11) v(1) by auto
  moreover have "tls_xread_record env tls = after_read env u (int (n + 16))"
    unfolding u(2) lR by (simp add: RECHDR_LEN_def add.commute)
  ultimately show ?thesis
    using o v(2) v0 vc by (simp add: after_read_def RECHDR_LEN_def)
qed

section \<open>Sending\<close>

lemma pad_loop_blit:
  "OUTBUF_PFX + sz + (16 - sz mod 16) \<le> length mem \<Longrightarrow>
    pad_loop mem sz p = (blit mem (OUTBUF_PFX + sz) (replicate (16 - sz mod 16) p), sz + (16 - sz mod 16))"
proof (induction mem sz p rule: pad_loop.induct)
  case (1 mem sz p)
  show ?case
  proof (cases "(sz + 1) mod 16 = 0")
    case True
    then have "sz mod 16 = 15" by (simp add: mod_Suc split: if_splits)
    then show ?thesis
      using True 1(2) by (subst pad_loop.simps)
        (simp add: Let_def AES_BLOCK_SIZE_def blit_Cons)
  next
    case False
    then have "(sz + 1) mod 16 = Suc (sz mod 16)" by (simp add: mod_Suc split: if_splits)
    moreover have "sz mod 16 < 16" by simp
    ultimately have k: "16 - sz mod 16 = Suc (16 - (sz + 1) mod 16)" by linarith
    have "pad_loop mem sz p = pad_loop (mem[OUTBUF_PFX + sz := p]) (sz + 1) p"
      using False by (subst pad_loop.simps) (simp add: Let_def AES_BLOCK_SIZE_def)
    also have "\<dots> = (blit (mem[OUTBUF_PFX + sz := p]) (OUTBUF_PFX + (sz + 1)) (replicate (16 - (sz + 1) mod 16) p),
        sz + 1 + (16 - (sz + 1) mod 16))"
      using 1(2) False k by (intro 1(1)) (simp_all add: AES_BLOCK_SIZE_def)
    finally show ?thesis
      using 1(2) blit_Cons [of "OUTBUF_PFX + sz" p "replicate (16 - (sz + 1) mod 16) p" mem]
      unfolding k by simp
  qed
qed

lemma pad_byte: "NOT (of_nat sz) AND (of_nat AES_BLOCK_SIZE - 1) = (of_nat (15 - sz mod 16) :: u8)"
proof -
  have m: "of_nat AES_BLOCK_SIZE - 1 = (mask 4 :: u8)" by (simp add: AES_BLOCK_SIZE_def mask_eq_exp_minus_1)
  have "NOT (of_nat sz :: u8) AND mask 4 = mask 4 - take_bit 4 (of_nat sz)"
    by (simp only: take_bit_eq_mask [symmetric] take_bit_not_eq_mask_diff)
  also have "take_bit 4 (of_nat sz :: u8) = of_nat (take_bit 4 sz)" by (simp only: take_bit_of_nat)
  also have "mask 4 - of_nat (take_bit 4 sz) = (of_nat (15 - sz mod 16) :: u8)"
    by (simp add: take_bit_eq_mod mask_eq_exp_minus_1 of_nat_diff)
  finally show ?thesis unfolding m .
qed

text \<open>The output buffer around a content of \<open>n\<close> bytes and a MAC of \<open>m\<close>.\<close>

lemma outbuf_split:
  assumes "OUTBUF_PFX + n + OUTBUF_SFX \<le> length mem" "m \<le> 32"
  obtains pre h0 h1 h2 h3 h4 iv d t pad rest where
    "mem = pre @ h0 # h1 # h2 # h3 # h4 # iv @ d @ t @ pad @ rest" "length pre = 3" "length iv = 16"
    "length d = n" "length t = m" "length pad = 16 - (n + m) mod 16" "d = take n (drop OUTBUF_PFX mem)"
proof -
  have l: "24 + n + 48 \<le> length mem"
    using assms by (simp add: OUTBUF_PFX_def OUTBUF_SFX_def AES_BLOCK_SIZE_def)
  define k where "k = 16 - (n + m) mod 16"
  have k: "k \<le> 16" by (simp add: k_def)
  let ?m = "drop 8 mem"
  have "mem = take 3 mem @ mem ! 3 # mem ! 4 # mem ! 5 # mem ! 6 # mem ! 7 # ?m"
    using l append_take_drop_id [of 3 mem] Cons_nth_drop_Suc [of 3 mem] Cons_nth_drop_Suc [of 4 mem]
      Cons_nth_drop_Suc [of 5 mem] Cons_nth_drop_Suc [of 6 mem] Cons_nth_drop_Suc [of 7 mem]
    by simp
  moreover have "?m = take 16 ?m @ take n (drop 24 mem) @ take m (drop (24 + n) mem)
      @ take k (drop (24 + n + m) mem) @ drop (24 + n + m + k) mem"
    using append_take_drop_id [of 16 ?m] append_take_drop_id [of n "drop 24 mem"]
      append_take_drop_id [of m "drop (24 + n) mem"] append_take_drop_id [of k "drop (24 + n + m) mem"]
    by (simp add: ac_simps)
  ultimately show thesis using l k assms(2)
    by (intro that [of "take 3 mem" "mem ! 3" "mem ! 4" "mem ! 5" "mem ! 6" "mem ! 7"
          "take 16 ?m" "take n (drop 24 mem)" "take m (drop (24 + n) mem)"
          "take k (drop (24 + n + m) mem)" "drop (24 + n + m + k) mem"])
      (simp_all add: OUTBUF_PFX_def AES_BLOCK_SIZE_def k_def)
qed

text \<open>The hash that the connection's MAC uses.\<close>

definition mac_hash :: "tls_env \<Rightarrow> tls_state \<Rightarrow> bytes \<Rightarrow> bytes" where
  "mac_hash env tls = (if ENABLE_FEATURE_TLS_SHA1 env \<and> MAC_size tls = 20 then fips180_sha1 else fips180_sha256)"

definition sent_mac :: "tls_env \<Rightarrow> tls_state \<Rightarrow> u8 \<Rightarrow> bytes \<Rightarrow> bytes" where
  "sent_mac env tls typ content = tls_mac (mac_hash env tls)
     (take (TLS_MAC_SIZE env tls) (client_write_MAC_key tls)) (store64 (write_seq64_be tls)) typ content"

definition cbc_setup :: "tls_env \<Rightarrow> tls_state \<Rightarrow> nat \<Rightarrow> bool" where
  "cbc_setup env tls n \<longleftrightarrow> length (fst (stack_blocks env)) = 64 \<and> length (snd (stack_blocks env)) = 64
     \<and> ctx_wf (hashed_key_xor_ipad (stack_pre env)) \<and> ctx_wf (hashed_key_xor_opad (stack_pre env))
     \<and> 16 \<le> length (urandom env) \<and> aes_ready (aes_encrypt tls)
     \<and> (ENABLE_FEATURE_TLS_SHA1 env \<longrightarrow> MAC_size tls \<in> {20, 32})
     \<and> OUTBUF_PFX + n + OUTBUF_SFX \<le> length (outbuf tls) \<and> n \<le> TLS_MAX_OUTBUF"

lemma length_sha1 [simp]: "length (fips180_sha1 msg) = 20"
proof -
  have "length (foldl fips_sha1_compress [0x67452301, 0xefcdab89, 0x98badcfe, 0x10325476, 0xc3d2e1f0] bs) = 5" for bs
    by (intro length_foldl) simp_all
  moreover have "length (concat (map store_be32 ws)) = 4 * length ws" for ws
    by (induction ws) (simp_all add: store_be32_def)
  ultimately show ?thesis by (simp add: fips180_sha1_def del: length_concat)
qed

lemma length_sent_mac:
  assumes "cbc_setup env tls n"
  shows "length (sent_mac env tls typ content) = TLS_MAC_SIZE env tls" "TLS_MAC_SIZE env tls \<in> {20, 32}"
proof -
  note H = length_sha1
  show "TLS_MAC_SIZE env tls \<in> {20, 32}" using assms by (auto simp: cbc_setup_def TLS_MAC_SIZE_def SHA256_OUTSIZE_def)
  show "length (sent_mac env tls typ content) = TLS_MAC_SIZE env tls"
    using assms H by (auto simp: cbc_setup_def TLS_MAC_SIZE_def SHA256_OUTSIZE_def sent_mac_def tls_mac_def
        rfc2104_hmac_def Let_def mac_hash_def)
qed

lemma min_len_padded:
  fixes m n :: nat
  assumes "m \<in> {20, 32}"
  shows "16 * ((m + 15) div 16) \<le> n + m + (16 - (n + m) mod 16)"
proof -
  have "16 * ((n + m) div 16) + (n + m) mod 16 = n + m" "(n + m) mod 16 < 16" by simp_all
  moreover have "(m + 15) div 16 \<le> m div 16 + 1" using assms by auto
  moreover have "m div 16 \<le> (n + m) div 16" by (rule div_le_mono) simp
  ultimately show ?thesis by linarith
qed

lemma cbc_record_written:
  assumes "cbc_setup env tls n"
  shows "\<exists>tls'. xwrite_encrypted_and_hmac_signed env tls n typ = Some tls'
    \<and> ofd tls' = ofd tls @ cbc_record (aes_encrypt tls) (take 16 (urandom env)) typ
        (take n (drop OUTBUF_PFX (outbuf tls)))
        (sent_mac env tls typ (take n (drop OUTBUF_PFX (outbuf tls))))
    \<and> SWAP_BE64 (write_seq64_be tls') = SWAP_BE64 (write_seq64_be tls) + 1"
proof -
  define m where "m = TLS_MAC_SIZE env tls"
  have m: "m \<in> {20, 32}" using length_sent_mac(2) [OF assms] by (simp add: m_def)
  have a: "OUTBUF_PFX + n + OUTBUF_SFX \<le> length (outbuf tls)" "m \<le> 32" "n \<le> 2 ^ 14" "aes_ready (aes_encrypt tls)"
    using assms m by (auto simp: cbc_setup_def TLS_MAX_OUTBUF_def)
  obtain pre h0 h1 h2 h3 h4 iv0 d t pad rest where
    o: "outbuf tls = pre @ h0 # h1 # h2 # h3 # h4 # iv0 @ d @ t @ pad @ rest"
    and l: "length pre = 3" "length iv0 = 16" "length d = n" "length t = m" "length pad = 16 - (n + m) mod 16"
    and d: "d = take n (drop OUTBUF_PFX (outbuf tls))"
    using outbuf_split [OF a(1,2)] .
  define mac where "mac = sent_mac env tls typ d"
  define iv where "iv = take 16 (urandom env)"
  have lm: "length mac = m" unfolding mac_def m_def by (rule length_sent_mac(1) [OF assms])
  have liv: "length iv = 16" using assms by (simp add: iv_def cbc_setup_def)
  let ?h = "[typ, 3, 3] @ be16 n"
  have h5: "length ?h = 5" by (simp add: be16_def)
  have off: "OUTBUF_PFX = 24" "RECHDR_LEN = 5" "AES_BLOCK_SIZE = 16"
    by (simp_all add: OUTBUF_PFX_def RECHDR_LEN_def AES_BLOCK_SIZE_def)
  define u where "u = tls\<lparr>write_seq64_be := SWAP_BE64 (1 + SWAP_BE64 (write_seq64_be tls))\<rparr>"
  define M1 where "M1 = pre @ ?h @ iv0 @ d @ t @ pad @ rest"
  have t1: "set_len16 3 n (set_proto 3 (set_type 3 typ tls)) = tls\<lparr>outbuf := M1\<rparr>"
    using hdr_updates [OF l(1)] unfolding set_len16_def set_proto_def set_type_def o M1_def
    by (simp add: TLS_MAJ_def TLS_MIN_def be16_def)
  have parts: "take 5 (drop 3 M1) = ?h" "take n (drop 24 M1) = d"
    using l by (simp_all add: M1_def be16_def)
  have hm: "hmac (ENABLE_FEATURE_TLS_SHA1 env) (MAC_size tls) (stack_blocks env) (stack_pre env)
      (take m (client_write_MAC_key tls)) [store64 (write_seq64_be tls), ?h, d] = Some mac"
    using assms hmac_value [of "take m (client_write_MAC_key tls)" "stack_blocks env" "stack_pre env"] a(2) l(3)
    by (simp add: cbc_setup_def mac_def sent_mac_def tls_mac_def mac_hash_def m_def)
  have M2: "blit M1 (24 + n) mac = (pre @ ?h) @ iv0 @ d @ mac @ pad @ rest"
    using blit_at [of "pre @ ?h @ iv0 @ d" "24 + n" t mac "pad @ rest"] l lm h5 by (simp add: M1_def)
  have M3: "blit ((pre @ ?h) @ iv0 @ d @ mac @ pad @ rest) 8 iv = (pre @ ?h @ iv @ d @ mac) @ pad @ rest"
    using blit_at [of "pre @ ?h" 8 iv0 iv "d @ mac @ pad @ rest"] l liv h5 by simp
  define P where "P = cbc_pad (d @ mac)"
  have lP: "length P = n + m + (16 - (n + m) mod 16)" "16 dvd length P"
    using length_cbc_pad [of "d @ mac"] l(3) lm by (simp_all add: P_def)
  define k where "k = 16 - (n + m) mod 16"
  define pb where "pb = (of_nat (15 - (n + m) mod 16) :: u8)"
  have P': "P = d @ mac @ replicate k pb" using l(3) lm by (simp add: P_def cbc_pad_def k_def pb_def)
  have le: "24 + (n + m) + k \<le> length ((pre @ ?h @ iv @ d @ mac) @ pad @ rest)"
    using l lm liv by (simp add: be16_def k_def)
  have PL: "pad_loop ((pre @ ?h @ iv @ d @ mac) @ pad @ rest) (n + m) pb = ((pre @ ?h @ iv) @ P @ rest, length P)"
  proof -
    have "blit ((pre @ ?h @ iv @ d @ mac) @ pad @ rest) (24 + (n + m)) (replicate k pb)
        = (pre @ ?h @ iv @ d @ mac) @ replicate k pb @ rest"
      using l lm liv by (intro blit_at) (simp_all add: be16_def k_def)
    then show ?thesis
      using pad_loop_blit [of "n + m" "(pre @ ?h @ iv @ d @ mac) @ pad @ rest" pb, unfolded off, folded k_def, OF le]
        lP(1) [folded k_def] unfolding P' by simp
  qed
  let ?ct = "concat (cbc_blocks (block_cipher (aes_encrypt tls)) iv (chunks 16 P))"
  have ct: "aes_cbc_encrypt (aes_encrypt tls) (iv @ P @ rest) (P @ rest) (of_nat (length P)) = Some ?ct"
    using aes_cbc_encrypt_loop_blocks [OF a(4) liv, of P "length P div 16" rest] lP a(2,3) liv
    by (simp add: aes_cbc_encrypt_def)
  have lct: "length ?ct = length P" by (rule length_cbc_chain [OF a(4) liv lP(2)])
  have M5: "blit ((pre @ ?h @ iv) @ P @ rest) 24 ?ct = pre @ ?h @ iv @ ?ct @ rest"
    using blit_at [of "pre @ ?h @ iv" 24 P ?ct rest] l liv h5 lct by simp
  let ?R = "([typ, 3, 3] @ be16 (length P + 16)) @ iv @ ?ct"
  have t5: "set_len16 3 (length P + 16) (u\<lparr>outbuf := pre @ ?h @ iv @ ?ct @ rest\<rparr>) = u\<lparr>outbuf := pre @ ?R @ rest\<rparr>"
    using hdr_updates(3) [OF l(1)] by (simp add: set_len16_def be16_def)
  have R: "length ?R = 5 + (length P + 16)" using liv lct by (simp add: be16_def)
  have sent: "take (5 + (length P + 16)) (drop 3 (pre @ ?R @ rest)) = ?R"
    using l(1) R by (metis append_eq_conv_conj)
  have rec: "?R = cbc_record (aes_encrypt tls) iv typ d mac"
    by (simp add: cbc_record_def P_def Let_def)
  have written: "xwrite_encrypted_and_hmac_signed env tls n typ
      = Some (xwrite (u\<lparr>outbuf := pre @ ?R @ rest\<rparr>) 3 (5 + (length P + 16)))"
  proof -
    have x3: "(if \<not> ALLOW_RSA_NULL_SHA256 \<or> cipher_id tls \<noteq> TLS_RSA_WITH_NULL_SHA256
        then OUTBUF_PFX - RECHDR_LEN - AES_BLOCK_SIZE else OUTBUF_PFX - RECHDR_LEN) = 3"
      "OUTBUF_PFX - AES_BLOCK_SIZE = 8"
      by (simp_all add: off ALLOW_RSA_NULL_SHA256_def)
    have f: "MAC_size (tls\<lparr>outbuf := b\<rparr>) = MAC_size tls" "TLS_MAC_SIZE env (tls\<lparr>outbuf := b\<rparr>) = m" for b
      by (simp_all add: m_def TLS_MAC_SIZE_def)
    have g: "TLS_MAC_SIZE env (tls\<lparr>outbuf := b, write_seq64_be := w\<rparr>) = m" for b w
      by (simp add: m_def TLS_MAC_SIZE_def)
    have dr: "drop 8 ((pre @ ?h @ iv) @ P @ rest) = iv @ P @ rest" "drop 24 ((pre @ ?h @ iv) @ P @ rest) = P @ rest"
      using l liv h5 by simp_all
    have pbw: "NOT (of_nat n + of_nat m) AND 15 = pb"
      using pad_byte [of "n + m"] by (simp add: pb_def AES_BLOCK_SIZE_def)
    show ?thesis
      unfolding xwrite_encrypted_and_hmac_signed_def x3 t1 Let_def
      using hm parts M2 M3 PL ct M5 t5 dr
      by (simp add: f g off ALLOW_RSA_NULL_SHA256_def pbw iv_def [symmetric] u_def del: of_nat_diff)
  qed
  have "ofd (xwrite (u\<lparr>outbuf := pre @ ?R @ rest\<rparr>) 3 (5 + (length P + 16))) = ofd tls @ ?R"
    unfolding xwrite_def using sent by (simp add: u_def)
  moreover have "SWAP_BE64 (write_seq64_be (xwrite (u\<lparr>outbuf := B\<rparr>) p k)) = SWAP_BE64 (write_seq64_be tls) + 1" for B p k
    by (simp add: xwrite_def u_def bswap64_bswap64 SWAP_BE64_def BB_BIG_ENDIAN_def)
  ultimately show ?thesis
    unfolding written rec unfolding d [symmetric] mac_def [symmetric] iv_def [symmetric] by blast
qed

section \<open>Properties\<close>

text \<open>
  Property C10. What one side sends with \<open>xwrite_encrypted_and_hmac_signed\<close> is the
  GenericBlockCipher record of RFC 5246 with the MAC of RFC 2104, and a side with the same keys
  receives its type and content with \<open>tls_xread_record\<close>, whatever the network makes of the stream
  and whatever follows.
\<close>

theorem tls_cbc_channel:
  assumes "cbc_setup env w n" "typ \<noteq> RECORD_TYPE_ALERT"
    and "xwrite_encrypted_and_hmac_signed env w n typ = Some w'"
    and "inbuf_ok r" "length (stack_block env') = 16" "aes_decrypt r = aes_encrypt w"
    and "flags r AND ENCRYPTION_AESGCM = 0" "TLS_MAC_SIZE env' r = TLS_MAC_SIZE env w"
    and "min_encrypted_len_on_read r = 16 + 16 * ((TLS_MAC_SIZE env' r + 15) div 16)"
    and "pending r = drop (length (ofd w)) (ofd w') @ rest"
  defines "content \<equiv> take n (drop OUTBUF_PFX (outbuf w))"
  shows "ofd w' = ofd w @ cbc_record (aes_encrypt w) (take 16 (urandom env)) typ content
      (sent_mac env w typ content)
    \<and> (\<exists>r'. tls_xread_record env' r = Some (r', int n) \<and> inbuf r' ! 0 = typ
      \<and> take n (drop RECHDR_LEN (inbuf r')) = content \<and> pending r' = rest \<and> inbuf_ok r')"
proof
  let ?mac = "sent_mac env w typ content"
  show o: "ofd w' = ofd w @ cbc_record (aes_encrypt w) (take 16 (urandom env)) typ content ?mac"
    using cbc_record_written [OF assms(1), of "typ"] assms(3) by (simp add: content_def)
  note m = length_sent_mac(1) [OF assms(1), of "typ" content] length_sent_mac(2) [OF assms(1)]
  have n: "length content = n" "n \<le> TLS_MAX_OUTBUF" "length (take 16 (urandom env)) = 16" "aes_ready (aes_encrypt w)"
    using assms(1) by (auto simp: cbc_setup_def content_def)
  have lm: "length ?mac = TLS_MAC_SIZE env' r" using m(1) assms(8) by simp
  have min: "TLS_MAC_SIZE env' r < min_encrypted_len_on_read r"
      "min_encrypted_len_on_read r \<le> length (cbc_pad (content @ ?mac)) + 16"
  proof -
    show "TLS_MAC_SIZE env' r < min_encrypted_len_on_read r"
      using m(2) assms(8,9) by (elim insertE) simp_all
    show "min_encrypted_len_on_read r \<le> length (cbc_pad (content @ ?mac)) + 16"
      using min_len_padded [OF m(2), of "length content"] lm assms(8,9) by (simp add: length_cbc_pad(1))
  qed
  have "pending r = cbc_record (aes_decrypt r) (take 16 (urandom env)) typ content ?mac @ rest"
    using assms(6,10) o by simp
  then show "\<exists>r'. tls_xread_record env' r = Some (r', int n) \<and> inbuf r' ! 0 = typ
      \<and> take n (drop RECHDR_LEN (inbuf r')) = content \<and> pending r' = rest \<and> inbuf_ok r'"
    using tls_cbc_receive [OF assms(4,5) _ assms(7) min(1), of content ?mac "take 16 (urandom env)" "typ" "rest"]
      m assms(2,6) n lm min(2) by auto
qed

definition tls1 :: "bytes \<Rightarrow> read_event list \<Rightarrow> tls_state" where
  "tls1 mem es = (tls0 0 mem [] es)\<lparr>min_encrypted_len_on_read := 48,
     aes_encrypt := aes_setkey \<lparr>aes_key = replicate 60 0, aes_rounds = 0\<rparr> (replicate 16 7) 16,
     aes_decrypt := aes_setkey \<lparr>aes_key = replicate 60 0, aes_rounds = 0\<rparr> (replicate 16 7) 16\<rparr>"

lemma tls_cbc_channel_witness:
  "\<exists>w' r'. xwrite_encrypted_and_hmac_signed env0 (tls1 (replicate 100 0x41) []) 20 23 = Some w'
    \<and> tls_xread_record env0 (tls1 [] [Got (ofd w')]) = Some (r', 20)
    \<and> take 20 (drop RECHDR_LEN (inbuf r')) = replicate 20 0x41"
proof -
  let ?w = "tls1 (replicate 100 0x41) []"
  have "aes_ready (aes_encrypt ?w)"
    using aes_setkey_ready(1) [of "\<lparr>aes_key = replicate 60 0, aes_rounds = 0\<rparr>" "replicate 16 7"] by (simp add: tls1_def)
  then have s: "cbc_setup env0 ?w 20"
    by (simp add: cbc_setup_def tls1_def tls0_def env0_def pre0_def ctx_wf_def ctx0_def OUTBUF_PFX_def
        OUTBUF_SFX_def AES_BLOCK_SIZE_def TLS_MAX_OUTBUF_def)
  obtain w' where w: "xwrite_encrypted_and_hmac_signed env0 ?w 20 23 = Some w'" "ofd w' \<noteq> []"
    using cbc_record_written [OF s, of 23] by (auto simp: cbc_record_def Let_def)
  let ?r = "tls1 [] [Got (ofd w')]"
  have r: "inbuf_ok ?r" "flags ?r AND ENCRYPTION_AESGCM = 0" "aes_decrypt ?r = aes_encrypt ?w"
      "TLS_MAC_SIZE env0 ?r = 32" "TLS_MAC_SIZE env0 ?w = 32" "min_encrypted_len_on_read ?r = 48"
      "pending ?r = drop (length (ofd ?w)) (ofd w') @ []" "length (stack_block env0) = 16"
      "take 20 (drop OUTBUF_PFX (outbuf ?w)) = replicate 20 0x41"
    using w(2) by (simp_all add: tls1_def tls0_def env0_def inbuf_ok_def pending_def TLS_MAC_SIZE_def
        SHA256_OUTSIZE_def OUTBUF_PFX_def AES_BLOCK_SIZE_def)
  have "(23 :: u8) \<noteq> RECORD_TYPE_ALERT" by (simp add: RECORD_TYPE_ALERT_def)
  then obtain r' where "tls_xread_record env0 ?r = Some (r', int 20)"
      "take 20 (drop RECHDR_LEN (inbuf r')) = replicate 20 0x41"
    using tls_cbc_channel [OF s _ w(1) r(1,8,3,2) _ _ r(7)] r(4-6,9) by auto
  then show ?thesis using w(1) by auto
qed

text \<open>
  Property C21. The MAC of a received CBC record is not looked at: whatever its bytes are, the record
  is accepted and its content returned.
\<close>

theorem tls_cbc_mac_not_checked:
  assumes "inbuf_ok tls" "length (stack_block env) = 16" "aes_ready (aes_decrypt tls)"
    and "flags tls AND ENCRYPTION_AESGCM = 0" "TLS_MAC_SIZE env tls < min_encrypted_len_on_read tls"
    and "min_encrypted_len_on_read tls \<le> length (cbc_pad (content @ mac)) + 16"
    and "length content \<le> TLS_MAX_OUTBUF" "length mac = TLS_MAC_SIZE env tls" "length mac \<le> 32"
    and "length iv = 16" "typ \<noteq> RECORD_TYPE_ALERT"
    and "pending tls = cbc_record (aes_decrypt tls) iv typ content mac @ rest"
  shows "\<exists>tls'. tls_xread_record env tls = Some (tls', int (length content))
    \<and> take (length content) (drop RECHDR_LEN (inbuf tls')) = content"
  using tls_cbc_receive [OF assms] by blast

lemma tls_cbc_mac_not_checked_witness:
  "\<exists>tls'. tls_xread_record env0
      (tls1 [] [Got (cbc_record (aes_decrypt (tls1 [] [])) (replicate 16 5) 23 [0x41] (replicate 32 0xFF))]) = Some (tls', 1)
    \<and> take 1 (drop RECHDR_LEN (inbuf tls')) = [0x41]"
proof -
  let ?R = "cbc_record (aes_decrypt (tls1 [] [])) (replicate 16 5) 23 [0x41] (replicate 32 0xFF)"
  let ?t = "tls1 [] [Got ?R]"
  have R: "?R \<noteq> []" by (simp add: cbc_record_def Let_def)
  have "aes_decrypt ?t = aes_decrypt (tls1 [] [])" by (simp add: tls1_def)
  then have p: "pending ?t = cbc_record (aes_decrypt ?t) (replicate 16 5) 23 [0x41] (replicate 32 0xFF) @ []"
    using R by (simp add: pending_def) (simp add: tls1_def tls0_def)
  have "aes_ready (aes_decrypt ?t)"
    using aes_setkey_ready(1) [of "\<lparr>aes_key = replicate 60 0, aes_rounds = 0\<rparr>" "replicate 16 7"] by (simp add: tls1_def)
  moreover have "inbuf_ok ?t" "length (stack_block env0) = 16" "flags ?t AND ENCRYPTION_AESGCM = 0"
      "TLS_MAC_SIZE env0 ?t = 32" "min_encrypted_len_on_read ?t = 48"
    by (simp_all add: tls1_def tls0_def env0_def inbuf_ok_def TLS_MAC_SIZE_def SHA256_OUTSIZE_def)
  ultimately show ?thesis
    using tls_cbc_mac_not_checked [OF _ _ _ _ _ _ _ _ _ _ _ p, of env0]
    by (simp add: length_cbc_pad(1) TLS_MAX_OUTBUF_def RECORD_TYPE_ALERT_def)
qed

end
