(* ===== verification/Fe25519.thy ===== *)
theory Fe25519
  imports Prelude
begin

text \<open>
  The field arithmetic of Curve25519 in \<open>networking/tls_fe.c\<close>. A field element is an array of 32
  bytes, least significant first, that stands for its value modulo \<open>2 ^ 255 - 19\<close>; an operation
  leaves a value below \<open>2 ^ 256\<close>, not a reduced one, and only \<open>fe_normalize\<close> reduces. Where the
  code passes one array as operand and result, each byte is read before it is written, so the
  operations are functions of their operands.
\<close>

section \<open>The operations\<close>

definition F25519_SIZE :: nat where "F25519_SIZE = 32"

definition fe_select :: "bytes \<Rightarrow> bytes \<Rightarrow> u8 \<Rightarrow> bytes" where
  "fe_select zero one condition =
     (let mask = - condition
      in map (\<lambda>i. zero ! i XOR (mask AND (one ! i XOR zero ! i))) [0..<F25519_SIZE])"

text \<open>The loop that adds a carry to an array; with the carry that is left.\<close>

fun carry_loop :: "u32 \<Rightarrow> bytes \<Rightarrow> bytes \<times> u32" where
  "carry_loop c [] = ([], c)"
| "carry_loop c (x # xs) =
     (let c = c + ucast x;
          r = ucast c;
          c = drop_bit 8 c;
          (rs, c) = carry_loop c xs
      in (r # rs, c))"

definition fe_normalize :: "bytes \<Rightarrow> bytes" where
  "fe_normalize x =
     (let c = ucast (drop_bit 7 (x ! 31)) * 19;
          x = x[31 := x ! 31 AND 127];
          (x, c) = carry_loop c x;
          c = 19;
          (minusp, c) = carry_loop c (take (F25519_SIZE - 1) x);
          c = c + (ucast (x ! 31) - 128);
          minusp = minusp @ [ucast c]
      in fe_select minusp x (ucast (drop_bit 15 c AND 1)))"

fun lm_add_loop :: "u32 \<Rightarrow> bytes \<Rightarrow> bytes \<Rightarrow> bytes \<times> u32" where
  "lm_add_loop c (a # as) (b # bs) =
     (let c = drop_bit 8 c;
          c = c + (ucast a + ucast b);
          (rs, c') = lm_add_loop c as bs
      in (ucast c # rs, c'))"
| "lm_add_loop c _ _ = ([], c)"

definition lm_add :: "bytes \<Rightarrow> bytes \<Rightarrow> bytes" where
  "lm_add a b =
     (let c = 0;
          (r, c) = lm_add_loop c a b;
          r = r[31 := r ! 31 AND 127];
          c = drop_bit 7 c * 19
      in fst (carry_loop c r))"

fun lm_sub_loop :: "u32 \<Rightarrow> bytes \<Rightarrow> bytes \<Rightarrow> bytes \<times> u32" where
  "lm_sub_loop c (a # as) (b # bs) =
     (let c = c + (65280 + ucast a - ucast b);
          r = ucast c;
          c = drop_bit 8 c;
          (rs, c) = lm_sub_loop c as bs
      in (r # rs, c))"
| "lm_sub_loop c _ _ = ([], c)"

definition lm_sub :: "bytes \<Rightarrow> bytes \<Rightarrow> bytes" where
  "lm_sub a b =
     (let c = 218;
          (r, c) = lm_sub_loop c (take (F25519_SIZE - 1) a) (take (F25519_SIZE - 1) b);
          c = c + (ucast (a ! 31) - ucast (b ! 31));
          r = r @ [ucast (c AND 127)];
          c = drop_bit 7 c * 19
      in fst (carry_loop c r))"

text \<open>Column \<open>i\<close> of the product; the terms beyond the array come back multiplied by 38.\<close>

definition fe_mul_column :: "bytes \<Rightarrow> bytes \<Rightarrow> nat \<Rightarrow> u32 \<Rightarrow> u32" where
  "fe_mul_column a b i c =
     (let c = foldl (\<lambda>c j. c + ucast (a ! j) * ucast (b ! (i - j))) c [0..<i + 1]
      in foldl (\<lambda>c j. c + ucast (a ! j) * ucast (b ! (i + F25519_SIZE - j)) * 38) c
           [i + 1..<F25519_SIZE])"

definition fe_mul__distinct :: "bytes \<Rightarrow> bytes \<Rightarrow> bytes" where
  "fe_mul__distinct a b =
     (let (r, c) = foldl (\<lambda>(r, c) i.
              let c = fe_mul_column a b i (drop_bit 8 c) in (r @ [ucast c], c))
            ([], 0) [0..<F25519_SIZE];
          r = r[31 := r ! 31 AND 127];
          c = drop_bit 7 c * 19
      in fst (carry_loop c r))"

fun fe_mul_c_loop :: "u32 \<Rightarrow> bytes \<Rightarrow> u32 \<Rightarrow> bytes \<times> u32" where
  "fe_mul_c_loop c [] b = ([], c)"
| "fe_mul_c_loop c (a # as) b =
     (let c = drop_bit 8 c;
          c = c + b * ucast a;
          (rs, c') = fe_mul_c_loop c as b
      in (ucast c # rs, c'))"

definition fe_mul_c :: "bytes \<Rightarrow> u32 \<Rightarrow> bytes" where
  "fe_mul_c a b =
     (let c = 0;
          (r, c) = fe_mul_c_loop c a b;
          r = r[31 := r ! 31 AND 127];
          c = drop_bit 7 c;
          c = c * 19
      in fst (carry_loop c r))"

text \<open>
  The inverse; \<open>fe_inv_loop\<close> is the loop that appends a one to the exponent.
\<close>

fun fe_inv_loop :: "nat \<Rightarrow> bytes \<Rightarrow> bytes \<Rightarrow> bytes" where
  "fe_inv_loop 0 r x = r"
| "fe_inv_loop (Suc n) r x =
     (let s = fe_mul__distinct r r;
          r = fe_mul__distinct s x
      in fe_inv_loop n r x)"

definition fe_inv__distinct :: "bytes \<Rightarrow> bytes" where
  "fe_inv__distinct x =
     (let s = fe_mul__distinct x x;
          r = fe_mul__distinct s x;
          r = fe_inv_loop 248 r x;
          s = fe_mul__distinct r r;
          r = fe_mul__distinct s s;
          s = fe_mul__distinct r x;
          r = fe_mul__distinct s s;
          s = fe_mul__distinct r r;
          r = fe_mul__distinct s x;
          s = fe_mul__distinct r r;
          r = fe_mul__distinct s x
      in r)"

section \<open>Values\<close>

fun le_val :: "bytes \<Rightarrow> nat" where
  "le_val [] = 0"
| "le_val (x # xs) = unat x + 256 * le_val xs"

definition p25519 :: nat where "p25519 = 2 ^ 255 - 19"

lemma le_val_less: "le_val xs < 256 ^ length xs"
proof (induction xs)
  case (Cons x xs)
  have "unat x < 256" using unsigned_less [of x, where 'a = nat] by simp
  then show ?case using Cons by simp
qed simp

lemma le_val_append: "le_val (xs @ ys) = le_val xs + 256 ^ length xs * le_val ys"
  by (induction xs) (simp_all add: algebra_simps)

lemma le_val_sum: "le_val xs = (\<Sum>i<length xs. unat (xs ! i) * 256 ^ i)"
  by (induction xs rule: rev_induct)
    (simp_all add: le_val_append nth_append sum.lessThan_Suc)

lemma two_255: "2 ^ 255 mod p25519 = 19" "2 ^ 256 mod p25519 = 38"
  by (simp_all add: p25519_def)

section \<open>Carries\<close>

lemma unat_drop_8: "unat (drop_bit 8 (c::u32)) = unat c div 256"
  by (subst unat_drop_bit_eq) (simp add: drop_bit_eq_div)

lemma unat_low_8: "unat (ucast (c::u32) :: u8) = unat c mod 256"
  by (simp add: unsigned_ucast_eq take_bit_eq_mod)

lemma unat_byte_32 [simp]: "unat (ucast (x::u8) :: u32) = unat x"
  by (simp add: unat_ucast_up)

lemma unat_byte_less: "unat (x::u8) < 256"
  using unsigned_less [of x, where 'a = nat] by simp

lemma unat_plus_32: "unat (a::u32) + unat b < 2 ^ 32 \<Longrightarrow> unat (a + b) = unat a + unat b"
  by (simp add: unat_plus_if')

lemma carry_loop_val:
  "unat c < 2 ^ 31 \<Longrightarrow>
    le_val (fst (carry_loop c xs)) + 256 ^ length xs * unat (snd (carry_loop c xs)) = le_val xs + unat c
    \<and> length (fst (carry_loop c xs)) = length xs \<and> unat (snd (carry_loop c xs)) < 2 ^ 31"
proof (induction xs arbitrary: c)
  case (Cons x xs)
  let ?c = "c + ucast x :: u32"
  have u: "unat ?c = unat c + unat x"
    using Cons.prems unat_byte_less [of x] by (subst unat_plus_32) simp_all
  have "unat (drop_bit 8 ?c) < 2 ^ 31"
    using u Cons.prems unat_byte_less [of x] unfolding unat_drop_8 by simp
  note IH = Cons.IH [OF this]
  have "unat ?c = unat ?c mod 256 + 256 * unat (drop_bit 8 ?c)"
    unfolding unat_drop_8 by simp
  then show ?case
    using IH u by (simp add: Let_def split_beta unat_low_8 algebra_simps del: drop_bit_eq_div)
qed simp

text \<open>The common shape of the first loops: a column is added to the carry, and a byte is kept.\<close>

fun column_loop :: "u32 \<Rightarrow> u32 list \<Rightarrow> bytes \<times> u32" where
  "column_loop c [] = ([], c)"
| "column_loop c (d # ds) =
     (let c = drop_bit 8 c + d; (rs, c') = column_loop c ds in (ucast c # rs, c'))"

fun cols_val :: "nat list \<Rightarrow> nat" where
  "cols_val [] = 0"
| "cols_val (d # ds) = d + 256 * cols_val ds"

lemma column_loop_val:
  "\<forall>d\<in>set ds. unat d < 2 ^ 31 \<Longrightarrow>
    le_val (fst (column_loop c ds)) + 256 ^ length ds * (unat (snd (column_loop c ds)) div 256)
      = cols_val (map unat ds) + unat c div 256
    \<and> length (fst (column_loop c ds)) = length ds
    \<and> (ds \<noteq> [] \<longrightarrow> last (fst (column_loop c ds)) = ucast (snd (column_loop c ds)))"
proof (induction ds arbitrary: c)
  case (Cons d ds)
  define e where "e = drop_bit 8 c + d"
  have "unat c < 2 ^ 32" using unsigned_less [of c, where 'a = nat] by simp
  then have "unat c div 256 < 2 ^ 24" by (simp add: less_mult_imp_div_less)
  then have u: "unat e = unat c div 256 + unat d"
    using Cons.prems unfolding e_def by (subst unat_plus_32) (simp_all add: unat_drop_8)
  have IH: "le_val (fst (column_loop e ds)) + 256 ^ length ds * (unat (snd (column_loop e ds)) div 256)
      = cols_val (map unat ds) + unat e div 256"
      "length (fst (column_loop e ds)) = length ds"
      "ds \<noteq> [] \<longrightarrow> last (fst (column_loop e ds)) = ucast (snd (column_loop e ds))"
    using Cons.IH [of e] Cons.prems by auto
  have l: "column_loop c (d # ds) = (ucast e # fst (column_loop e ds), snd (column_loop e ds))"
    by (simp add: e_def Let_def split_beta)
  have "unat e mod 256 + 256 * (le_val (fst (column_loop e ds))
      + 256 ^ length ds * (unat (snd (column_loop e ds)) div 256))
      = unat d + 256 * cols_val (map unat ds) + unat c div 256"
    unfolding IH(1) using u by simp
  then have "le_val (fst (column_loop c (d # ds)))
      + 256 ^ length (d # ds) * (unat (snd (column_loop c (d # ds))) div 256)
      = cols_val (map unat (d # ds)) + unat c div 256"
    unfolding l by (simp add: unat_low_8 distrib_left del: column_loop.simps)
  moreover have "last (ucast e # fst (column_loop e ds)) = ucast (snd (column_loop e ds))"
    using IH(2,3) by (cases ds) auto
  ultimately show ?case using IH(2) unfolding l by (simp del: column_loop.simps)
qed simp

lemma unat_and_127: "unat (c AND 127) = unat c mod 128"
proof -
  have "c AND 127 = take_bit 7 c" by (simp add: take_bit_eq_mask mask_eq_exp_minus_1)
  then have "unat (c AND 127) = take_bit 7 (unat c)" by (simp only: unsigned_take_bit_eq)
  then show ?thesis by (simp only: take_bit_eq_mod) simp
qed

text \<open>The weight of the last byte, kept folded in the proofs.\<close>

definition top_weight :: nat where "top_weight = 256 ^ 31"

lemma top_weight: "256 * top_weight = 256 ^ 32" "128 * top_weight = 2 ^ 255" "2 ^ 40 < top_weight"
  by (simp_all add: top_weight_def)

lemma shift_top: "(top_weight * (m + 128 * q)) mod p25519 = (top_weight * m + 19 * q) mod p25519"
proof -
  have "top_weight * (m + 128 * q) = top_weight * m + 2 ^ 255 * q"
    unfolding top_weight(2) [symmetric] distrib_left by simp
  moreover have "(2 ^ 255 * q) mod p25519 = (19 * q) mod p25519"
    using two_255(1) mod_mult_left_eq [of "2 ^ 255" p25519 q] by (metis mod_mult_left_eq)
  ultimately show ?thesis by (metis mod_add_right_eq)
qed

text \<open>The last step of every operation: the bits from 255 up come back multiplied by 19.\<close>

lemma no_carry:
  fixes W :: nat
  assumes "v + 256 * (W * t) = L + W * m + 19 * q" "L < W" "m \<le> 127" "q < 2 ^ 25" "2 ^ 40 < W"
  shows "t = 0"
proof -
  have "W * m \<le> W * 127" using assms(3) by (rule mult_le_mono2)
  moreover have "q < 33554432" "1099511627776 < W" using assms(4,5) by simp_all
  ultimately have "256 * (W * t) < 256 * W" using assms(1,2) by linarith
  then show ?thesis by simp
qed

lemma fe_reduce_val:
  fixes c :: u32
  assumes "length L = 31"
  defines "r \<equiv> fst (carry_loop (drop_bit 7 c * 19) (L @ [ucast (c AND 127)]))"
  shows "length r = 32" "le_val r = le_val L + top_weight * (unat c mod 128) + 19 * (unat c div 128)"
proof -
  define k where "k = drop_bit 7 c * 19"
  define x where "x = (ucast (c AND 127) :: u8)"
  define top where "top = unat (snd (carry_loop k (L @ [x])))"
  have "unat c < 2 ^ 32" using unsigned_less [of c, where 'a = nat] by simp
  then have c: "unat c div 128 < 2 ^ 25" by (simp add: less_mult_imp_div_less)
  have d: "unat (drop_bit 7 c) = unat c div 128"
    by (subst unat_drop_bit_eq) (simp add: drop_bit_eq_div)
  have k: "unat k = 19 * (unat c div 128)"
    using c unfolding k_def by (subst unat_mult_lem [THEN iffD1]) (simp_all add: d)
  have x: "unat x = unat c mod 128" unfolding x_def unat_low_8 unat_and_127 by simp
  have "unat k < 2 ^ 31" using c k by simp
  note cl = carry_loop_val [OF this, of "L @ [x]"]
  have r: "r = fst (carry_loop k (L @ [x]))" by (simp only: r_def k_def x_def)
  show "length r = 32" using cl assms(1) r by simp
  have l: "le_val L < top_weight" using le_val_less [of L] assms(1) by (simp add: top_weight_def)
  have le: "le_val (L @ [x]) = le_val L + top_weight * (unat c mod 128)"
    unfolding le_val_append assms(1) top_weight_def le_val.simps x by simp
  have len: "length (L @ [x]) = 32" using assms(1) by simp
  have v: "le_val r + 256 * (top_weight * top)
      = le_val L + top_weight * (unat c mod 128) + 19 * (unat c div 128)"
    using cl unfolding len r [symmetric] top_def [symmetric] top_weight(1) [symmetric] le k by simp
  have "unat c mod 128 \<le> 127" by simp
  then have "top = 0" using no_carry [OF v l _ c top_weight(3)] by blast
  then show "le_val r = le_val L + top_weight * (unat c mod 128) + 19 * (unat c div 128)"
    using v by simp
qed

lemma fe_reduce:
  fixes c :: u32
  assumes "length L = 31"
  shows "le_val (fst (carry_loop (drop_bit 7 c * 19) (L @ [ucast (c AND 127)]))) mod p25519
    = (le_val L + top_weight * unat c) mod p25519"
  unfolding fe_reduce_val(2) [OF assms]
  using shift_top [of "unat c mod 128" "unat c div 128"]
  by (metis (no_types) add.assoc mod_add_right_eq mod_mult_div_eq)

lemma fe_reduce_less:
  fixes c :: u32
  assumes "length L = 31"
  shows "le_val (fst (carry_loop (drop_bit 7 c * 19) (L @ [ucast (c AND 127)]))) \<le> 2 * p25519"
proof -
  have "unat c < 2 ^ 32" using unsigned_less [of c, where 'a = nat] by simp
  then have "unat c div 128 < 33554432" by (simp add: less_mult_imp_div_less)
  moreover have "top_weight * (unat c mod 128) \<le> top_weight * 127" by (intro mult_le_mono2) simp
  moreover have "le_val L < top_weight" using le_val_less [of L] assms by (simp add: top_weight_def)
  moreover have "p25519 + 19 = 128 * top_weight" "1099511627776 < top_weight"
    by (simp_all add: p25519_def top_weight_def)
  ultimately show ?thesis unfolding fe_reduce_val(2) [OF assms] by linarith
qed

text \<open>What every operation returns: 32 bytes with a value of at most \<open>2 p\<close>.\<close>

definition fe_ok :: "bytes \<Rightarrow> bool" where
  "fe_ok r \<longleftrightarrow> length r = 32 \<and> le_val r \<le> 2 * p25519"

lemma fe_ok_reduce:
  fixes c :: u32
  shows "length L = 31 \<Longrightarrow> fe_ok (fst (carry_loop (drop_bit 7 c * 19) (L @ [ucast (c AND 127)])))"
  using fe_reduce_val(1) fe_reduce_less unfolding fe_ok_def by blast

section \<open>What the operations compute\<close>

lemma length_column_loop [simp]: "length (fst (column_loop c ds)) = length ds"
  by (induction ds arbitrary: c) (simp_all add: Let_def split_beta)

lemma ucast_and_127: "(ucast c :: u8) AND 127 = ucast (c AND 127 :: u32)"
  by (rule bit_word_eqI) (auto simp: bit_simps)

lemma unat_ucast_1 [simp]: "unat (ucast (x::u8) + ucast (y::u8) :: u32) = unat x + unat y"
  using unat_byte_less [of x] unat_byte_less [of y] by (subst unat_plus_32) simp_all

text \<open>The first loop over 32 columns, and the reduction.\<close>

lemma columns_reduce:
  assumes "length ds = 32" "\<forall>d\<in>set ds. unat d < 2 ^ 31"
  defines "r \<equiv> fst (column_loop 0 ds)" and "c \<equiv> snd (column_loop 0 ds)"
  shows "fe_ok (fst (carry_loop (drop_bit 7 c * 19) (r[31 := r ! 31 AND 127])))"
    "le_val (fst (carry_loop (drop_bit 7 c * 19) (r[31 := r ! 31 AND 127]))) mod p25519
      = cols_val (map unat ds) mod p25519"
proof -
  have cl: "le_val r + 256 ^ 32 * (unat c div 256) = cols_val (map unat ds)"
      "length r = 32" "last r = ucast c"
    using column_loop_val [OF assms(2), of 0] assms(1) unfolding r_def c_def by auto
  define L where "L = take 31 r"
  have L: "length L = 31" "r = L @ [ucast c]"
    using cl(2,3) append_butlast_last_id [of r] by (cases "r = []"; auto simp: L_def butlast_conv_take)+
  have r: "r[31 := r ! 31 AND 127] = L @ [ucast (c AND 127)]"
    using L by (simp add: nth_append list_update_append ucast_and_127)
  show "fe_ok (fst (carry_loop (drop_bit 7 c * 19) (r[31 := r ! 31 AND 127])))"
    unfolding r by (rule fe_ok_reduce [OF L(1)])
  have "le_val r = le_val L + top_weight * (unat c mod 256)"
    unfolding L(2) le_val_append L(1) le_val.simps unat_low_8 by (simp add: top_weight_def)
  then have "cols_val (map unat ds) = le_val L + top_weight * (unat c mod 256 + 256 * (unat c div 256))"
    using cl(1) unfolding top_weight(1) [symmetric] distrib_left by simp
  then show "le_val (fst (carry_loop (drop_bit 7 c * 19) (r[31 := r ! 31 AND 127]))) mod p25519
      = cols_val (map unat ds) mod p25519"
    unfolding r fe_reduce [OF L(1)] by simp
qed

lemma cols_val_add: "length as = length bs \<Longrightarrow>
    cols_val (map unat (map2 (\<lambda>a b. ucast a + ucast b :: u32) as bs)) = le_val as + le_val bs"
  by (induction as bs rule: list_induct2) simp_all

lemma lm_add_loop_columns:
  "length as = length bs \<Longrightarrow> lm_add_loop c as bs = column_loop c (map2 (\<lambda>a b. ucast a + ucast b) as bs)"
  by (induction as bs arbitrary: c rule: list_induct2) simp_all

lemma lm_add_val:
  assumes "length a = 32" "length b = 32"
  shows "fe_ok (lm_add a b)" "le_val (lm_add a b) mod p25519 = (le_val a + le_val b) mod p25519"
proof -
  let ?ds = "map2 (\<lambda>a b. ucast a + ucast b :: u32) a b"
  have "unat (ucast x + ucast y :: u32) < 2 ^ 31" for x y :: u8
    using unat_byte_less [of x] unat_byte_less [of y] by simp
  then have "length ?ds = 32" "\<forall>d\<in>set ?ds. unat d < 2 ^ 31"
    using assms by (auto simp: set_zip simp del: unat_ucast_1)
  note columns_reduce [OF this, unfolded cols_val_add [OF assms(1) [folded assms(2)]]]
  then show "fe_ok (lm_add a b)" "le_val (lm_add a b) mod p25519 = (le_val a + le_val b) mod p25519"
    using assms by (simp_all add: lm_add_def lm_add_loop_columns split_beta Let_def)
qed

lemma unat_mult_byte:
  fixes b :: u32 and x :: u8
  assumes "unat b * 256 < 2 ^ 31"
  shows "unat (b * ucast x) = unat b * unat x" "unat b * unat x < 2 ^ 31"
proof -
  have "unat b * unat x \<le> unat b * 256" using unat_byte_less [of x] by (intro mult_le_mono2) simp
  then show l: "unat b * unat x < 2 ^ 31" using assms by (rule le_less_trans)
  then have "unat b * unat (ucast x :: u32) < 2 ^ LENGTH(32)" by simp
  then show "unat (b * ucast x) = unat b * unat x" by (subst unat_mult_lem [THEN iffD1]) simp_all
qed

lemma cols_val_scale: "unat c * 256 < 2 ^ 31 \<Longrightarrow>
    cols_val (map unat (map (\<lambda>a. c * ucast (a::u8) :: u32) as)) = unat c * le_val as"
  by (induction as) (simp_all add: unat_mult_byte distrib_left)

lemma fe_mul_c_loop_columns:
  "fe_mul_c_loop c as b = column_loop c (map (\<lambda>a. b * ucast a) as)"
  by (induction as arbitrary: c) simp_all

lemma fe_mul_c_val:
  assumes "length a = 32" "unat b * 256 < 2 ^ 31"
  shows "fe_ok (fe_mul_c a b)" "le_val (fe_mul_c a b) mod p25519 = (unat b * le_val a) mod p25519"
proof -
  let ?ds = "map (\<lambda>a. b * ucast a :: u32) a"
  have "length ?ds = 32" "\<forall>d\<in>set ?ds. unat d < 2 ^ 31"
    using assms(1) unat_mult_byte [OF assms(2)] by auto
  note columns_reduce [OF this, unfolded cols_val_scale [OF assms(2)]]
  then show "fe_ok (fe_mul_c a b)" "le_val (fe_mul_c a b) mod p25519 = (unat b * le_val a) mod p25519"
    by (simp_all add: fe_mul_c_def fe_mul_c_loop_columns split_beta Let_def)
qed

text \<open>
  Subtraction adds \<open>2 p\<close> to stay positive, which is enough when the subtrahend is at most \<open>2 p\<close>
  more than the minuend.
\<close>

lemma lm_sub_loop_val:
  "length as = length bs \<Longrightarrow> unat c < 512 \<Longrightarrow>
    le_val (fst (lm_sub_loop c as bs)) + 256 ^ length as * unat (snd (lm_sub_loop c as bs))
      + le_val bs + 256 = le_val as + unat c + 256 * 256 ^ length as
    \<and> length (fst (lm_sub_loop c as bs)) = length as \<and> unat (snd (lm_sub_loop c as bs)) < 512"
proof (induction as bs arbitrary: c rule: list_induct2)
  case (Cons a as b bs)
  define e where "e = c + (65280 + ucast a - ucast b)"
  have ab: "unat a < 256" "unat b < 256" using unat_byte_less by auto
  have "unat (65280 + ucast a :: u32) = 65280 + unat a" using ab by (subst unat_plus_32) simp_all
  then have "unat (65280 + ucast a - ucast b :: u32) = 65280 + unat a - unat b"
    using ab by (subst unat_sub) (simp_all add: word_le_nat_alt)
  then have u: "unat e + unat b = unat c + 65280 + unat a"
    using ab Cons.prems unfolding e_def by (subst unat_plus_32) simp_all
  then have "unat e < 2 ^ 17" using ab Cons.prems by simp
  then have "unat (drop_bit 8 e) < 512" unfolding unat_drop_8 by simp
  note IH = Cons.IH [OF this]
  define R where "R = le_val (fst (lm_sub_loop (drop_bit 8 e) as bs))"
  define C where "C = unat (snd (lm_sub_loop (drop_bit 8 e) as bs))"
  have l: "lm_sub_loop c (a # as) (b # bs)
      = (ucast e # fst (lm_sub_loop (drop_bit 8 e) as bs), snd (lm_sub_loop (drop_bit 8 e) as bs))"
    by (simp add: e_def Let_def split_beta)
  have "256 * (R + 256 ^ length as * C + le_val bs + 256)
      = 256 * (le_val as + unat e div 256 + 256 * 256 ^ length as)"
    using IH unfolding R_def C_def unat_drop_8 by simp
  then have "unat e mod 256 + 256 * R + 256 * (256 ^ length as * C) + (unat b + 256 * le_val bs) + 256
      = unat a + 256 * le_val as + unat c + 256 * (256 * 256 ^ length as)"
    using u mod_mult_div_eq [of "unat e" 256] unfolding distrib_left by linarith
  then show ?case
    using IH unfolding l R_def C_def by (simp add: unat_low_8 del: lm_sub_loop.simps)
qed simp

lemma lm_sub_val:
  assumes "length a = 32" "length b = 32" "le_val b \<le> le_val a + 2 * p25519"
  shows "fe_ok (lm_sub a b)" "(le_val (lm_sub a b) + le_val b) mod p25519 = le_val a mod p25519"
proof -
  define L where "L = fst (lm_sub_loop 218 (take 31 a) (take 31 b))"
  define c where "c = snd (lm_sub_loop 218 (take 31 a) (take 31 b))"
  define d where "d = c + (ucast (a ! 31) - ucast (b ! 31))"
  have n: "length (take 31 a) = length (take 31 b)" "length (take 31 a) = 31" using assms by simp_all
  note sl = lm_sub_loop_val [OF n(1), of 218, unfolded n(2), folded L_def c_def top_weight_def]
  have L: "length L = 31" "le_val L + top_weight * unat c + le_val (take 31 b) + 38
      = le_val (take 31 a) + 256 * top_weight" "unat c < 512"
    using sl by simp_all
  have split: "le_val x = le_val (take 31 x) + top_weight * unat (x ! 31)" if "length x = 32" for x
    using that id_take_nth_drop [of 31 x] le_val_append [of "take 31 x" "[x ! 31]"]
    by (simp add: top_weight_def)
  have p2: "2 * p25519 + 38 = 256 * top_weight" by (simp add: p25519_def top_weight_def)
  have e: "le_val L + top_weight * (unat c + unat (a ! 31)) + le_val b + 38
      = le_val a + top_weight * (256 + unat (b ! 31))"
    using L(2) unfolding split [OF assms(1)] split [OF assms(2)] distrib_left by simp
  then have "top_weight * unat (b ! 31) \<le> le_val L + top_weight * (unat c + unat (a ! 31))"
    using assms(3) p2 unfolding distrib_left by linarith
  moreover have Lw: "le_val L < top_weight" using le_val_less [of L] L(1) by (simp add: top_weight_def)
  ultimately have "top_weight * unat (b ! 31) < top_weight * (unat c + unat (a ! 31) + 1)"
    unfolding distrib_left by simp
  then have "unat (b ! 31) < unat c + unat (a ! 31) + 1" unfolding mult_less_cancel1 by blast
  then have le: "unat (b ! 31) \<le> unat c + unat (a ! 31)" by simp
  have "unat (c + ucast (a ! 31)) = unat c + unat (a ! 31)"
    using L(3) unat_byte_less [of "a ! 31"] by (subst unat_plus_32) simp_all
  moreover have "d = c + ucast (a ! 31) - ucast (b ! 31)" by (simp add: d_def)
  ultimately have d: "unat d + unat (b ! 31) = unat c + unat (a ! 31)"
    using le by (simp add: unat_sub word_le_nat_alt)
  have r: "lm_sub a b = fst (carry_loop (drop_bit 7 d * 19) (L @ [ucast (d AND 127)]))"
    by (simp add: lm_sub_def Let_def split_beta L_def d_def c_def F25519_SIZE_def)
  show "fe_ok (lm_sub a b)" unfolding r by (rule fe_ok_reduce [OF L(1)])
  have "(le_val L + top_weight * unat d) + le_val b = le_val a + 2 * p25519"
    using e p2 unfolding d [symmetric] distrib_left by linarith
  then have "((le_val L + top_weight * unat d) + le_val b) mod p25519 = le_val a mod p25519" by simp
  then show "(le_val (lm_sub a b) + le_val b) mod p25519 = le_val a mod p25519"
    unfolding r using fe_reduce [OF L(1), of d] mod_add_cong by metis
qed

text \<open>The product: its columns, and the weight 38 of those beyond the array.\<close>

lemma columns_product:
  fixes A B :: "nat \<Rightarrow> nat"
  shows "(\<Sum>j<n. A j * w ^ j) * (\<Sum>k<n. B k * w ^ k)
    = (\<Sum>i<n. (\<Sum>j<Suc i. A j * B (i - j)) * w ^ i)
      + w ^ n * (\<Sum>i<n. (\<Sum>j=Suc i..<n. A j * B (i + n - j)) * w ^ i)"
proof -
  let ?t = "\<lambda>(j, k). A j * B k * w ^ (j + k)"
  let ?S = "{..<n} \<times> {..<n}"
  have "(\<Sum>j<n. A j * w ^ j) * (\<Sum>k<n. B k * w ^ k) = sum ?t ?S"
    unfolding sum_product sum.cartesian_product by (rule sum.cong) (auto simp: power_add)
  also have "\<dots> = sum ?t (?S \<inter> {(j, k). j + k < n}) + sum ?t (?S - {(j, k). j + k < n})"
    by (intro sum.Int_Diff) simp
  also have "sum ?t (?S \<inter> {(j, k). j + k < n}) = (\<Sum>(i, j)\<in>(SIGMA i:{..<n}. {..<Suc i}). A j * B (i - j) * w ^ i)"
    by (rule sum.reindex_bij_witness [where i = "\<lambda>(i, j). (j, i - j)" and j = "\<lambda>(j, k). (j + k, j)"]) auto
  also have "\<dots> = (\<Sum>i<n. (\<Sum>j<Suc i. A j * B (i - j)) * w ^ i)"
    unfolding sum_distrib_right by (rule sum.Sigma [symmetric]) auto
  also have "sum ?t (?S - {(j, k). j + k < n})
      = (\<Sum>(i, j)\<in>(SIGMA i:{..<n}. {Suc i..<n}). w ^ n * (A j * B (i + n - j) * w ^ i))"
    by (rule sum.reindex_bij_witness [where i = "\<lambda>(i, j). (j, i + n - j)" and j = "\<lambda>(j, k). (j + k - n, j)"])
      (auto simp: power_add [symmetric])
  also have "\<dots> = (\<Sum>i<n. \<Sum>j=Suc i..<n. w ^ n * (A j * B (i + n - j) * w ^ i))"
    by (rule sum.Sigma [symmetric]) auto
  also have "\<dots> = w ^ n * (\<Sum>i<n. (\<Sum>j=Suc i..<n. A j * B (i + n - j)) * w ^ i)"
    unfolding sum_distrib_right sum_distrib_left by simp
  finally show ?thesis .
qed

lemma foldl_plus_sum: "foldl (\<lambda>c j. c + f j) c xs = c + (\<Sum>j\<leftarrow>xs. f j :: u32)"
  by (induction xs arbitrary: c) (simp_all add: add.assoc)

lemma unat_sum_list:
  "(\<forall>x\<in>set xs. unat (f x :: u32) \<le> m) \<Longrightarrow> length xs * m < 2 ^ 32 \<Longrightarrow>
    unat (\<Sum>x\<leftarrow>xs. f x) = (\<Sum>x\<leftarrow>xs. unat (f x)) \<and> (\<Sum>x\<leftarrow>xs. unat (f x)) \<le> length xs * m"
proof (induction xs)
  case (Cons x xs)
  then have "length xs * m < 2 ^ 32" "unat (f x) \<le> m" by simp_all
  with Cons have IH: "unat (\<Sum>x\<leftarrow>xs. f x) = (\<Sum>x\<leftarrow>xs. unat (f x))"
      "(\<Sum>x\<leftarrow>xs. unat (f x)) \<le> length xs * m" by simp_all
  have "unat (f x) + unat (\<Sum>x\<leftarrow>xs. f x) < 2 ^ 32"
    using IH \<open>unat (f x) \<le> m\<close> Cons.prems(2) by simp
  then show ?case using IH \<open>unat (f x) \<le> m\<close> by (simp add: unat_plus_32)
qed simp

lemma cols_val_sum: "cols_val ds = (\<Sum>i<length ds. ds ! i * 256 ^ i)"
proof (induction ds)
  case (Cons d ds)
  show ?case
    unfolding cols_val.simps Cons length_Cons sum.lessThan_Suc_shift by (simp add: sum_distrib_left mult_ac)
qed simp

definition mul_col :: "bytes \<Rightarrow> bytes \<Rightarrow> nat \<Rightarrow> u32" where
  "mul_col a b i = (\<Sum>j\<leftarrow>[0..<i + 1]. ucast (a ! j) * ucast (b ! (i - j)))
     + (\<Sum>j\<leftarrow>[i + 1..<32]. ucast (a ! j) * ucast (b ! (i + 32 - j)) * 38)"

lemma fe_mul_column_plus: "fe_mul_column a b i c = c + mul_col a b i"
  by (simp add: fe_mul_column_def mul_col_def foldl_plus_sum F25519_SIZE_def del: upt_Suc)

lemma unat_byte_product: "unat (ucast (x::u8) * ucast (y::u8) :: u32) = unat x * unat y"
  "unat (ucast (x::u8) * ucast (y::u8) * 38 :: u32) = 38 * (unat x * unat y)" "unat x * unat y \<le> 65025"
proof -
  have "unat x \<le> 255" "unat y \<le> 255" using unat_byte_less [of x] unat_byte_less [of y] by simp_all
  then show l: "unat x * unat y \<le> 65025" using mult_le_mono [of "unat x" 255 "unat y" 255] by simp
  then show e: "unat (ucast x * ucast y :: u32) = unat x * unat y"
    by (subst unat_mult_lem [THEN iffD1]) simp_all
  show "unat (ucast x * ucast y * 38 :: u32) = 38 * (unat x * unat y)"
    using l by (subst unat_mult_lem [THEN iffD1]) (simp_all add: e)
qed

lemma unat_mul_col:
  assumes "i < 32"
  shows "unat (mul_col a b i) = (\<Sum>j<Suc i. unat (a ! j) * unat (b ! (i - j)))
      + 38 * (\<Sum>j=Suc i..<32. unat (a ! j) * unat (b ! (i + 32 - j)))"
    "unat (mul_col a b i) < 2 ^ 31"
proof -
  let ?f = "\<lambda>j. ucast (a ! j) * ucast (b ! (i - j)) :: u32"
  let ?g = "\<lambda>j. ucast (a ! j) * ucast (b ! (i + 32 - j)) * 38 :: u32"
  have f: "\<forall>j\<in>set [0..<i + 1]. unat (?f j) \<le> 65025" using unat_byte_product by simp
  have "38 * (unat (a ! j) * unat (b ! k)) \<le> 2470950" for j k
    using unat_byte_product(3) [of "a ! j" "b ! k"] by simp
  then have g: "\<forall>j\<in>set [i + 1..<32]. unat (?g j) \<le> 2470950" unfolding unat_byte_product by blast
  have F: "unat (sum_list (map ?f [0..<i + 1])) = (\<Sum>j\<leftarrow>[0..<i + 1]. unat (?f j))"
      "(\<Sum>j\<leftarrow>[0..<i + 1]. unat (?f j)) \<le> (i + 1) * 65025"
    using unat_sum_list [OF f] assms by (simp_all del: upt_Suc)
  have G: "unat (sum_list (map ?g [i + 1..<32])) = (\<Sum>j\<leftarrow>[i + 1..<32]. unat (?g j))"
      "(\<Sum>j\<leftarrow>[i + 1..<32]. unat (?g j)) \<le> (31 - i) * 2470950"
    using unat_sum_list [OF g] assms by (simp_all del: upt_Suc)
  have less: "unat (sum_list (map ?f [0..<i + 1])) + unat (sum_list (map ?g [i + 1..<32])) < 2 ^ 31"
  proof -
    have "(i + 1) * 65025 \<le> 32 * 65025" "(31 - i) * 2470950 \<le> 31 * 2470950" using assms by simp_all
    then show ?thesis unfolding F(1) G(1) using F(2) G(2) by simp
  qed
  then have u: "unat (mul_col a b i) = (\<Sum>j\<leftarrow>[0..<i + 1]. unat (?f j)) + (\<Sum>j\<leftarrow>[i + 1..<32]. unat (?g j))"
    unfolding mul_col_def F(1) [symmetric] G(1) [symmetric] by (intro unat_plus_32) simp
  show "unat (mul_col a b i) < 2 ^ 31"
    using less unfolding u F(1) [symmetric] G(1) [symmetric] .
  show "unat (mul_col a b i) = (\<Sum>j<Suc i. unat (a ! j) * unat (b ! (i - j)))
      + 38 * (\<Sum>j=Suc i..<32. unat (a ! j) * unat (b ! (i + 32 - j)))"
    unfolding u unat_byte_product
    by (simp only: interv_sum_list_conv_sum_set_nat sum_distrib_left atLeast0LessThan Suc_eq_plus1)
      (simp add: lessThan_atLeast0)
qed

lemma foldl_columns:
  assumes "\<And>r c i. f (r, c) i = (r @ [ucast (drop_bit 8 c + col i)], drop_bit 8 c + col i)"
  shows "foldl f (r, c) is
    = (r @ fst (column_loop c (map col is)), snd (column_loop c (map col is)))"
proof (induction "is" arbitrary: r c)
  case (Cons i "is")
  show ?case unfolding foldl_Cons assms Cons by (simp add: Let_def split_beta)
qed simp

lemma cols_val_product:
  "cols_val (map (\<lambda>i. (\<Sum>j<Suc i. A j * B (i - j)) + 38 * (\<Sum>j=Suc i..<n. A j * B (i + n - j))) [0..<n])
    = (\<Sum>i<n. (\<Sum>j<Suc i. A j * B (i - j)) * 256 ^ i)
      + 38 * (\<Sum>i<n. (\<Sum>j=Suc i..<n. A j * B (i + n - j)) * 256 ^ i)"
proof -
  define lo where "lo = (\<lambda>i. \<Sum>j<Suc i. A j * B (i - j))"
  define hi where "hi = (\<lambda>i. \<Sum>j=Suc i..<n. A j * B (i + n - j))"
  have "cols_val (map (\<lambda>i. lo i + 38 * hi i) [0..<n]) = (\<Sum>i<n. (lo i + 38 * hi i) * 256 ^ i)"
    unfolding cols_val_sum by (intro sum.cong) simp_all
  also have "\<dots> = (\<Sum>i<n. lo i * 256 ^ i) + 38 * (\<Sum>i<n. hi i * 256 ^ i)"
    by (simp only: distrib_right sum.distrib mult.assoc sum_distrib_left [symmetric])
  finally show ?thesis unfolding lo_def hi_def .
qed

lemma wrap_256: "(X + 256 ^ 32 * Y) mod p25519 = (X + 38 * Y) mod p25519"
proof -
  have "(256 ^ 32 :: nat) mod p25519 = 38 mod p25519" by (simp add: p25519_def)
  then have "(256 ^ 32 * Y) mod p25519 = (38 * Y) mod p25519" by (intro mod_mult_cong) simp_all
  then show ?thesis by (intro mod_add_cong) simp_all
qed

lemma fe_mul_val:
  assumes "length a = 32" "length b = 32"
  shows "fe_ok (fe_mul__distinct a b)"
    "le_val (fe_mul__distinct a b) mod p25519 = (le_val a * le_val b) mod p25519"
proof -
  define ds where "ds = map (mul_col a b) [0..<32]"
  have "length ds = 32" "\<forall>d\<in>set ds. unat d < 2 ^ 31"
    unfolding ds_def set_map length_map using unat_mul_col(2) by (auto simp only: set_upt length_upt atLeastLessThan_iff)
  note cr = columns_reduce [OF this]
  have m: "fe_mul__distinct a b = fst (carry_loop (drop_bit 7 (snd (column_loop 0 ds)) * 19)
      ((fst (column_loop 0 ds))[31 := fst (column_loop 0 ds) ! 31 AND 127]))"
    unfolding fe_mul__distinct_def F25519_SIZE_def ds_def
    by (subst foldl_columns [where col = "mul_col a b"])
      (simp_all only: Let_def prod.case fe_mul_column_plus append_Nil)
  show "fe_ok (fe_mul__distinct a b)" unfolding m by (rule cr(1))
  have "map unat ds = map (\<lambda>i. (\<Sum>j<Suc i. unat (a ! j) * unat (b ! (i - j)))
      + 38 * (\<Sum>j=Suc i..<32. unat (a ! j) * unat (b ! (i + 32 - j)))) [0..<32]"
    unfolding ds_def map_map comp_def by (rule map_cong [OF refl]) (simp only: unat_mul_col(1) set_upt atLeastLessThan_iff)
  then have c: "cols_val (map unat ds)
      = (\<Sum>i<32. (\<Sum>j<Suc i. unat (a ! j) * unat (b ! (i - j))) * 256 ^ i)
      + 38 * (\<Sum>i<32. (\<Sum>j=Suc i..<32. unat (a ! j) * unat (b ! (i + 32 - j))) * 256 ^ i)"
    by (simp only: cols_val_product [of "\<lambda>j. unat (a ! j)" "\<lambda>k. unat (b ! k)" 32])
  have "le_val a * le_val b = (\<Sum>i<32. (\<Sum>j<Suc i. unat (a ! j) * unat (b ! (i - j))) * 256 ^ i)
      + 256 ^ 32 * (\<Sum>i<32. (\<Sum>j=Suc i..<32. unat (a ! j) * unat (b ! (i + 32 - j))) * 256 ^ i)"
    unfolding le_val_sum assms by (rule columns_product)
  then have "(le_val a * le_val b) mod p25519 = cols_val (map unat ds) mod p25519"
    unfolding c by (simp only: wrap_256)
  then show "le_val (fe_mul__distinct a b) mod p25519 = (le_val a * le_val b) mod p25519"
    by (simp only: m cr(2))
qed

lemma fe_select_eq:
  assumes "length zero = 32" "length one = 32"
  shows "fe_select zero one 0 = zero" "fe_select zero one 1 = one"
proof -
  have "map (\<lambda>i. zero ! i) [0..<32] = zero" "map (\<lambda>i. one ! i) [0..<32] = one"
    using assms map_nth [of zero] map_nth [of one] by simp_all
  moreover have "z XOR (- 1 AND (y XOR z)) = y" for y z :: u8
    by (simp add: xor.commute [of z] xor.assoc)
  ultimately show "fe_select zero one 0 = zero" "fe_select zero one 1 = one"
    by (simp_all only: fe_select_def Let_def F25519_SIZE_def) simp_all
qed

lemma unat_byte_and_127: "unat ((h::u8) AND 127) = unat h mod 128"
proof -
  have "h AND 127 = take_bit 7 h" by (simp add: take_bit_eq_mask mask_eq_exp_minus_1)
  then have "unat (h AND 127) = take_bit 7 (unat h)" by (simp only: unsigned_take_bit_eq)
  then show ?thesis by (simp only: take_bit_eq_mod) simp
qed

lemma borrow_bit:
  fixes c :: u32
  shows "unat c < 2 ^ 15 \<Longrightarrow> ucast (drop_bit 15 c AND 1) = (0 :: u8)"
    "2 ^ 32 - 2 ^ 15 \<le> unat c \<Longrightarrow> ucast (drop_bit 15 c AND 1) = (1 :: u8)"
proof -
  have d: "unat (drop_bit 15 c) = unat c div 2 ^ 15" by (subst unat_drop_bit_eq) (simp add: drop_bit_eq_div)
  show "ucast (drop_bit 15 c AND 1) = (0 :: u8)" if "unat c < 2 ^ 15"
  proof -
    have "unat (drop_bit 15 c) = 0" using that unfolding d by simp
    then have "drop_bit 15 c = 0" by (simp only: unat_eq_zero)
    then show ?thesis by (simp only:) simp
  qed
  show "ucast (drop_bit 15 c AND 1) = (1 :: u8)" if "2 ^ 32 - 2 ^ 15 \<le> unat c"
  proof -
    have "unat c < 2 ^ 32" using unsigned_less [of c, where 'a = nat] by simp
    then have "unat c div 2 ^ 15 = 2 ^ 17 - 1" using that by (simp add: div_nat_eqI)
    then have "unat (drop_bit 15 c) = unat (0x1FFFF :: u32)" unfolding d by simp
    then have "drop_bit 15 c = 0x1FFFF" by (rule word_unat_eq_iff [THEN iffD2])
    then show ?thesis by (simp only:) simp
  qed
qed

lemma fe_normalize_val:
  assumes "length x = 32"
  shows "length (fe_normalize x) = 32" "le_val (fe_normalize x) = le_val x mod p25519"
proof -
  define h where "h = x ! 31"
  define L where "L = take 31 x"
  have L: "length L = 31" "x = L @ [h]" using assms id_take_nth_drop [of 31 x] by (simp_all add: L_def h_def)
  have h: "unat h < 256" by (rule unat_byte_less)
  define k where "k = (ucast (drop_bit 7 h) * 19 :: u32)"
  have d: "unat (drop_bit 7 h) = unat h div 128" by (subst unat_drop_bit_eq) (simp add: drop_bit_eq_div)
  then have k: "unat k = 19 * (unat h div 128)"
    using h unfolding k_def by (subst unat_mult_lem [THEN iffD1]) simp_all
  note m = unat_byte_and_127 [of h]
  have Lw: "le_val L < top_weight" using le_val_less [of L] L(1) by (simp add: top_weight_def)
  have "unat k < 2 ^ 31" using k h by simp
  note cl = carry_loop_val [OF this, of "L @ [h AND 127]"]
  define y where "y = fst (carry_loop k (L @ [h AND 127]))"
  have ly: "length y = 32" using cl L(1) by (simp add: y_def)
  define v where "v = le_val L + top_weight * (unat h mod 128) + 19 * (unat h div 128)"
  have len: "length (L @ [h AND 127]) = 32" using L(1) by simp
  have le: "le_val (L @ [h AND 127]) = le_val L + top_weight * (unat h mod 128)"
    unfolding le_val_append L(1) top_weight_def le_val.simps m by simp
  have eq: "le_val y + 256 * (top_weight * unat (snd (carry_loop k (L @ [h AND 127])))) = v"
    using cl unfolding len y_def [symmetric] top_weight(1) [symmetric] le k v_def by simp
  then have "unat (snd (carry_loop k (L @ [h AND 127]))) = 0"
    using no_carry [OF _ Lw _ _ top_weight(3), of "le_val y"] h unfolding v_def by fastforce
  then have y: "le_val y = v" using eq by simp
  have "le_val x = le_val L + top_weight * (unat h mod 128 + 128 * (unat h div 128))"
    unfolding L(2) le_val_append L(1) le_val.simps by (simp add: top_weight_def)
  then have vx: "v mod p25519 = le_val x mod p25519"
    using shift_top [of "unat h mod 128" "unat h div 128"] unfolding v_def
    by (metis (no_types) add.assoc mod_add_right_eq)
  have p: "p25519 + 19 = 128 * top_weight" by (simp add: p25519_def top_weight_def)
  have "top_weight * (unat h mod 128) \<le> top_weight * 127" by (intro mult_le_mono2) simp
  moreover have "unat h div 128 \<le> 1" using h by (simp add: less_mult_imp_div_less less_Suc_eq_le [symmetric])
  ultimately have v: "v < 128 * top_weight + 19" using Lw unfolding v_def by linarith
  define M where "M = take 31 y"
  define t where "t = y ! 31"
  have M: "length M = 31" "y = M @ [t]" using ly id_take_nth_drop [of 31 y] by (simp_all add: M_def t_def)
  have yM: "v = le_val M + top_weight * unat t"
    unfolding y [symmetric] M(2) le_val_append M(1) le_val.simps by (simp add: top_weight_def)
  define m' where "m' = fst (carry_loop 19 M)"
  define c where "c = snd (carry_loop 19 M)"
  have m': "length m' = 31" "le_val m' + top_weight * unat c = le_val M + 19" "unat c < 2 ^ 31"
    using carry_loop_val [of 19 M] M(1) by (simp_all add: m'_def c_def top_weight_def)
  define e where "e = c + (ucast t - 128 :: u32)"
  have r: "fe_normalize x = fe_select (m' @ [ucast e]) y (ucast (drop_bit 15 e AND 1))"
  proof -
    have "x[31 := h AND 127] = L @ [h AND 127]"
      unfolding L(2) using L(1) by (simp add: list_update_append)
    moreover have "x ! 31 = h" "F25519_SIZE - 1 = 31" by (simp_all add: F25519_SIZE_def h_def)
    ultimately show ?thesis
      by (simp only: fe_normalize_def Let_def split_beta k_def y_def M_def t_def m'_def c_def e_def)
  qed
  have mw: "le_val m' < top_weight" using le_val_less [of m'] m'(1) by (simp add: top_weight_def)
  have vm: "v + 19 = le_val m' + top_weight * (unat c + unat t)"
    unfolding yM distrib_left using m'(2) by linarith
  have ct: "unat c + unat t \<le> 128"
  proof (rule ccontr)
    assume "\<not> unat c + unat t \<le> 128"
    then have "top_weight * 129 \<le> top_weight * (unat c + unat t)" by (intro mult_le_mono2) simp
    moreover have "1099511627776 < top_weight" using top_weight(3) by simp
    ultimately show False using vm v by linarith
  qed
  have u: "unat (c + ucast t) = unat c + unat t" using ct by (subst unat_plus_32) simp_all
  have e: "e = (c + ucast t) - 128" by (simp add: e_def)
  have len': "length (m' @ [ucast e]) = 32" using m'(1) by simp
  have "length (fe_normalize x) = 32 \<and> le_val (fe_normalize x) = le_val x mod p25519"
  proof (cases "unat c + unat t = 128")
    case True
    have "unat (c + ucast t) = unat (128 :: u32)" using True u by simp
    then have "c + ucast t = 128" by (rule word_unat_eq_iff [THEN iffD2])
    then have "e = 0" unfolding e by simp
    then have r': "fe_normalize x = m' @ [0]" using fe_select_eq(1) [OF len' ly] unfolding r by simp
    have "v = p25519 + le_val m'" using vm p unfolding True by simp
    moreover have "le_val m' < p25519" using mw p top_weight(3) by simp
    ultimately have "v mod p25519 = le_val m'" by simp
    then show ?thesis using m'(1) unfolding r' vx by (simp add: le_val_append)
  next
    case False
    then have lt: "unat c + unat t < 128" using ct by simp
    have "2 ^ 32 - 2 ^ 15 \<le> unat e"
      unfolding e using lt by (simp add: unat_sub_if' u)
    then have r': "fe_normalize x = y" using fe_select_eq(2) [OF len' ly] borrow_bit(2) unfolding r by simp
    have "top_weight * (unat c + unat t) \<le> top_weight * 127" using lt by (intro mult_le_mono2) simp
    then have "v < p25519" using vm p mw by linarith
    then show ?thesis using ly y vx unfolding r' by simp
  qed
  then show "length (fe_normalize x) = 32" "le_val (fe_normalize x) = le_val x mod p25519" by blast+
qed

text \<open>The exponent of the inverse.\<close>

definition is_power :: "bytes \<Rightarrow> nat \<Rightarrow> bytes \<Rightarrow> bool" where
  "is_power x e r \<longleftrightarrow> length r = 32 \<and> le_val r mod p25519 = le_val x ^ e mod p25519"

lemma is_power_mul:
  assumes "is_power x e r" "is_power x f s"
  shows "is_power x (e + f) (fe_mul__distinct r s)"
proof -
  have "(le_val r * le_val s) mod p25519 = (le_val x ^ e * le_val x ^ f) mod p25519"
    using assms unfolding is_power_def by (intro mod_mult_cong) simp_all
  then show ?thesis using assms fe_mul_val unfolding is_power_def power_add fe_ok_def by simp
qed

lemma is_power_1: "length x = 32 \<Longrightarrow> is_power x 1 x"
  by (simp add: is_power_def)

lemma is_power_inv_loop:
  "is_power x (2 ^ k - 1) r \<Longrightarrow> length x = 32 \<Longrightarrow> is_power x (2 ^ (k + n) - 1) (fe_inv_loop n r x)"
proof (induction n arbitrary: k r)
  case (Suc n)
  have "is_power x (2 ^ k - 1 + (2 ^ k - 1) + 1) (fe_mul__distinct (fe_mul__distinct r r) x)"
    using Suc.prems by (intro is_power_mul is_power_1)
  moreover have "2 ^ k - 1 + (2 ^ k - 1) + 1 = (2::nat) ^ Suc k - 1"
  proof -
    have "1 \<le> (2::nat) ^ k" by simp
    then show ?thesis unfolding power_Suc by linarith
  qed
  ultimately have "is_power x (2 ^ Suc k - 1) (fe_mul__distinct (fe_mul__distinct r r) x)" by simp
  from Suc.IH [OF this Suc.prems(2)] show ?case by (simp add: Let_def)
qed simp

lemma fe_inv_val:
  assumes "length x = 32"
  shows "length (fe_inv__distinct x) = 32"
    "le_val (fe_inv__distinct x) mod p25519 = le_val x ^ (p25519 - 2) mod p25519"
proof -
  note x = is_power_1 [OF assms]
  define r where "r = fe_inv_loop 248 (fe_mul__distinct (fe_mul__distinct x x) x) x"
  have "is_power x (2 ^ 2 - 1) (fe_mul__distinct (fe_mul__distinct x x) x)"
    using is_power_mul [OF is_power_mul [OF x x] x] by (simp add: numeral_3_eq_3)
  from is_power_inv_loop [OF this assms, of 248]
  have r: "is_power x (2 ^ 250 - 1) r" by (simp add: r_def)
  define m :: nat where "m = 2 ^ 250 - 1"
  note r = r [folded m_def]
  note r0 = is_power_mul [OF r r]
  note r01 = is_power_mul [OF is_power_mul [OF r0 r0] x]
  note r010 = is_power_mul [OF r01 r01]
  note r0101 = is_power_mul [OF is_power_mul [OF r010 r010] x]
  note r01011 = is_power_mul [OF is_power_mul [OF r0101 r0101] x]
  have "fe_inv__distinct x = fe_mul__distinct (let s = fe_mul__distinct (let s = fe_mul__distinct (fe_mul__distinct (fe_mul__distinct r r) (fe_mul__distinct r r)) x in fe_mul__distinct s s) (let s = fe_mul__distinct (fe_mul__distinct (fe_mul__distinct r r) (fe_mul__distinct r r)) x in fe_mul__distinct s s) in let r = fe_mul__distinct s x in fe_mul__distinct r r) x"
    unfolding fe_inv__distinct_def Let_def r_def ..
  then have "is_power x (m + m + (m + m) + 1 + (m + m + (m + m) + 1) + (m + m + (m + m) + 1 + (m + m + (m + m) + 1)) + 1 + (m + m + (m + m) + 1 + (m + m + (m + m) + 1) + (m + m + (m + m) + 1 + (m + m + (m + m) + 1)) + 1) + 1) (fe_inv__distinct x)"
    using r01011 unfolding Let_def by simp
  moreover have "m + m + (m + m) + 1 + (m + m + (m + m) + 1) + (m + m + (m + m) + 1 + (m + m + (m + m) + 1)) + 1 + (m + m + (m + m) + 1 + (m + m + (m + m) + 1) + (m + m + (m + m) + 1 + (m + m + (m + m) + 1)) + 1) + 1 = p25519 - 2"
    by (simp add: m_def p25519_def)
  ultimately have "is_power x (p25519 - 2) (fe_inv__distinct x)" by (simp only:)
  then show "length (fe_inv__distinct x) = 32"
      "le_val (fe_inv__distinct x) mod p25519 = le_val x ^ (p25519 - 2) mod p25519"
    unfolding is_power_def by blast+
qed

end
