(* ===== verification/Curve25519.thy ===== *)
theory Curve25519
  imports Fe25519
begin

text \<open>
  Point arithmetic and scalar multiplication of \<open>networking/tls_fe.c\<close> against the formulas of
  RFC 7748, computed on integers modulo \<open>2 ^ 255 - 19\<close>.
\<close>

section \<open>The code\<close>

definition xc_diffadd ::
  "bytes \<Rightarrow> bytes \<Rightarrow> bytes \<Rightarrow> bytes \<Rightarrow> bytes \<Rightarrow> bytes \<Rightarrow> bytes \<times> bytes" where
  "xc_diffadd x1 z1 x2 z2 x3 z3 =
     (let a = lm_add x2 z2;
          b = lm_sub x3 z3;
          da = fe_mul__distinct a b;
          b = lm_sub x2 z2;
          a = lm_add x3 z3;
          cb = fe_mul__distinct a b;
          a = lm_add da cb;
          b = fe_mul__distinct a a;
          x5 = fe_mul__distinct z1 b;
          a = lm_sub da cb;
          b = fe_mul__distinct a a;
          z5 = fe_mul__distinct x1 b
      in (x5, z5))"

definition xc_double :: "bytes \<Rightarrow> bytes \<Rightarrow> bytes \<times> bytes" where
  "xc_double x1 z1 =
     (let x1sq = fe_mul__distinct x1 x1;
          z1sq = fe_mul__distinct z1 z1;
          x1z1 = fe_mul__distinct x1 z1;
          a = lm_sub x1sq z1sq;
          x3 = fe_mul__distinct a a;
          a = fe_mul_c x1z1 486662;
          a = lm_add x1sq a;
          a = lm_add z1sq a;
          x1sq = fe_mul__distinct x1z1 a;
          z3 = fe_mul_c x1sq 4
      in (x3, z3))"

definition f25519_one :: bytes where
  "f25519_one = (replicate F25519_SIZE 0)[0 := 1]"

text \<open>The loop of \<open>curve25519\<close>; the first argument is \<open>i + 1\<close>.\<close>

fun curve25519_loop ::
  "nat \<Rightarrow> bytes \<Rightarrow> bytes \<Rightarrow> bytes \<times> bytes \<times> bytes \<times> bytes \<Rightarrow> bytes \<times> bytes \<times> bytes \<times> bytes" where
  "curve25519_loop 0 e q (xm, zm, xm1, zm1) = (xm, zm, xm1, zm1)"
| "curve25519_loop (Suc i) e q (xm, zm, xm1, zm1) =
     (let b = drop_bit (i mod 8) (e ! (i div 8)) AND 1;
          (xm1, zm1) = xc_diffadd q f25519_one xm zm xm1 zm1;
          (xm, zm) = xc_double xm zm;
          (xms, zms) = xc_diffadd xm1 zm1 xm zm q f25519_one;
          xm1 = fe_select xm1 xm b;
          zm1 = fe_select zm1 zm b;
          xm = fe_select xm xms b;
          zm = fe_select zm zms b
      in curve25519_loop i e q (xm, zm, xm1, zm1))"

definition curve25519 :: "bytes \<Rightarrow> bytes \<Rightarrow> bytes" where
  "curve25519 e q =
     (let zm = (replicate F25519_SIZE 0)[0 := 1];
          xm1 = (replicate F25519_SIZE 0)[0 := 1];
          zm1 = replicate F25519_SIZE 0;
          xm = q;
          (xm, zm, xm1, zm1) = curve25519_loop 254 e q (xm, zm, xm1, zm1);
          zm1 = fe_inv__distinct zm;
          result = fe_mul__distinct zm1 xm
      in fe_normalize result)"

section \<open>Field values\<close>

definition P25519 :: int where "P25519 = 2 ^ 255 - 19"

lemma P25519_nat: "P25519 = int p25519"
  by (simp add: P25519_def p25519_def)

definition fe_val :: "bytes \<Rightarrow> int" where
  "fe_val r = int (le_val r) mod P25519"

lemma fe_val_cong: "le_val r mod p25519 = n mod p25519 \<Longrightarrow> fe_val r = int n mod P25519"
  unfolding fe_val_def P25519_nat by (metis zmod_int)

lemma fe_val_mod [simp]: "fe_val r mod P25519 = fe_val r"
  by (simp add: fe_val_def)

lemma fe_val_add:
  assumes "length a = 32" "length b = 32"
  shows "fe_val (lm_add a b) = (fe_val a + fe_val b) mod P25519"
  using fe_val_cong [OF lm_add_val(2) [OF assms]] by (simp add: fe_val_def mod_simps)

lemma fe_val_mul:
  assumes "length a = 32" "length b = 32"
  shows "fe_val (fe_mul__distinct a b) = (fe_val a * fe_val b) mod P25519"
  using fe_val_cong [OF fe_mul_val(2) [OF assms]] by (simp add: fe_val_def mod_simps)

lemma fe_val_mul_c:
  assumes "length a = 32" "unat b * 256 < 2 ^ 31"
  shows "fe_val (fe_mul_c a b) = (uint b * fe_val a) mod P25519"
  using fe_val_cong [OF fe_mul_c_val(2) [OF assms]] by (simp add: fe_val_def mod_simps)

lemma fe_val_sub:
  assumes "length a = 32" "fe_ok b"
  shows "fe_val (lm_sub a b) = (fe_val a - fe_val b) mod P25519"
proof -
  have "(le_val (lm_sub a b) + le_val b) mod p25519 = le_val a mod p25519"
    using assms by (intro lm_sub_val(2)) (auto simp: fe_ok_def)
  then have "(int (le_val (lm_sub a b)) + int (le_val b)) mod P25519 = int (le_val a) mod P25519"
    unfolding P25519_nat by (metis of_nat_add zmod_int)
  then have "(int (le_val (lm_sub a b)) + int (le_val b) - int (le_val b)) mod P25519
      = (int (le_val a) - int (le_val b)) mod P25519"
    by (rule mod_diff_cong) simp
  then show ?thesis by (simp add: fe_val_def mod_simps)
qed

lemma fe_ok_ops:
  "length a = 32 \<Longrightarrow> length b = 32 \<Longrightarrow> fe_ok (lm_add a b)"
  "length a = 32 \<Longrightarrow> fe_ok b \<Longrightarrow> fe_ok (lm_sub a b)"
  "length a = 32 \<Longrightarrow> length b = 32 \<Longrightarrow> fe_ok (fe_mul__distinct a b)"
  "length a = 32 \<Longrightarrow> unat c * 256 < 2 ^ 31 \<Longrightarrow> fe_ok (fe_mul_c a c)"
  using lm_add_val(1) lm_sub_val(1) fe_mul_val(1) fe_mul_c_val(1) by (auto simp: fe_ok_def)

lemma fe_ok_length: "fe_ok r \<Longrightarrow> length r = 32"
  by (simp add: fe_ok_def)

lemmas fe_lengths = fe_ok_ops [THEN fe_ok_length]

section \<open>RFC 7748\<close>

text \<open>
  The steps of the Montgomery ladder of RFC 7748, section 5, on projective coordinates. The
  difference of the points added may be projective as well.
\<close>

type_synonym point = "int \<times> int"

definition rfc_double :: "point \<Rightarrow> point" where
  "rfc_double = (\<lambda>(x, z).
     let A = x + z; AA = A ^ 2; B = x - z; BB = B ^ 2; E = AA - BB
     in ((AA * BB) mod P25519, (E * (AA + 121665 * E)) mod P25519))"

definition rfc_add :: "point \<Rightarrow> point \<Rightarrow> point \<Rightarrow> point" where
  "rfc_add = (\<lambda>(x1, z1) (x2, z2) (x3, z3).
     let A = x2 + z2; B = x2 - z2; C = x3 + z3; D = x3 - z3; DA = D * A; CB = C * B
     in ((z1 * (DA + CB) ^ 2) mod P25519, (x1 * (DA - CB) ^ 2) mod P25519))"

definition fe_point :: "bytes \<times> bytes \<Rightarrow> point" where
  "fe_point = (\<lambda>(x, z). (fe_val x, fe_val z))"

lemma xc_diffadd_rfc:
  assumes "length x1 = 32" "length z1 = 32" "length x2 = 32" "fe_ok z2" "length x3 = 32" "fe_ok z3"
  shows "fe_point (xc_diffadd x1 z1 x2 z2 x3 z3) = rfc_add (fe_point (x1, z1)) (fe_point (x2, z2)) (fe_point (x3, z3))"
    "fe_ok (fst (xc_diffadd x1 z1 x2 z2 x3 z3))" "fe_ok (snd (xc_diffadd x1 z1 x2 z2 x3 z3))"
proof -
  note l = assms fe_ok_length [OF assms(4)] fe_ok_length [OF assms(6)]
  show "fe_point (xc_diffadd x1 z1 x2 z2 x3 z3) = rfc_add (fe_point (x1, z1)) (fe_point (x2, z2)) (fe_point (x3, z3))"
    by (simp add: xc_diffadd_def rfc_add_def fe_point_def Let_def fe_val_mul fe_val_add fe_val_sub
        fe_lengths fe_ok_ops l mod_simps power2_eq_square mult.commute [of "fe_val x2 + fe_val z2"])
  show "fe_ok (fst (xc_diffadd x1 z1 x2 z2 x3 z3))" "fe_ok (snd (xc_diffadd x1 z1 x2 z2 x3 z3))"
    by (simp_all add: xc_diffadd_def Let_def fe_lengths fe_ok_ops l)
qed

lemma xc_double_rfc:
  assumes "length x = 32" "length z = 32"
  shows "fe_point (xc_double x z) = rfc_double (fe_point (x, z))"
    "fe_ok (fst (xc_double x z))" "fe_ok (snd (xc_double x z))"
proof -
  have c: "unat (486662 :: u32) * 256 < 2 ^ 31" "unat (4 :: u32) * 256 < 2 ^ 31" by simp_all
  show "fe_ok (fst (xc_double x z))" "fe_ok (snd (xc_double x z))"
    using c by (simp_all add: xc_double_def Let_def fe_lengths fe_ok_ops assms)
  define X where "X = fe_val x"
  define Z where "Z = fe_val z"
  have "fe_val (fst (xc_double x z)) = ((X * X - Z * Z) * (X * X - Z * Z)) mod P25519"
    using c by (simp add: xc_double_def Let_def fe_val_mul fe_val_add fe_val_sub fe_val_mul_c
        fe_lengths fe_ok_ops assms mod_simps X_def Z_def)
  moreover have "fe_val (snd (xc_double x z))
      = (4 * ((X * Z) * (Z * Z + (X * X + 486662 * (X * Z))))) mod P25519"
    using c by (simp add: xc_double_def Let_def fe_val_mul fe_val_add fe_val_sub fe_val_mul_c
        fe_lengths fe_ok_ops assms mod_simps X_def Z_def)
  moreover have "(X * X - Z * Z) * (X * X - Z * Z) = (X + Z) ^ 2 * (X - Z) ^ 2"
    "4 * ((X * Z) * (Z * Z + (X * X + 486662 * (X * Z))))
      = ((X + Z) ^ 2 - (X - Z) ^ 2) * ((X + Z) ^ 2 + 121665 * ((X + Z) ^ 2 - (X - Z) ^ 2))"
    by (simp_all add: power2_eq_square algebra_simps)
  ultimately show "fe_point (xc_double x z) = rfc_double (fe_point (x, z))"
    by (simp add: fe_point_def rfc_double_def split_beta Let_def X_def Z_def)
qed

section \<open>The ladder\<close>

text \<open>
  The ladder of the code on points: it keeps a multiple and its predecessor and consumes a scalar
  bit by bit, starting at the multiple one.
\<close>

fun ladder :: "nat \<Rightarrow> nat \<Rightarrow> point \<Rightarrow> point \<times> point \<Rightarrow> point \<times> point" where
  "ladder 0 n P1 (Pm, Pm1) = (Pm, Pm1)"
| "ladder (Suc i) n P1 (Pm, Pm1) =
     (let Q = rfc_add P1 Pm Pm1; D = rfc_double Pm
      in ladder i n P1 (if bit n i then (rfc_add Q D P1, D) else (D, Q)))"

definition x25519 :: "nat \<Rightarrow> int \<Rightarrow> int" where
  "x25519 n u = (let (X, Z) = fst (ladder 254 n (u, 1) ((u, 1), (1, 0)))
     in (X * Z ^ (p25519 - 2)) mod P25519)"

lemma bit_le_val:
  "i < 8 * length e \<Longrightarrow> bit (le_val e) i = bit (e ! (i div 8)) (i mod 8)"
proof (induction e arbitrary: i)
  case (Cons x e)
  have less: "unat x < 2 ^ 8" using unat_byte_less [of x] by simp
  have v: "le_val (x # e) = unat x + 2 ^ 8 * le_val e" by simp
  show ?case
  proof (cases "i < 8")
    case True
    then have "bit (le_val (x # e)) i = bit (take_bit 8 (le_val (x # e))) i"
      by (simp only: bit_take_bit_iff simp_thms)
    also have "take_bit 8 (le_val (x # e)) = unat x"
      unfolding v take_bit_eq_mod using less by simp
    finally show ?thesis using True by (simp add: bit_unsigned_iff)
  next
    case False
    then have "bit (le_val (x # e)) i = bit (drop_bit 8 (le_val (x # e))) (i - 8)"
      by (simp only: bit_drop_bit_eq comp_def) simp
    also have "drop_bit 8 (le_val (x # e)) = le_val e"
      unfolding v drop_bit_eq_div using less by simp
    also have "bit (le_val e) (i - 8) = bit (e ! ((i - 8) div 8)) ((i - 8) mod 8)"
      using Cons False by (intro Cons.IH) simp
    finally have "bit (le_val (x # e)) i = bit (e ! ((i - 8) div 8)) ((i - 8) mod 8)" .
    moreover have "(i - 8) div 8 = i div 8 - 1" "(i - 8) mod 8 = i mod 8"
      using False by (simp_all add: div_if mod_if)
    ultimately show ?thesis using False by (simp add: nth_Cons' div_eq_0_iff)
  qed
qed simp

lemma scalar_bit: "drop_bit k (b :: u8) AND 1 = of_bool (bit b k)"
  by (simp add: and_one_eq bit_iff_odd_drop_bit mod2_eq_if)

lemma f25519_one: "length f25519_one = 32" "fe_ok f25519_one" "fe_val f25519_one = 1"
proof -
  have "replicate 32 (0 :: u8) = 0 # replicate 31 0" using replicate_Suc [of 31 "0 :: u8"] by simp
  then have one: "f25519_one = 1 # replicate 31 0" by (simp only: f25519_one_def F25519_SIZE_def) simp
  have z: "le_val (replicate n 0) = 0" for n by (induction n) simp_all
  show "length f25519_one = 32" "fe_ok f25519_one" "fe_val f25519_one = 1"
    unfolding one by (simp_all add: fe_ok_def fe_val_def P25519_def p25519_def z)
qed

text \<open>The arrays of the loop, and the points they stand for.\<close>

definition arrays_hold :: "bytes \<times> bytes \<times> bytes \<times> bytes \<Rightarrow> point \<times> point \<Rightarrow> bool" where
  "arrays_hold = (\<lambda>(xm, zm, xm1, zm1) (Pm, Pm1). length xm = 32 \<and> fe_ok zm \<and> length xm1 = 32 \<and> fe_ok zm1
     \<and> fe_point (xm, zm) = Pm \<and> fe_point (xm1, zm1) = Pm1)"

lemma curve25519_loop_ladder:
  assumes "length e = 32" "length q = 32"
  shows "i \<le> 256 \<Longrightarrow> arrays_hold s p \<Longrightarrow>
    arrays_hold (curve25519_loop i e q s) (ladder i (le_val e) (fe_val q, 1) p)"
proof (induction i arbitrary: s p)
  case 0
  then show ?case by (cases s; cases p) simp
next
  case (Suc i)
  obtain xm zm xm1 zm1 where s: "s = (xm, zm, xm1, zm1)" by (cases s)
  obtain Pm Pm1 where p: "p = (Pm, Pm1)" by (cases p)
  have r: "length xm = 32" "fe_ok zm" "length xm1 = 32" "fe_ok zm1"
      "fe_point (xm, zm) = Pm" "fe_point (xm1, zm1) = Pm1"
    using Suc.prems(2) by (simp_all add: s p arrays_hold_def)
  have P1: "fe_point (q, f25519_one) = (fe_val q, 1)" by (simp add: fe_point_def f25519_one)
  obtain xq zq where Q: "xc_diffadd q f25519_one xm zm xm1 zm1 = (xq, zq)" by fastforce
  obtain xd zd where D: "xc_double xm zm = (xd, zd)" by fastforce
  obtain xs zs where S: "xc_diffadd xq zq xd zd q f25519_one = (xs, zs)" by fastforce
  note q = xc_diffadd_rfc [OF assms(2) f25519_one(1) r(1,2,3,4), unfolded Q P1 r(5,6), simplified]
  note d = xc_double_rfc [OF r(1) fe_ok_length [OF r(2)], unfolded D r(5), simplified]
  note t = xc_diffadd_rfc [OF fe_ok_length [OF q(2)] fe_ok_length [OF q(3)] fe_ok_length [OF d(2)] d(3)
      assms(2) f25519_one(2), unfolded S P1 q(1) d(1), simplified]
  have "bit (le_val e) i = bit (e ! (i div 8)) (i mod 8)"
    using bit_le_val [of i e] Suc.prems(1) assms(1) by simp
  then have b: "drop_bit (i mod 8) (e ! (i div 8)) AND 1 = of_bool (bit (le_val e) i)"
    by (simp only: scalar_bit)
  note l = fe_ok_length [OF q(2)] fe_ok_length [OF q(3)] fe_ok_length [OF d(2)] fe_ok_length [OF d(3)]
    fe_ok_length [OF t(2)] fe_ok_length [OF t(3)]
  show ?case
  proof (cases "bit (le_val e) i")
    case True
    have "curve25519_loop (Suc i) e q s = curve25519_loop i e q (xs, zs, xd, zd)"
      by (simp only: s curve25519_loop.simps b Let_def Q D S prod.case True of_bool_eq fe_select_eq l)
    moreover have "arrays_hold (xs, zs, xd, zd) (rfc_add (rfc_add (fe_val q, 1) Pm Pm1) (rfc_double Pm) (fe_val q, 1), rfc_double Pm)"
      using q d t l by (simp add: arrays_hold_def)
    ultimately show ?thesis using Suc.IH Suc.prems(1) True by (simp add: p Let_def)
  next
    case False
    have "curve25519_loop (Suc i) e q s = curve25519_loop i e q (xd, zd, xq, zq)"
      by (simp only: s curve25519_loop.simps b Let_def Q D S prod.case False of_bool_eq fe_select_eq l)
    moreover have "arrays_hold (xd, zd, xq, zq) (rfc_double Pm, rfc_add (fe_val q, 1) Pm Pm1)"
      using q d l by (simp add: arrays_hold_def)
    ultimately show ?thesis using Suc.IH Suc.prems(1) False by (simp add: p Let_def)
  qed
qed

lemma curve25519_x25519:
  assumes "length e = 32" "length q = 32"
  shows "length (curve25519 e q) = 32" "int (le_val (curve25519 e q)) = x25519 (le_val e) (fe_val q)"
proof -
  let ?s = "(q, f25519_one, f25519_one, replicate F25519_SIZE 0)"
  have z: "le_val (replicate n 0) = 0" for n by (induction n) simp_all
  have "fe_ok (replicate F25519_SIZE 0)" "fe_val (replicate F25519_SIZE 0) = 0"
    by (simp_all add: fe_ok_def fe_val_def z F25519_SIZE_def)
  then have "arrays_hold ?s ((fe_val q, 1), (1, 0))"
    using f25519_one assms(2) by (simp add: arrays_hold_def fe_point_def)
  note rel = curve25519_loop_ladder [OF assms _ this, of 254]
  obtain xm zm xm1 zm1 where s: "curve25519_loop 254 e q ?s = (xm, zm, xm1, zm1)" by (rule prod_cases4)
  obtain X Z R where p: "ladder 254 (le_val e) (fe_val q, 1) ((fe_val q, 1), (1, 0)) = ((X, Z), R)"
    by (metis surj_pair)
  have r: "length xm = 32" "fe_ok zm" "fe_val xm = X" "fe_val zm = Z"
    using rel unfolding s p by (simp_all add: arrays_hold_def fe_point_def)
  define res where "res = fe_mul__distinct (fe_inv__distinct zm) xm"
  note inv = fe_inv_val [OF fe_ok_length [OF r(2)]]
  have c: "curve25519 e q = fe_normalize res"
    unfolding curve25519_def Let_def f25519_one_def [symmetric] s by (simp add: res_def)
  have len: "length res = 32" using fe_ok_ops(3) [OF inv(1) r(1)] by (simp add: res_def fe_ok_def)
  show "length (curve25519 e q) = 32" unfolding c by (rule fe_normalize_val(1) [OF len])
  have "fe_val (fe_inv__distinct zm) = Z ^ (p25519 - 2) mod P25519"
    using fe_val_cong [OF inv(2)] by (simp add: fe_val_def flip: r(4)) (simp add: mod_simps)
  then have "fe_val res = (X * Z ^ (p25519 - 2)) mod P25519"
    using fe_val_mul [OF inv(1) r(1)] r(3) by (simp add: res_def mod_simps mult.commute)
  moreover have "int (le_val (curve25519 e q)) = fe_val res"
    unfolding c fe_normalize_val(2) [OF len] fe_val_def P25519_nat by (simp add: zmod_int)
  ultimately show "int (le_val (curve25519 e q)) = x25519 (le_val e) (fe_val q)"
    by (simp add: x25519_def p)
qed

lemma le_val_inject:
  "length xs = length ys \<Longrightarrow> le_val xs = le_val ys \<longleftrightarrow> xs = ys"
proof (induction xs ys rule: list_induct2)
  case (Cons x xs y ys)
  have "unat x < 256" "unat y < 256" by (rule unat_byte_less)+
  then have "le_val (x # xs) = le_val (y # ys) \<longleftrightarrow> unat x = unat y \<and> le_val xs = le_val ys"
    unfolding le_val.simps by (metis add_cancel_right_left mod_less mod_mult_self2 mult_left_cancel add_left_cancel zero_neq_numeral)
  then show ?case using Cons.IH by (simp add: word_unat_eq_iff)
qed simp

text \<open>The multiple a ladder ends with, given what the formulas mean on the curve.\<close>

lemma ladder_multiple:
  fixes rep :: "nat \<Rightarrow> point \<Rightarrow> bool" and n :: nat
  assumes "\<And>i P. i < k \<Longrightarrow> rep (n div 2 ^ Suc i) P \<Longrightarrow> rep (2 * (n div 2 ^ Suc i)) (rfc_double P)"
    and "\<And>i P Q. i < k \<Longrightarrow> rep (n div 2 ^ Suc i) P \<Longrightarrow> rep (n div 2 ^ Suc i - 1) Q \<Longrightarrow>
      rep (2 * (n div 2 ^ Suc i) - 1) (rfc_add P1 P Q)"
    and "\<And>i P Q. i < k \<Longrightarrow> bit n i \<Longrightarrow> rep (2 * (n div 2 ^ Suc i)) P \<Longrightarrow>
      rep (2 * (n div 2 ^ Suc i) - 1) Q \<Longrightarrow> rep (2 * (n div 2 ^ Suc i) + 1) (rfc_add Q P P1)"
  shows "i \<le> k \<Longrightarrow> \<forall>j<k. bit e j = bit n j \<Longrightarrow> rep (n div 2 ^ i) Pm \<Longrightarrow> rep (n div 2 ^ i - 1) Pm1 \<Longrightarrow>
    rep n (fst (ladder i e P1 (Pm, Pm1)))"
proof (induction i arbitrary: Pm Pm1)
  case (Suc i)
  define m where "m = n div 2 ^ Suc i"
  have i: "i < k" using Suc.prems(1) by simp
  note laws = assms [OF i, folded m_def]
  have b: "bit e i = bit n i" using Suc.prems(2) i by simp
  have nxt: "n div 2 ^ i = 2 * m + of_bool (bit n i)"
  proof -
    have "n div 2 ^ i = 2 * (n div 2 ^ i div 2) + n div 2 ^ i mod 2" by simp
    also have "n div 2 ^ i div 2 = m" by (simp add: m_def div_mult2_eq [symmetric] mult.commute)
    also have "n div 2 ^ i mod 2 = of_bool (bit n i)" by (simp add: bit_iff_odd mod2_eq_if)
    finally show ?thesis .
  qed
  have r: "rep m Pm" "rep (m - 1) Pm1" using Suc.prems(3,4) by (simp_all only: m_def)
  note D = laws(1) [OF r(1)] and Q = laws(2) [OF r]
  show ?case
  proof (cases "bit n i")
    case True
    show ?thesis
      using Suc.IH [OF _ Suc.prems(2), of "rfc_add (rfc_add P1 Pm Pm1) (rfc_double Pm) P1" "rfc_double Pm"]
        laws(3) [OF True D Q] D i by (simp add: Let_def b True nxt)
  next
    case False
    show ?thesis
      using Suc.IH [OF _ Suc.prems(2), of "rfc_double Pm" "rfc_add P1 Pm Pm1"] D Q i
      by (simp add: Let_def b False nxt)
  qed
qed simp

section \<open>Properties\<close>

text \<open>
  Property C12. \<open>curve25519\<close> returns the 32 bytes of the reduced field element that the Montgomery
  ladder with the formulas of RFC 7748 gives for its scalar and its coordinate: the carries, the
  incomplete reductions and the subtractions of the byte arithmetic never lose a bit.
\<close>

theorem curve25519_ladder:
  assumes "length e = 32" "length q = 32"
  shows "length (curve25519 e q) = 32 \<and>
    int (le_val (curve25519 e q)) = x25519 (le_val e) (int (le_val q) mod P25519)"
  using curve25519_x25519 [OF assms] by (simp add: fe_val_def)

lemma curve25519_ladder_witness:
  "int (le_val (curve25519 (replicate 32 0x5A) (9 # replicate 31 0))) =
     x25519 (le_val (replicate 32 0x5A)) (int (le_val (9 # replicate 31 0)) mod P25519)"
  by (rule curve25519_ladder [THEN conjunct2]) simp_all

text \<open>
  Property C13. Wherever the formulas for doubling and differential addition are right for the
  multiples of a point that the bits of the scalar lead through, \<open>curve25519\<close> returns the
  affine coordinate of the multiple by the scalar with bit 254 set and bit 255 cleared.
\<close>

theorem curve25519_multiple:
  fixes rep :: "nat \<Rightarrow> point \<Rightarrow> bool"
  assumes "length e = 32" "length q = 32" "n = 2 ^ 254 + le_val e mod 2 ^ 254"
    and "rep 0 (1, 0)" "rep 1 (int (le_val q) mod P25519, 1)"
    and "\<And>i P. i < 254 \<Longrightarrow> rep (n div 2 ^ Suc i) P \<Longrightarrow> rep (2 * (n div 2 ^ Suc i)) (rfc_double P)"
    and "\<And>i P Q. i < 254 \<Longrightarrow> rep (n div 2 ^ Suc i) P \<Longrightarrow> rep (n div 2 ^ Suc i - 1) Q \<Longrightarrow>
      rep (2 * (n div 2 ^ Suc i) - 1) (rfc_add (int (le_val q) mod P25519, 1) P Q)"
    and "\<And>i P Q. i < 254 \<Longrightarrow> bit n i \<Longrightarrow> rep (2 * (n div 2 ^ Suc i)) P \<Longrightarrow>
      rep (2 * (n div 2 ^ Suc i) - 1) Q \<Longrightarrow>
      rep (2 * (n div 2 ^ Suc i) + 1) (rfc_add Q P (int (le_val q) mod P25519, 1))"
  shows "\<exists>X Z. rep n (X, Z) \<and> int (le_val (curve25519 e q)) = (X * Z ^ (p25519 - 2)) mod P25519"
proof -
  let ?u = "int (le_val q) mod P25519"
  have "bit (le_val e) j = bit n j" if "j < 254" for j
  proof -
    have "bit n j = bit (take_bit 254 n) j" using that by (simp only: bit_take_bit_iff simp_thms)
    also have "take_bit 254 n = take_bit 254 (le_val e)" unfolding assms(3) take_bit_eq_mod by simp
    finally show ?thesis using that by (simp only: bit_take_bit_iff simp_thms)
  qed
  moreover have "n div 2 ^ 254 = 1" unfolding assms(3) by simp
  ultimately have "rep n (fst (ladder 254 (le_val e) (?u, 1) ((?u, 1), (1, 0))))"
    using ladder_multiple [of 254 rep n "(?u, 1)" 254 "le_val e" "(?u, 1)" "(1, 0)", OF assms(6-8)]
      assms(4,5) by simp
  then show ?thesis
    using curve25519_x25519(2) [OF assms(1,2)]
    by (cases "fst (ladder 254 (le_val e) (?u, 1) ((?u, 1), (1, 0)))") (auto simp: x25519_def fe_val_def)
qed

text \<open>
  Property C40. The top bit of the coordinate received is not masked, as RFC 7748 demands, but
  counts: it adds nineteen to the coordinate.
\<close>

theorem curve25519_top_bit:
  assumes "length e = 32" "length q = 32" "bit (q ! 31) 7" "length q' = 32"
    and "le_val q' = le_val (q[31 := q ! 31 AND 127]) + 19"
  shows "curve25519 e q = curve25519 e q'"
proof -
  define L where "L = take 31 q"
  have L: "length L = 31" "q = L @ [q ! 31]" using assms(2) id_take_nth_drop [of 31 q] by (simp_all add: L_def)
  have "bit (unat (q ! 31)) 7" using assms(3) by (simp add: bit_unsigned_iff)
  then have "odd (unat (q ! 31) div 128)" by (simp add: bit_iff_odd)
  moreover have "unat (q ! 31) div 128 < 2" using unat_byte_less [of "q ! 31"] by (simp add: less_mult_imp_div_less)
  ultimately have "unat (q ! 31) div 128 = 1" by (metis One_nat_def even_zero less_2_cases)
  then have h: "unat (q ! 31) = unat (q ! 31 AND 127) + 128"
    unfolding unat_byte_and_127 using mod_mult_div_eq [of "unat (q ! 31)" 128] by simp
  have "le_val q = le_val L + top_weight * unat (q ! 31)"
    by (subst L(2)) (simp add: le_val_append L(1) top_weight_def)
  moreover have "q[31 := q ! 31 AND 127] = L @ [q ! 31 AND 127]"
    by (subst L(2)) (simp add: list_update_append L(1))
  then have "le_val (q[31 := q ! 31 AND 127]) = le_val L + top_weight * unat (q ! 31 AND 127)"
    by (simp add: le_val_append L(1) top_weight_def)
  ultimately have "le_val q = le_val (q[31 := q ! 31 AND 127]) + 2 ^ 255"
    unfolding h top_weight(2) [symmetric] distrib_left by (simp only: mult.commute add.assoc)
  then have "le_val q mod p25519 = le_val q' mod p25519"
    unfolding assms(5) using mod_add_right_eq [of "le_val (q[31 := q ! 31 AND 127])" "2 ^ 255" p25519]
    unfolding two_255 by simp
  then have "int (le_val (curve25519 e q)) = int (le_val (curve25519 e q'))"
    using curve25519_x25519(2) assms(1,2,4) fe_val_cong [of q "le_val q'"]
    by (simp add: fe_val_def)
  then show ?thesis
    using curve25519_x25519(1) assms(1,2,4) le_val_inject [of "curve25519 e q" "curve25519 e q'"] by simp
qed

lemma curve25519_top_bit_witness:
  "curve25519 (replicate 32 1) ((replicate 32 0)[31 := 0x80]) = curve25519 (replicate 32 1) (19 # replicate 31 0)"
proof -
  have z: "le_val (replicate k 0) = 0" for k by (induction k) simp_all
  have r: "(replicate 32 (0::u8))[31 := 0] = replicate 32 0"
    by (simp add: list_update_same_conv)
  show ?thesis
    by (rule curve25519_top_bit) (simp_all add: r z bit_numeral_rec)
qed

text \<open>The multiples of the point with coordinate zero, of order two.\<close>

definition order_two :: "nat \<Rightarrow> point \<Rightarrow> bool" where
  "order_two m = (\<lambda>(x, z). if even m then z = 0 else x = 0)"

lemma curve25519_multiple_witness:
  "\<exists>X Z. order_two (2 ^ 254 + le_val (replicate 32 0x5A) mod 2 ^ 254) (X, Z)
    \<and> int (le_val (curve25519 (replicate 32 0x5A) (replicate 32 0))) = (X * Z ^ (p25519 - 2)) mod P25519"
proof (rule curve25519_multiple)
  have "le_val (replicate k 0) = 0" for k by (induction k) simp_all
  then have u: "int (le_val (replicate 32 0)) mod P25519 = 0" by simp
  let ?n = "2 ^ 254 + le_val (replicate 32 0x5A) mod 2 ^ 254 :: nat"
  show "order_two 0 (1, 0)" "order_two 1 (int (le_val (replicate 32 0)) mod P25519, 1)"
    by (simp_all add: order_two_def u)
  fix i :: nat and P Q :: point assume i: "i < 254"
  show "order_two (?n div 2 ^ Suc i) P \<Longrightarrow> order_two (2 * (?n div 2 ^ Suc i)) (rfc_double P)"
    by (cases P) (auto simp: order_two_def rfc_double_def Let_def power2_eq_square split: if_splits)
  have m: "1 \<le> ?n div 2 ^ Suc i"
    using i power_increasing [of "Suc i" 254 "2 :: nat"] by (subst div_greater_zero_iff [unfolded less_eq_Suc_le One_nat_def [symmetric]]) simp
  show "order_two (?n div 2 ^ Suc i) P \<Longrightarrow> order_two (?n div 2 ^ Suc i - 1) Q \<Longrightarrow>
      order_two (2 * (?n div 2 ^ Suc i) - 1) (rfc_add (int (le_val (replicate 32 0)) mod P25519, 1) P Q)"
    using m by (cases P; cases Q) (auto simp: order_two_def rfc_add_def Let_def u algebra_simps split: if_splits)
  show "order_two (2 * (?n div 2 ^ Suc i)) P \<Longrightarrow> order_two (2 * (?n div 2 ^ Suc i) - 1) Q \<Longrightarrow>
      order_two (2 * (?n div 2 ^ Suc i) + 1) (rfc_add Q P (int (le_val (replicate 32 0)) mod P25519, 1))"
    using m by (cases P; cases Q) (auto simp: order_two_def rfc_add_def Let_def u algebra_simps split: if_splits)
qed simp_all

end
