(* ===== verification/Base64.thy ===== *)
theory Base64
  imports Prelude
begin

text \<open>
  Base64, base32 and uuencode of \<open>libbb/uuencode.c\<close>. The decoders work in place: one memory
  holds the text at \<open>src\<close> and receives the data at \<open>dst\<close>, each byte read when the code reads it.
  Offsets into the memory stand for pointers. A read or write outside the memory, and a pointer
  that is moved below its start, gives \<open>None\<close>.
\<close>

definition ascii :: "char \<Rightarrow> u8" where
  "ascii c = of_char c"

section \<open>Encoding\<close>

definition bb_uuenc_tbl_base64 :: bytes where
  "bb_uuenc_tbl_base64 = map ascii
     (''ABCDEFGHIJKLMNOPQRSTUVWXYZ'' @ ''abcdefghijklmnopqrstuvwxyz'' @ ''0123456789+/'' @ ''='')"

definition bb_uuenc_tbl_base32 :: bytes where
  "bb_uuenc_tbl_base32 = map ascii (''ABCDEFGHIJKLMNOPQRSTUVWXYZ'' @ ''234567'')"

text \<open>
  \<open>bb_uuencode\<close>: the loop appends to what is stored so far, and gives the length it ends with. The
  last characters are overwritten backwards from the terminating zero.
\<close>

function bb_uuencode_loop :: "bytes \<Rightarrow> bytes \<Rightarrow> int \<Rightarrow> bytes \<Rightarrow> bytes \<times> int" where
  "bb_uuencode_loop p s len tbl =
     (if len > 0
      then let len = len - 3;
               s1 = (if len \<ge> -1 then ucast (s ! 1) else 0 :: u32);
               s2 = (if len \<ge> -1 \<and> len \<ge> 0 then ucast (s ! 2) else 0 :: u32);
               s0 = (ucast (s ! 0) :: u32);
               p = p @ [tbl ! unat (drop_bit 2 s0)];
               p = p @ [tbl ! unat (push_bit 4 (s0 AND 3) + drop_bit 4 s1)];
               p = p @ [tbl ! unat (push_bit 2 (s1 AND 0xf) + drop_bit 6 s2)];
               p = p @ [tbl ! unat (s2 AND 0x3f)]
           in bb_uuencode_loop p (drop 3 s) len tbl
      else (p, len))"
  by pat_completeness auto
termination
  by (relation "measure (\<lambda>(p, s, len, tbl). nat len)") auto

declare bb_uuencode_loop.simps [simp del]

fun bb_uuencode_pad :: "bytes \<Rightarrow> nat \<Rightarrow> nat \<Rightarrow> u8 \<Rightarrow> bytes" where
  "bb_uuencode_pad mem p 0 c = mem"
| "bb_uuencode_pad mem p (Suc k) c = bb_uuencode_pad (mem[p - 1 := c]) (p - 1) k c"

definition bb_uuencode :: "bytes \<Rightarrow> int \<Rightarrow> bytes \<Rightarrow> bytes" where
  "bb_uuencode src len tbl =
     (let (p, len) = bb_uuencode_loop [] src len tbl
      in bb_uuencode_pad (p @ [0]) (length p) (nat (- len)) (tbl ! 64))"

section \<open>Decoding\<close>

text \<open>
  The value of a character of base64 text, \<open>None\<close> for one that is skipped. \<open>src\<close> already points
  behind it.
\<close>

definition base64_digit :: "bytes \<Rightarrow> nat \<Rightarrow> nat \<Rightarrow> u8 \<Rightarrow> u32 option" where
  "base64_digit mem src i t =
     (if t \<ge> ascii CHR ''0'' \<and> t \<le> ascii CHR ''9'' then Some (ucast t - ucast (ascii CHR ''0'') + 52)
      else if t \<ge> ascii CHR ''A'' \<and> t \<le> ascii CHR ''Z'' then Some (ucast t - ucast (ascii CHR ''A''))
      else if t \<ge> ascii CHR ''a'' \<and> t \<le> ascii CHR ''z'' then Some (ucast t - ucast (ascii CHR ''a'') + 26)
      else if t = ascii CHR ''+'' then Some 62
      else if t = ascii CHR ''/'' then Some 63
      else if t = ascii CHR ''='' \<and> (i = 3 \<or> i = 2 \<and> mem ! src = ascii CHR ''='') then Some 0x1000000
      else None)"

function decode_base64_loop ::
  "bytes \<Rightarrow> nat \<Rightarrow> nat \<Rightarrow> u32 \<Rightarrow> nat \<Rightarrow> (bytes \<times> nat \<times> nat) option" where
  "decode_base64_loop mem dst src ch i =
     (if length mem \<le> src then None
      else if mem ! src = 0 then if src < i then None else Some (mem, dst, src - i)
      else let t = mem ! src; src = src + 1
      in if t = ascii CHR ''='' \<and> i = 2 \<and> length mem \<le> src then None
      else case base64_digit mem src i t of
           None \<Rightarrow> decode_base64_loop mem dst src ch i
         | Some t \<Rightarrow>
             let ch = push_bit 6 ch OR t; i = (i + 1) mod 4
             in if i = 0
                then if length mem < dst + 3 then None
                else let mem = mem[dst := ucast (drop_bit 16 ch), dst + 1 := ucast (drop_bit 8 ch),
                                   dst + 2 := ucast ch];
                         dst = dst + 3
                     in if ch AND 0x1000000 \<noteq> 0
                        then let dst = dst - 1;
                                 dst = (if ch AND push_bit 6 0x1000000 \<noteq> 0 then dst - 1 else dst)
                             in Some (mem, dst, src - i)
                        else decode_base64_loop mem dst src 0 i
                else decode_base64_loop mem dst src ch i)"
  by pat_completeness auto
termination
  by (relation "measure (\<lambda>(mem, dst, src, ch, i). length mem - src)") auto

declare decode_base64_loop.simps [simp del]

text \<open>The memory, the end of the data and the new source pointer.\<close>

definition decode_base64 :: "bytes \<Rightarrow> nat \<Rightarrow> nat \<Rightarrow> (bytes \<times> nat \<times> nat) option" where
  "decode_base64 mem dst src = decode_base64_loop mem dst src 0 0"

definition base32_digit :: "nat \<Rightarrow> u8 \<Rightarrow> u32 option" where
  "base32_digit i t =
     (if t \<ge> ascii CHR ''2'' \<and> t \<le> ascii CHR ''7'' then Some (ucast t - ucast (ascii CHR ''2'') + 26)
      else if t = ascii CHR ''='' \<and> i > 1 then Some 0
      else let t = (ucast t OR 0x20) - ucast (ascii CHR ''a'')
           in if t > 25 then None else Some t)"

text \<open>The pads that end at \<open>s\<close>, \<open>None\<close> when there are only pads before it.\<close>

fun count_pads :: "bytes \<Rightarrow> nat \<Rightarrow> nat option" where
  "count_pads mem 0 = None"
| "count_pads mem (Suc s) =
     (if mem ! s = ascii CHR ''='' then map_option Suc (count_pads mem s) else Some 0)"

function decode_base32_loop ::
  "bytes \<Rightarrow> nat \<Rightarrow> nat \<Rightarrow> u64 \<Rightarrow> nat \<Rightarrow> (bytes \<times> nat \<times> nat) option" where
  "decode_base32_loop mem dst src ch i =
     (if length mem \<le> src then None
      else if mem ! src = 0 then if src < i then None else Some (mem, dst, src - i)
      else let t = mem ! src; src = src + 1
      in case base32_digit i t of
           None \<Rightarrow> decode_base32_loop mem dst src ch i
         | Some t \<Rightarrow>
             let ch = push_bit 5 ch OR ucast t; i = (i + 1) mod 8
             in if i = 0
                then if length mem < dst + 5 then None
                else let mem = mem[dst := ucast (drop_bit 32 ch)];
                         dst = dst + 1;
                         pads = (if mem ! (src - 1) = ascii CHR ''='' then Some (count_pads mem src) else None);
                         mem = mem[dst := ucast (drop_bit 24 ch), dst + 1 := ucast (drop_bit 16 ch),
                                   dst + 2 := ucast (drop_bit 8 ch), dst + 3 := ucast ch];
                         dst = dst + 4
                     in case pads of
                          None \<Rightarrow> decode_base32_loop mem dst src ch i
                        | Some None \<Rightarrow> None
                        | Some (Some i) \<Rightarrow>
                            if dst < (i + 1) * 2 div 3 then None
                            else Some (mem, dst - (i + 1) * 2 div 3, src)
                else decode_base32_loop mem dst src ch i)"
  by pat_completeness auto
termination
  by (relation "measure (\<lambda>(mem, dst, src, ch, i). length mem - src)") (auto simp: Let_def)

declare decode_base32_loop.simps [simp del]

definition decode_base32 :: "bytes \<Rightarrow> nat \<Rightarrow> nat \<Rightarrow> (bytes \<times> nat \<times> nat) option" where
  "decode_base32 mem dst src = decode_base32_loop mem dst src 0 0"

section \<open>Decoding a stream\<close>

text \<open>
  \<open>read_base64\<close>. A stream is the bytes \<open>fgetc\<close> returns before it returns \<open>EOF\<close>, which is minus one.
  The inner loop fills the buffer up to a terminator, a blank or its size. Storing behind the
  buffer's end, writing more of it than there is and looking for the end of a string that has none
  is \<open>Out_of_bounds\<close>.
\<close>

definition BUFFER_SIZE :: nat where "BUFFER_SIZE = 80"

datatype fill_stop = Fill_return | Fill_out_of_bounds | Filled bool bytes bytes nat

fun fill_buf :: "int \<Rightarrow> bytes \<Rightarrow> bytes \<Rightarrow> nat \<Rightarrow> fill_stop" where
  "fill_buf exit_char [] buf in_count =
     (if in_count < BUFFER_SIZE
      then if exit_char = -1 \<and> in_count = 0 then Fill_return else Filled True [] buf in_count
      else Filled False [] buf in_count)"
| "fill_buf exit_char (c # stream) buf in_count =
     (if in_count < BUFFER_SIZE
      then if uint c = exit_char
           then if in_count = 0 then Fill_return else Filled True stream buf in_count
           else if uint c \<le> uint (ascii CHR '' '') then Filled False stream buf in_count
           else if length buf \<le> in_count then Fill_out_of_bounds
           else fill_buf exit_char stream (buf[in_count := c]) (in_count + 1)
      else Filled False (c # stream) buf in_count)"

datatype read_result = Returned bytes | Truncated_input bytes | Out_of_bounds | Out_of_fuel

definition c_string :: "bytes \<Rightarrow> nat \<Rightarrow> bytes" where
  "c_string buf p = takeWhile (\<lambda>c. c \<noteq> 0) (drop p buf)"

fun read_base64_loop ::
  "nat \<Rightarrow> int \<Rightarrow> bool \<Rightarrow> bool \<Rightarrow> bytes \<Rightarrow> bytes \<Rightarrow> nat \<Rightarrow> bytes \<Rightarrow> read_result" where
  "read_base64_loop 0 exit_char uu_style_end base32 stream buf in_count dst_stream = Out_of_fuel"
| "read_base64_loop (Suc k) exit_char uu_style_end base32 stream buf in_count dst_stream =
     (case fill_buf exit_char stream buf in_count of
        Fill_return \<Rightarrow> Returned dst_stream
      | Fill_out_of_bounds \<Rightarrow> Out_of_bounds
      | Filled term_seen stream buf in_count \<Rightarrow>
          if length buf \<le> in_count then Out_of_bounds
          else let buf = buf[in_count := 0]
          in if uu_style_end \<and> c_string buf 0 = map ascii ''===='' then Returned dst_stream
             else (case (if base32 then decode_base32 buf 0 0 else decode_base64 buf 0 0) of
                None \<Rightarrow> Out_of_bounds
              | Some (buf, out_tail, in_tail) \<Rightarrow>
                  if length buf < out_tail then Out_of_bounds
                  else let dst_stream = dst_stream @ take out_tail buf
                  in if term_seen
                     then if length buf \<le> in_tail then Out_of_bounds
                          else if buf ! in_tail = 0 then Returned dst_stream
                          else Truncated_input dst_stream
                     else if 0 \<notin> set (drop in_tail buf) then Out_of_bounds
                          else let in_count = length (c_string buf in_tail);
                                   buf = blit buf 0 (take in_count (drop in_tail buf))
                               in read_base64_loop k exit_char uu_style_end base32 stream buf in_count
                                    dst_stream))"

definition BASE64_FLAG_UU_STOP :: u32 where "BASE64_FLAG_UU_STOP = 0x100"
definition BASE64_32 :: u32 where "BASE64_32 = 0x200"

definition read_base64 :: "nat \<Rightarrow> bytes \<Rightarrow> bytes \<Rightarrow> u32 \<Rightarrow> read_result" where
  "read_base64 fuel stack src_stream flags =
     read_base64_loop fuel (sint (ucast flags :: u8)) (flags AND BASE64_FLAG_UU_STOP \<noteq> 0)
       (flags AND BASE64_32 \<noteq> 0) src_stream stack 0 []"

end
