(* ===== verification/Base64_Correct.thy ===== *)
theory Base64_Correct
  imports Base64
begin

text \<open>
  Encoding is the base64 of RFC 4648; decoding a stream recovers the data from text that is broken
  into lines anywhere but between two pads; and on every input the decoders stay inside the buffer
  and stop.
\<close>

section \<open>RFC 4648\<close>

text \<open>Three bytes are one number of 24 bits, written as four digits of six bits.\<close>

definition base64_group :: "u8 \<Rightarrow> u8 \<Rightarrow> u8 \<Rightarrow> bytes" where
  "base64_group a b c =
     (let n = unat a * 65536 + unat b * 256 + unat c
      in map (\<lambda>d. bb_uuenc_tbl_base64 ! d)
           [n div 262144, n div 4096 mod 64, n div 64 mod 64, n mod 64])"

fun base64_text :: "bytes \<Rightarrow> bytes" where
  "base64_text [] = []"
| "base64_text [a] = take 2 (base64_group a 0 0) @ [ascii CHR ''='', ascii CHR ''='']"
| "base64_text [a, b] = take 3 (base64_group a b 0) @ [ascii CHR ''='']"
| "base64_text (a # b # c # bs) = base64_group a b c @ base64_text bs"

text \<open>The digits as the encoder computes them.\<close>

definition sextet1 :: "u8 \<Rightarrow> u32" where "sextet1 a = drop_bit 2 (ucast a)"
definition sextet2 :: "u8 \<Rightarrow> u8 \<Rightarrow> u32" where
  "sextet2 a b = push_bit 4 (ucast a AND 3) + drop_bit 4 (ucast b)"
definition sextet3 :: "u8 \<Rightarrow> u8 \<Rightarrow> u32" where
  "sextet3 b c = push_bit 2 (ucast b AND 0xf) + drop_bit 6 (ucast c)"
definition sextet4 :: "u8 \<Rightarrow> u32" where "sextet4 c = ucast c AND 0x3f"

lemma unat_low_bits: "unat ((w :: u32) AND mask k) = unat w mod 2 ^ k"
  by (simp only: take_bit_eq_mask [symmetric] unsigned_take_bit_eq) (simp add: take_bit_eq_mod)

lemma unat_drop: "unat (drop_bit k (w :: u32)) = unat w div 2 ^ k"
  by (subst unat_drop_bit_eq) (simp add: drop_bit_eq_div)

lemma masks_32: "(3 :: u32) = mask 2" "(0xf :: u32) = mask 4" "(0x3f :: u32) = mask 6"
  by (simp_all add: mask_eq_exp_minus_1)

lemma byte_less_256: "unat (x :: u8) < 256"
  using unsigned_less [of x, where 'a = nat] by simp

lemma unat_push: "unat (w :: u32) * 2 ^ k < 2 ^ 32 \<Longrightarrow> unat (push_bit k w) = unat w * 2 ^ k"
  by (subst unsigned_push_bit_eq) (simp add: push_bit_eq_mult take_bit_nat_eq_self)

lemma unat_byte_word [simp]: "unat (ucast (x :: u8) :: u32) = unat x"
  by (simp add: unat_ucast_up)

lemma unat_plus: "unat (a :: u32) + unat b < 2 ^ 32 \<Longrightarrow> unat (a + b) = unat a + unat b"
  by (simp add: unat_plus_if')

lemma unat_digits:
  "unat (sextet1 a) = unat a div 4"
  "unat (sextet2 a b) = unat a mod 4 * 16 + unat b div 16"
  "unat (sextet3 b c) = unat b mod 16 * 4 + unat c div 64"
  "unat (sextet4 c) = unat c mod 64"
proof -
  have b: "unat b div 16 < 16" using byte_less_256 [of b] by (simp add: less_mult_imp_div_less)
  have c: "unat c div 64 < 4" using byte_less_256 [of c] by (simp add: less_mult_imp_div_less)
  have m: "unat a mod 4 < 4" "unat b mod 16 < 16" by simp_all
  show "unat (sextet1 a) = unat a div 4" "unat (sextet4 c) = unat c mod 64"
    unfolding sextet1_def sextet4_def masks_32 unat_low_bits unat_drop by simp_all
  have p: "unat (push_bit 4 (ucast a AND mask 2 :: u32)) = unat a mod 4 * 16"
    "unat (push_bit 2 (ucast b AND mask 4 :: u32)) = unat b mod 16 * 4"
    using m by (subst unat_push; simp add: unat_low_bits)+
  show "unat (sextet2 a b) = unat a mod 4 * 16 + unat b div 16"
    unfolding sextet2_def masks_32 using b m p by (subst unat_plus) (simp_all add: unat_drop)
  show "unat (sextet3 b c) = unat b mod 16 * 4 + unat c div 64"
    unfolding sextet3_def masks_32 using c m p by (subst unat_plus) (simp_all add: unat_drop)
qed

lemma digits_less: "unat (sextet1 a) < 64" "unat (sextet2 a b) < 64" "unat (sextet3 b c) < 64" "unat (sextet4 c) < 64"
proof -
  have "unat a div 4 < 64" using byte_less_256 [of a] by (simp add: less_mult_imp_div_less)
  moreover have "unat b div 16 < 16" using byte_less_256 [of b] by (simp add: less_mult_imp_div_less)
  moreover have "unat c div 64 < 4" using byte_less_256 [of c] by (simp add: less_mult_imp_div_less)
  moreover have "unat a mod 4 < 4" "unat b mod 16 < 16" by simp_all
  ultimately show "unat (sextet1 a) < 64" "unat (sextet2 a b) < 64" "unat (sextet3 b c) < 64" "unat (sextet4 c) < 64"
    unfolding unat_digits by linarith+
qed

lemma group_number:
  fixes x y z :: nat
  assumes "x < 256" "y < 256" "z < 256"
  defines "n \<equiv> x * 65536 + y * 256 + z"
  shows "n div 262144 = x div 4" "n div 4096 mod 64 = x mod 4 * 16 + y div 16"
    "n div 64 mod 64 = y mod 16 * 4 + z div 64" "n mod 64 = z mod 64"
proof -
  define x1 x2 y1 y2 z1 z2 where d: "x1 = x div 4" "x2 = x mod 4" "y1 = y div 16" "y2 = y mod 16"
    "z1 = z div 64" "z2 = z mod 64"
  have x: "x = 4 * x1 + x2" "x2 < 4" and y: "y = 16 * y1 + y2" "y2 < 16" and z: "z = 64 * z1 + z2" "z2 < 64"
    by (simp_all add: d)
  have b: "x1 < 64" "y1 < 16" "z1 < 4" using assms(1-3) by (simp_all add: d less_mult_imp_div_less)
  have n: "n = x1 * 262144 + (x2 * 16 + y1) * 4096 + (y2 * 4 + z1) * 64 + z2"
    by (simp add: n_def x(1) y(1) z(1))
  have "n div 262144 = x1" unfolding n using x(2) y(2) z(2) b by (intro div_nat_eqI) simp_all
  moreover have "n div 4096 = x1 * 64 + (x2 * 16 + y1)"
    unfolding n using x(2) y(2) z(2) b by (intro div_nat_eqI) simp_all
  moreover have "n div 64 = (x1 * 64 + (x2 * 16 + y1)) * 64 + (y2 * 4 + z1)"
    unfolding n using x(2) y(2) z(2) b by (intro div_nat_eqI) simp_all
  moreover have "n mod 64 = z2" unfolding n using z(2)
      mod_mult_self1 [of z2 "x1 * 4096 + (x2 * 16 + y1) * 64 + (y2 * 4 + z1)" 64] by (simp add: algebra_simps)
  moreover have low64: "(q * 64 + k) mod 64 = k" if "k < 64" for q k :: nat
    using that by simp
  then have "(x1 * 64 + (x2 * 16 + y1)) mod 64 = x2 * 16 + y1"
    using x(2) b(2) by (intro low64) simp
  moreover have "((x1 * 64 + (x2 * 16 + y1)) * 64 + (y2 * 4 + z1)) mod 64 = y2 * 4 + z1"
    by (rule low64) (use y(2) b(3) in simp)
  ultimately show "n div 262144 = x div 4" "n div 4096 mod 64 = x mod 4 * 16 + y div 16"
    "n div 64 mod 64 = y mod 16 * 4 + z div 64" "n mod 64 = z mod 64"
    unfolding d [symmetric] by simp_all
qed

lemma base64_group_digits:
  "base64_group a b c = map (\<lambda>d. bb_uuenc_tbl_base64 ! unat d) [sextet1 a, sextet2 a b, sextet3 b c, sextet4 c]"
  unfolding base64_group_def Let_def group_number [OF byte_less_256 byte_less_256 byte_less_256]
  by (simp add: unat_digits)

lemma base64_digit_table:
  assumes "d < 64"
  shows "base64_digit mem src i (bb_uuenc_tbl_base64 ! d) = Some (of_nat d)"
    "bb_uuenc_tbl_base64 ! d \<noteq> ascii CHR ''=''" "32 < uint (bb_uuenc_tbl_base64 ! d)"
proof -
  have l: "length bb_uuenc_tbl_base64 = 65" by code_simp
  have m: "map (base64_digit [] 0 0) bb_uuenc_tbl_base64 = map (\<lambda>d. Some (of_nat d)) [0..<64] @ [None]"
    by code_simp
  have "list_all (\<lambda>x. x \<noteq> ascii CHR ''='' \<and> 32 < x) (take 64 bb_uuenc_tbl_base64)" by code_simp
  moreover have "bb_uuenc_tbl_base64 ! d \<in> set (take 64 bb_uuenc_tbl_base64)"
    using nth_mem [of d "take 64 bb_uuenc_tbl_base64"] assms l by (simp only: nth_take length_take)
  ultimately have t: "bb_uuenc_tbl_base64 ! d \<noteq> ascii CHR ''=''" "32 < bb_uuenc_tbl_base64 ! d"
    by (simp_all add: list_all_iff)
  have "base64_digit [] 0 0 (bb_uuenc_tbl_base64 ! d) = map (base64_digit [] 0 0) bb_uuenc_tbl_base64 ! d"
    using assms l by simp
  also have "\<dots> = Some (of_nat d)"
    unfolding m using assms by (simp only: nth_append length_map length_upt diff_zero if_True nth_map nth_upt add_0)
  finally have v: "base64_digit [] 0 0 (bb_uuenc_tbl_base64 ! d) = Some (of_nat d)" .
  have "base64_digit mem src i x = base64_digit [] 0 0 x" if "x \<noteq> ascii CHR ''=''" for x
    by (simp only: base64_digit_def that simp_thms if_False)
  then show "base64_digit mem src i (bb_uuenc_tbl_base64 ! d) = Some (of_nat d)"
    "bb_uuenc_tbl_base64 ! d \<noteq> ascii CHR ''=''" "32 < uint (bb_uuenc_tbl_base64 ! d)"
    using t v by (simp_all add: word_less_def)
qed

section \<open>Encoding\<close>

lemma length_mod_3: "length (a # b # c # bs) mod 3 = length bs mod 3"
proof -
  have "Suc (Suc (Suc n)) mod 3 = n mod 3" for n :: nat by presburger
  then show ?thesis by simp
qed

lemma replicate_2: "replicate 2 x = [x, x]"
  by (simp add: numeral_2_eq_2)

lemma length_base64_group [simp]: "length (base64_group a b c) = 4"
  by (simp add: base64_group_def Let_def)

lemma length_base64_text: "length (base64_text s) = 4 * ((length s + 2) div 3)"
proof (induction s rule: base64_text.induct)
  case (4 a b c bs)
  have "(Suc (Suc (Suc n)) + 2) div 3 = Suc ((n + 2) div 3)" for n :: nat by presburger
  then show ?case using 4 by simp
qed simp_all

lemma take_beyond_group:
  "k \<le> length t \<Longrightarrow> length g = 4 \<Longrightarrow> take (4 + length t - k) (g @ t) = g @ take (length t - k) t"
  by simp

lemma base64_text_pads:
  defines "k \<equiv> \<lambda>s :: bytes. (3 - length s mod 3) mod 3"
  shows "k s \<le> length (base64_text s)
    \<and> base64_text s = take (length (base64_text s) - k s) (base64_text s) @ replicate (k s) (ascii CHR ''='')"
proof (induction s rule: base64_text.induct)
  case (4 a b c bs)
  have "k (a # b # c # bs) = k bs" unfolding k_def length_mod_3 ..
  then show ?case
    using 4 take_beyond_group [of "k bs" "base64_text bs" "base64_group a b c"] by simp
qed (simp_all add: k_def replicate_2)

lemma bb_uuencode_loop_groups:
  "bb_uuencode_loop p s (int (length s)) bb_uuenc_tbl_base64 =
    (let k = (3 - length s mod 3) mod 3
     in (p @ take (length (base64_text s) - k) (base64_text s) @ replicate k (bb_uuenc_tbl_base64 ! 0), - int k))"
proof (induction s arbitrary: p rule: base64_text.induct)
  case 1
  show ?case by (subst bb_uuencode_loop.simps) simp
next
  case (2 a)
  have "sextet3 0 0 = 0" "sextet4 0 = 0" by (simp_all add: sextet3_def sextet4_def)
  then show ?case
    by (subst bb_uuencode_loop.simps, subst bb_uuencode_loop.simps)
      (simp add: base64_group_digits sextet1_def sextet2_def Let_def replicate_2)
next
  case (3 a b)
  have "sextet4 0 = 0" by (simp add: sextet4_def)
  then show ?case
    by (subst bb_uuencode_loop.simps, subst bb_uuencode_loop.simps)
      (simp add: base64_group_digits sextet1_def sextet2_def sextet3_def Let_def replicate_2)
next
  case (4 a b c bs)
  have m: "length (a # b # c # bs) mod 3 = length bs mod 3" by (rule length_mod_3)
  have "bb_uuencode_loop p (a # b # c # bs) (int (length (a # b # c # bs))) bb_uuenc_tbl_base64
      = bb_uuencode_loop (p @ base64_group a b c) bs (int (length bs)) bb_uuenc_tbl_base64"
    by (subst bb_uuencode_loop.simps)
      (simp add: base64_group_digits sextet1_def sextet2_def sextet3_def sextet4_def Let_def)
  moreover have "(3 - length bs mod 3) mod 3 \<le> length (base64_text bs)" using base64_text_pads [of bs] by blast
  ultimately show ?case
    using take_beyond_group [of _ "base64_text bs" "base64_group a b c"] unfolding m 4 by (simp add: Let_def)
qed

lemma bb_uuencode_pad_end:
  "k \<le> length p \<Longrightarrow> bb_uuencode_pad (p @ r) (length p) k c = take (length p - k) p @ replicate k c @ r"
proof (induction k arbitrary: p r)
  case (Suc k)
  then obtain q x where p: "p = q @ [x]" by (cases p rule: rev_cases) auto
  then show ?case
    using Suc.IH [of q "c # r"] Suc.prems by (simp add: replicate_append_same)
qed simp

lemma bb_uuencode_base64_text:
  "bb_uuencode s (int (length s)) bb_uuenc_tbl_base64 = base64_text s @ [0]"
proof -
  define k where "k = (3 - length s mod 3) mod 3"
  define t where "t = take (length (base64_text s) - k) (base64_text s)"
  have pads: "base64_text s = t @ replicate k (ascii CHR ''='')"
    using base64_text_pads [of s] unfolding k_def t_def by blast
  have eq: "bb_uuenc_tbl_base64 ! 64 = ascii CHR ''=''" by code_simp
  have "bb_uuencode s (int (length s)) bb_uuenc_tbl_base64
      = bb_uuencode_pad ((t @ replicate k (bb_uuenc_tbl_base64 ! 0)) @ [0])
          (length (t @ replicate k (bb_uuenc_tbl_base64 ! 0))) k (ascii CHR ''='')"
    by (simp add: bb_uuencode_def bb_uuencode_loop_groups Let_def eq flip: k_def t_def)
  also have "\<dots> = t @ replicate k (ascii CHR ''='') @ [0]"
    by (subst bb_uuencode_pad_end) simp_all
  finally show ?thesis using pads by simp
qed

section \<open>Decoding in place\<close>

definition alphabet :: "u8 \<Rightarrow> bool" where
  "alphabet x \<longleftrightarrow> (\<exists>d < 64. x = bb_uuenc_tbl_base64 ! d)"

lemma alphabetE:
  assumes "alphabet x"
  obtains d where "\<And>mem src i. base64_digit mem src i x = Some d" "x \<noteq> 0" "x \<noteq> ascii CHR ''=''" "32 < uint x"
proof -
  obtain d where d: "d < 64" "x = bb_uuenc_tbl_base64 ! d" using assms by (auto simp: alphabet_def)
  note t = base64_digit_table [OF d(1), folded d(2)]
  moreover have "x \<noteq> 0" using t(3) by auto
  ultimately show thesis using that by blast
qed

lemma alphabet_group: "x \<in> set (base64_group a b c) \<Longrightarrow> alphabet x"
  using digits_less(1) [of a] digits_less(2) [of a b] digits_less(3) [of b c] digits_less(4) [of c]
  unfolding base64_group_digits alphabet_def by auto

lemma decode_step:
  assumes "src + 1 < length mem" "mem ! src \<noteq> 0" "base64_digit mem (src + 1) i (mem ! src) = Some t" "i < 3"
  shows "decode_base64_loop mem dst src ch i = decode_base64_loop mem dst (src + 1) (push_bit 6 ch OR t) (i + 1)"
  using assms by (subst decode_base64_loop.simps) (simp add: Let_def)

lemma decode_last:
  assumes "src < length mem" "mem ! src \<noteq> 0" "base64_digit mem (src + 1) 3 (mem ! src) = Some t"
    and "dst + 3 \<le> length mem" "push_bit 6 ch OR t = w"
  defines "mem' \<equiv> mem[dst := ucast (drop_bit 16 w), dst + 1 := ucast (drop_bit 8 w), dst + 2 := ucast w]"
  shows "decode_base64_loop mem dst src ch 3 =
    (if w AND 0x1000000 \<noteq> 0
     then Some (mem', if w AND push_bit 6 0x1000000 \<noteq> 0 then dst + 1 else dst + 2, src + 1)
     else decode_base64_loop mem' (dst + 3) (src + 1) 0 0)"
  using assms(1-4) unfolding mem'_def assms(5) [symmetric]
  by (subst decode_base64_loop.simps) (simp add: Let_def)

lemma decode_skip:
  "src + 1 < length mem \<Longrightarrow> mem ! src \<noteq> 0 \<Longrightarrow> base64_digit mem (src + 1) i (mem ! src) = None \<Longrightarrow>
    decode_base64_loop mem dst src ch i = decode_base64_loop mem dst (src + 1) ch i"
  by (subst decode_base64_loop.simps) (simp add: Let_def)

lemma decode_stop:
  "src < length mem \<Longrightarrow> mem ! src = 0 \<Longrightarrow> i \<le> src \<Longrightarrow>
    decode_base64_loop mem dst src ch i = Some (mem, dst, src - i)"
  by (subst decode_base64_loop.simps) simp

lemma decode_partial:
  "drop src mem = p @ 0 # r \<Longrightarrow> \<forall>x\<in>set p. alphabet x \<Longrightarrow> i + length p \<le> 3 \<Longrightarrow> i \<le> src \<Longrightarrow>
    decode_base64_loop mem dst src ch i = Some (mem, dst, src + length p - (i + length p))"
proof (induction p arbitrary: src ch i)
  case Nil
  then have "src < length mem" "mem ! src = 0"
    by (metis append_Nil drop_eq_Nil list.distinct(1) not_le, metis append_Nil nth_via_drop)
  then show ?case using Nil.prems(4) by (subst decode_base64_loop.simps) simp
next
  case (Cons x p)
  then obtain d where d: "\<And>mem src i. base64_digit mem src i x = Some d" "x \<noteq> 0"
    by (auto elim: alphabetE)
  have x: "mem ! src = x" "src < length mem" "drop (src + 1) mem = p @ 0 # r"
    using Cons.prems(1) by (auto simp: nth_via_drop drop_Suc tl_drop not_le dest: arg_cong [of _ _ tl])
      (metis append_Cons drop_eq_Nil list.distinct(1) not_le)
  have "decode_base64_loop mem dst src ch i = decode_base64_loop mem dst (src + 1) (push_bit 6 ch OR d) (i + 1)"
    using x d Cons.prems(3) drop_eq_Nil [of "src + 1" mem] by (intro decode_step) (auto simp: not_le)
  also have "\<dots> = Some (mem, dst, src + 1 + length p - (i + 1 + length p))"
    using Cons.prems x by (intro Cons.IH) simp_all
  finally show ?case by simp
qed

text \<open>The digits of a group put its bytes together again.\<close>

definition joined :: "u32 list \<Rightarrow> u32" where
  "joined ds = foldl (\<lambda>ch t. push_bit 6 ch OR t) 0 ds"

lemma sextet_sums:
  "sextet2 a b = push_bit 4 (ucast a AND mask 2) OR drop_bit 4 (ucast b)"
  "sextet3 b c = push_bit 2 (ucast b AND mask 4) OR drop_bit 6 (ucast c)"
proof -
  have "push_bit 4 (ucast a AND mask 2) AND drop_bit 4 (ucast b) = (0 :: u32)"
    by (rule bit_word_eqI) (auto simp: bit_simps not_less add.commute)
  then show "sextet2 a b = push_bit 4 (ucast a AND mask 2) OR drop_bit 4 (ucast b)"
    unfolding sextet2_def masks_32 by (rule disjunctive_add_eq_or)
  have "push_bit 2 (ucast b AND mask 4) AND drop_bit 6 (ucast c) = (0 :: u32)"
    by (rule bit_word_eqI) (auto simp: bit_simps not_less add.commute)
  then show "sextet3 b c = push_bit 2 (ucast b AND mask 4) OR drop_bit 6 (ucast c)"
    unfolding sextet3_def masks_32 by (rule disjunctive_add_eq_or)
qed

lemma sextet_bits:
  "bit (sextet1 a) n \<longleftrightarrow> bit a (n + 2)"
  "bit (sextet2 a b) n \<longleftrightarrow> 4 \<le> n \<and> n < 6 \<and> bit a (n - 4) \<or> bit b (n + 4)"
  "bit (sextet3 b c) n \<longleftrightarrow> 2 \<le> n \<and> n < 6 \<and> bit b (n - 2) \<or> bit c (n + 6)"
  "bit (sextet4 c) n \<longleftrightarrow> n < 6 \<and> bit c n"
  unfolding sextet_sums sextet1_def sextet4_def masks_32
  by (auto simp: bit_simps add.commute dest: bit_imp_le_length)

lemma small_numerals: "Suc (Suc 0) = 2" "Suc (Suc (Suc 0)) = 3"
  by simp_all

lemma byte_cases: "n < 8 \<Longrightarrow> n = 0 \<or> n = 1 \<or> n = 2 \<or> n = 3 \<or> n = 4 \<or> n = 5 \<or> n = 6 \<or> n = (7 :: nat)"
  by linarith

lemma byte_eqI: "bit x 0 = bit y 0 \<Longrightarrow> bit x 1 = bit y 1 \<Longrightarrow> bit x 2 = bit y 2 \<Longrightarrow> bit x 3 = bit y 3 \<Longrightarrow>
    bit x 4 = bit y 4 \<Longrightarrow> bit x 5 = bit y 5 \<Longrightarrow> bit x 6 = bit y 6 \<Longrightarrow> bit x 7 = bit y 7 \<Longrightarrow> x = (y :: u8)"
  using byte_cases by (intro bit_word_eqI) auto

lemma pad_flags:
  "w AND 0x1000000 = 0 \<longleftrightarrow> \<not> bit (w :: u32) 24" "w AND push_bit 6 0x1000000 = 0 \<longleftrightarrow> \<not> bit w 30"
  using and_exp_eq_0_iff_not_bit [of w 24] and_exp_eq_0_iff_not_bit [of w 30] by simp_all

lemma pad_flags_not: "w AND 0x1000000 \<noteq> 0 \<longleftrightarrow> bit (w :: u32) 24" "w AND push_bit 6 0x1000000 \<noteq> 0 \<longleftrightarrow> bit w 30"
  using pad_flags [of w] by simp_all

lemma joined_digits:
  assumes "w = joined [sextet1 a, sextet2 a b, sextet3 b c, sextet4 c]"
  shows "ucast (drop_bit 16 w) = a" "ucast (drop_bit 8 w) = b" "ucast w = c" "\<not> bit w 24"
proof -
  show "ucast (drop_bit 16 w) = a" unfolding assms joined_def foldl.simps
    by (rule byte_eqI) (simp_all add: bit_simps sextet_bits small_numerals)
  show "ucast (drop_bit 8 w) = b" unfolding assms joined_def foldl.simps
    by (rule byte_eqI) (simp_all add: bit_simps sextet_bits small_numerals)
  show "ucast w = c" unfolding assms joined_def foldl.simps
    by (rule byte_eqI) (simp_all add: bit_simps sextet_bits small_numerals)
  show "\<not> bit w 24" unfolding assms joined_def foldl.simps by (simp add: bit_simps sextet_bits)
qed

lemma pad_bit: "bit (0x1000000 :: u32) n \<longleftrightarrow> n = 24"
proof -
  have e: "(0x1000000 :: u32) = push_bit 24 1" by simp
  show ?thesis unfolding e by (auto simp: bit_push_bit_iff bit_1_iff simp del: push_bit_of_1)
qed

lemma joined_one_pad:
  assumes "w = joined [sextet1 a, sextet2 a b, sextet3 b 0, 0x1000000]"
  shows "ucast (drop_bit 16 w) = a" "ucast (drop_bit 8 w) = b" "bit w 24" "\<not> bit w 30"
proof -
  show "ucast (drop_bit 16 w) = a" unfolding assms joined_def foldl.simps
    by (rule byte_eqI) (simp_all add: bit_simps sextet_bits small_numerals pad_bit)
  show "ucast (drop_bit 8 w) = b" unfolding assms joined_def foldl.simps
    by (rule byte_eqI) (simp_all add: bit_simps sextet_bits small_numerals pad_bit)
  show "bit w 24" "\<not> bit w 30" unfolding assms joined_def foldl.simps
    by (simp_all add: bit_simps sextet_bits pad_bit)
qed

lemma joined_two_pads:
  assumes "w = joined [sextet1 a, sextet2 a 0, 0x1000000, 0x1000000]"
  shows "ucast (drop_bit 16 w) = a" "bit w 24" "bit w 30"
proof -
  show "ucast (drop_bit 16 w) = a" unfolding assms joined_def foldl.simps
    by (rule byte_eqI) (simp_all add: bit_simps sextet_bits small_numerals pad_bit)
  show "bit w 24" "bit w 30" unfolding assms joined_def foldl.simps
    by (simp_all add: bit_simps sextet_bits pad_bit)
qed

text \<open>Four characters, and the text of \<open>bs\<close> before what is left of a line.\<close>

lemma decode_quad:
  assumes d: "drop src mem = [x1, x2, x3, x4] @ r" and "0 \<notin> {x1, x2, x3, x4}" "dst \<le> src"
    and "base64_digit mem (src + 1) 0 x1 = Some d1" "base64_digit mem (src + 2) 1 x2 = Some d2"
    and "base64_digit mem (src + 3) 2 x3 = Some d3" "base64_digit mem (src + 4) 3 x4 = Some d4"
    and w: "joined [d1, d2, d3, d4] = w"
  defines "mem' \<equiv> blit mem dst [ucast (drop_bit 16 w), ucast (drop_bit 8 w), ucast w]"
  shows "decode_base64_loop mem dst src 0 0 =
    (if bit w 24 then Some (mem', if bit w 30 then dst + 1 else dst + 2, src + 4)
     else decode_base64_loop mem' (dst + 3) (src + 4) 0 0)"
proof -
  have l: "src + 4 \<le> length mem" using arg_cong [OF d, of length] by simp
  have n: "mem ! src = x1" "mem ! (src + 1) = x2" "mem ! (src + 2) = x3" "mem ! (src + 3) = x4"
    using l nth_drop [of src mem 0] nth_drop [of src mem 1] nth_drop [of src mem 2] nth_drop [of src mem 3]
    by (simp_all add: d)
  have m: "mem' = mem[dst := ucast (drop_bit 16 w), dst + 1 := ucast (drop_bit 8 w), dst + 2 := ucast w]"
    unfolding mem'_def using assms(3) l by (simp add: blit_Cons)
  have s: "src + 1 + 1 = src + 2" "src + 2 + 1 = src + 3" "src + 3 + 1 = src + 4" by simp_all
  have "decode_base64_loop mem dst src 0 0 = decode_base64_loop mem dst (src + 1) d1 1"
    using decode_step [of src mem 0 d1 dst 0] assms(2,4) n l by simp
  also have "\<dots> = decode_base64_loop mem dst (src + 2) (push_bit 6 d1 OR d2) 2"
    using decode_step [of "src + 1" mem 1 d2 dst d1, unfolded s] assms(2,5) n l by (simp add: numeral_2_eq_2)
  also have "\<dots> = decode_base64_loop mem dst (src + 3) (push_bit 6 (push_bit 6 d1 OR d2) OR d3) 3"
    using decode_step [of "src + 2" mem 2 d3 dst "push_bit 6 d1 OR d2", unfolded s] assms(2,6) n l by simp
  also have "\<dots> = (if bit w 24 then Some (mem', if bit w 30 then dst + 1 else dst + 2, src + 4)
     else decode_base64_loop mem' (dst + 3) (src + 4) 0 0)"
    using w assms(2,3,7) n l unfolding m pad_flags_not [symmetric]
    by (intro decode_last [of "src + 3", unfolded s]) (simp_all add: joined_def)
  finally show ?thesis .
qed

lemma sextet_digit:
  assumes "unat s < 64" "x = bb_uuenc_tbl_base64 ! unat s"
  shows "base64_digit mem src i x = Some s" "x \<noteq> 0"
  using base64_digit_table [OF assms(1), folded assms(2)] by auto

lemma pad_digit:
  "base64_digit mem src 3 (ascii CHR ''='') = Some 0x1000000"
  "mem ! src = ascii CHR ''='' \<Longrightarrow> base64_digit mem src 2 (ascii CHR ''='') = Some 0x1000000"
  by (simp_all add: base64_digit_def ascii_def)

lemma blit_parts:
  assumes "dst + length d \<le> length mem"
  shows "k \<le> length d \<Longrightarrow> take (dst + k) (blit mem dst d) = take dst mem @ take k d"
    "dst + length d \<le> n \<Longrightarrow> drop n (blit mem dst d) = drop n mem"
    "1 \<le> length d \<Longrightarrow> take (Suc dst) (blit mem dst d) = take dst mem @ take 1 d"
    "2 \<le> length d \<Longrightarrow> take (Suc (Suc dst)) (blit mem dst d) = take dst mem @ take 2 d"
  using assms by (simp_all add: blit_def min_absorb2 Suc_diff_le numeral_2_eq_2)

lemma decode_group:
  assumes "drop src mem = base64_group a b c @ r" "dst \<le> src"
  shows "decode_base64_loop mem dst src 0 0 = decode_base64_loop (blit mem dst [a, b, c]) (dst + 3) (src + 4) 0 0"
    and "drop (src + 4) (blit mem dst [a, b, c]) = r"
    and "take (dst + 3) (blit mem dst [a, b, c]) = take dst mem @ [a, b, c]"
    and "length (blit mem dst [a, b, c]) = length mem"
proof -
  have d: "drop src mem = [bb_uuenc_tbl_base64 ! unat (sextet1 a), bb_uuenc_tbl_base64 ! unat (sextet2 a b),
      bb_uuenc_tbl_base64 ! unat (sextet3 b c), bb_uuenc_tbl_base64 ! unat (sextet4 c)] @ r"
    using assms(1) by (simp add: base64_group_digits)
  define w where "w = joined [sextet1 a, sextet2 a b, sextet3 b c, sextet4 c]"
  note w = joined_digits [OF w_def]
  have l: "src + 4 \<le> length mem" using arg_cong [OF d, of length] by simp
  have n: "drop (src + 4) mem = r" using drop_drop [of 4 src mem] by (simp add: d add.commute)
  show "decode_base64_loop mem dst src 0 0 = decode_base64_loop (blit mem dst [a, b, c]) (dst + 3) (src + 4) 0 0"
    using assms(2) w sextet_digit(2) [OF digits_less(1) refl] sextet_digit(2) [OF digits_less(2) refl]
      sextet_digit(2) [OF digits_less(3) refl] sextet_digit(2) [OF digits_less(4) refl]
    by (subst decode_quad [OF d _ _ sextet_digit(1) [OF digits_less(1) refl] sextet_digit(1) [OF digits_less(2) refl]
          sextet_digit(1) [OF digits_less(3) refl] sextet_digit(1) [OF digits_less(4) refl] w_def [symmetric]])
      (simp_all add: ascii_def)
  show "drop (src + 4) (blit mem dst [a, b, c]) = r"
      "take (dst + 3) (blit mem dst [a, b, c]) = take dst mem @ [a, b, c]"
      "length (blit mem dst [a, b, c]) = length mem"
    using n l assms(2) by (simp_all add: blit_parts)
qed

lemma decode_text:
  "drop src mem = base64_text s @ p @ 0 # r \<Longrightarrow> dst \<le> src \<Longrightarrow> \<forall>x\<in>set p. alphabet x \<Longrightarrow>
    length p < 4 \<Longrightarrow> length s mod 3 = 0 \<or> p = [] \<Longrightarrow>
    \<exists>mem'. decode_base64_loop mem dst src 0 0 = Some (mem', dst + length s, src + length (base64_text s))
      \<and> take (dst + length s) mem' = take dst mem @ s
      \<and> drop (src + length (base64_text s)) mem' = p @ 0 # r \<and> length mem' = length mem"
proof (induction s arbitrary: mem dst src rule: base64_text.induct)
  case 1
  have "decode_base64_loop mem dst src 0 0 = Some (mem, dst, src + length p - (0 + length p))"
    using 1 by (intro decode_partial) simp_all
  then show ?case using 1 by simp
next
  case (2 a)
  have d: "drop src mem = [bb_uuenc_tbl_base64 ! unat (sextet1 a), bb_uuenc_tbl_base64 ! unat (sextet2 a 0),
      ascii CHR ''='', ascii CHR ''=''] @ 0 # r"
    using 2 by (simp add: base64_group_digits)
  note w = joined_two_pads [OF refl, of a]
  have l: "src + 5 \<le> length mem" using arg_cong [OF d, of length] by simp
  have n: "mem ! (src + 3) = ascii CHR ''=''" "drop (src + 4) mem = 0 # r"
    using nth_drop [of src mem 3] drop_drop [of 4 src mem] l by (simp_all add: d add.commute)
  have "decode_base64_loop mem dst src 0 0 = Some (blit mem dst [ucast (drop_bit 16 (joined [sextet1 a, sextet2 a 0, 0x1000000, 0x1000000])),
      ucast (drop_bit 8 (joined [sextet1 a, sextet2 a 0, 0x1000000, 0x1000000])),
      ucast (joined [sextet1 a, sextet2 a 0, 0x1000000, 0x1000000])], dst + 1, src + 4)"
    using 2(2) w(2,3) n sextet_digit(2) [OF digits_less(1) refl] sextet_digit(2) [OF digits_less(2) refl]
    by (subst decode_quad [OF d _ _ sextet_digit(1) [OF digits_less(1) refl]
          sextet_digit(1) [OF digits_less(2) refl] pad_digit(2) pad_digit(1) refl])
      (simp_all add: ascii_def)
  then show ?case
    using 2(2,5) l n w(1) by (simp add: blit_parts)
next
  case (3 a b)
  have d: "drop src mem = [bb_uuenc_tbl_base64 ! unat (sextet1 a), bb_uuenc_tbl_base64 ! unat (sextet2 a b),
      bb_uuenc_tbl_base64 ! unat (sextet3 b 0), ascii CHR ''=''] @ 0 # r"
    using 3 by (simp add: base64_group_digits)
  define w where "w = joined [sextet1 a, sextet2 a b, sextet3 b 0, 0x1000000]"
  note w = joined_one_pad [OF w_def]
  have l: "src + 5 \<le> length mem" using arg_cong [OF d, of length] by simp
  have n: "drop (src + 4) mem = 0 # r" using drop_drop [of 4 src mem] by (simp add: d add.commute)
  have "decode_base64_loop mem dst src 0 0 = Some (blit mem dst [ucast (drop_bit 16 w),
      ucast (drop_bit 8 w), ucast w], dst + 2, src + 4)"
    using 3(2) w(3,4) sextet_digit(2) [OF digits_less(1) refl] sextet_digit(2) [OF digits_less(2) refl]
      sextet_digit(2) [OF digits_less(3) refl]
    by (subst decode_quad [OF d _ _ sextet_digit(1) [OF digits_less(1) refl] sextet_digit(1) [OF digits_less(2) refl]
          sextet_digit(1) [OF digits_less(3) refl] pad_digit(1) w_def [symmetric]])
      (simp_all add: ascii_def)
  then show ?case
    using 3(2,5) l n w(1,2) by (simp add: blit_parts)
next
  case (4 a b c s)
  note group = decode_group [OF 4(2) [unfolded base64_text.simps append_assoc] 4(3)]
  have "length s mod 3 = 0 \<or> p = []" using 4(6) unfolding length_mod_3 .
  then obtain mem' where i: "decode_base64_loop (blit mem dst [a, b, c]) (dst + 3) (src + 4) 0 0
        = Some (mem', (dst + 3) + length s, (src + 4) + length (base64_text s))"
      "take ((dst + 3) + length s) mem' = (take dst mem @ [a, b, c]) @ s"
      "drop ((src + 4) + length (base64_text s)) mem' = p @ 0 # r" "length mem' = length (blit mem dst [a, b, c])"
    using 4(1) [of "src + 4" "blit mem dst [a, b, c]" "dst + 3"] 4(3-5) group(2,3) by auto
  have e: "dst + length (a # b # c # s) = (dst + 3) + length s"
      "src + length (base64_text (a # b # c # s)) = (src + 4) + length (base64_text s)" by simp_all
  show ?case unfolding group(1) e using i group(4) by simp
qed

section \<open>Decoding a stream\<close>

definition nonblank :: "u8 \<Rightarrow> bool" where "nonblank c \<longleftrightarrow> 32 < uint c"

text \<open>A stream that does not break between the two pads.\<close>

fun pads_adjacent :: "bytes \<Rightarrow> bool" where
  "pads_adjacent (x # y # s) \<longleftrightarrow>
     (x = ascii CHR ''='' \<and> ascii CHR ''='' \<in> set s \<longrightarrow> nonblank y) \<and> pads_adjacent (y # s)"
| "pads_adjacent [x] \<longleftrightarrow> True"
| "pads_adjacent [] \<longleftrightarrow> True"

lemma pads_adjacent_append: "pads_adjacent (u @ v) \<Longrightarrow> pads_adjacent v"
proof (induction u)
  case (Cons x u)
  then have "pads_adjacent (u @ v)" by (cases "u @ v") auto
  then show ?case by (rule Cons.IH)
qed simp

lemma pads_adjacent_break:
  "pads_adjacent (u @ ascii CHR ''='' # b # v) \<Longrightarrow> ascii CHR ''='' \<in> set v \<Longrightarrow> nonblank b"
  using pads_adjacent_append [of u] by fastforce

lemma alphabet_nonblank: "alphabet x \<Longrightarrow> nonblank x \<and> x \<noteq> 0 \<and> x \<noteq> ascii CHR ''=''"
  by (auto simp: nonblank_def elim: alphabetE)

lemma blank_le: "uint c \<le> uint (ascii CHR '' '') \<longleftrightarrow> \<not> nonblank c"
  by (auto simp: ascii_def nonblank_def)

lemma fill_buf_bounds:
  "fill_buf e s buf n = Filled ts s' buf' n' \<Longrightarrow> n \<le> BUFFER_SIZE \<Longrightarrow>
    n \<le> n' \<and> n' \<le> BUFFER_SIZE \<and> length buf' = length buf
    \<and> (n < BUFFER_SIZE \<longrightarrow> ts \<or> length s' < length s)"
proof (induction e s buf n rule: fill_buf.induct)
  case (2 e c s buf n)
  show ?case
  proof (cases "n < BUFFER_SIZE \<and> uint c \<noteq> e \<and> nonblank c")
    case True
    then have "fill_buf e s (buf[n := c]) (n + 1) = Filled ts s' buf' n'"
      using 2(2) by (simp add: blank_le split: if_splits)
    then have i: "n + 1 \<le> n' \<and> n' \<le> BUFFER_SIZE \<and> length buf' = length (buf[n := c])
        \<and> (n + 1 < BUFFER_SIZE \<longrightarrow> ts \<or> length s' < length s)"
      using True 2(2) by (intro 2(1)) (auto simp: blank_le split: if_splits)
    moreover have "ts \<or> length s' < length (c # s)" if "n + 1 = BUFFER_SIZE"
      using that \<open>fill_buf e s (buf[n := c]) (n + 1) = Filled ts s' buf' n'\<close> by (cases s) auto
    ultimately show ?thesis by auto
  next
    case False
    then show ?thesis using 2(2,3) by (auto simp: blank_le split: if_splits)
  qed
qed (auto split: if_splits)

lemma fill_buf_inside:
  "n \<le> BUFFER_SIZE \<Longrightarrow> BUFFER_SIZE < length buf \<Longrightarrow> fill_buf e s buf n \<noteq> Fill_out_of_bounds"
  by (induction e s buf n rule: fill_buf.induct) auto

lemma fill_buf_nothing: "fill_buf (- 1) s buf n = Fill_return \<Longrightarrow> s = [] \<and> n = 0"
proof (induction "- 1 :: int" s buf n rule: fill_buf.induct)
  case (2 c s buf n)
  have "uint c \<noteq> - 1" using uint_ge_0 [of c] by linarith
  then show ?case using 2 by (auto split: if_splits)
qed (auto split: if_splits)

lemma fill_buf_text:
  "fill_buf (- 1) s buf n = Filled ts s' buf' n' \<Longrightarrow> n \<le> BUFFER_SIZE \<Longrightarrow> BUFFER_SIZE < length buf \<Longrightarrow>
    \<exists>c. take n' buf' = take n buf @ c \<and> n' = n + length c \<and> (\<forall>x\<in>set c. nonblank x)
      \<and> (if ts then s = c \<and> s' = []
         else s = c @ s' \<and> n' = BUFFER_SIZE \<or> (\<exists>b. s = c @ b # s' \<and> \<not> nonblank b))"
proof (induction "- 1 :: int" s buf n rule: fill_buf.induct)
  case (1 buf n)
  then show ?case by (intro exI [of _ "[]"]) (auto split: if_splits)
next
  case (2 c s buf n)
  have e: "uint c \<noteq> - 1" using uint_ge_0 [of c] by linarith
  show ?case
  proof (cases "n < BUFFER_SIZE \<and> nonblank c")
    case True
    then have "fill_buf (- 1) s (buf[n := c]) (n + 1) = Filled ts s' buf' n'"
      using 2(2,4) e by (simp add: blank_le)
    then obtain d where d: "take n' buf' = take (n + 1) (buf[n := c]) @ d" "n' = n + 1 + length d"
        "\<forall>x\<in>set d. nonblank x"
        "if ts then s = d \<and> s' = []
         else s = d @ s' \<and> n' = BUFFER_SIZE \<or> (\<exists>b. s = d @ b # s' \<and> \<not> nonblank b)"
      using 2(1) [OF _ e] 2(4) True by (auto simp: blank_le)
    have "take (n + 1) (buf[n := c]) = take n buf @ [c]"
      using True 2(4) by (simp add: take_Suc_conv_app_nth)
    then show ?thesis
      using d True by (intro exI [of _ "c # d"]) (auto split: if_splits)
  next
    case False
    then show ?thesis
      using 2(2,3) e by (intro exI [of _ "[]"]) (auto simp: blank_le split: if_splits)
  qed
qed

text \<open>A line is groups and a part of the next group.\<close>

lemma base64_text_last_group:
  assumes "t @ u = base64_text [a] \<or> t @ u = base64_text [a, b] \<or> t @ u = base64_group a b c @ v" "length t < 4"
  shows "(\<forall>x\<in>set t. alphabet x) \<or> last t = ascii CHR ''='' \<and> length t = 3 \<and> u = [ascii CHR ''='']"
proof -
  have g: "\<forall>x\<in>set (base64_group a b c). alphabet x" for a b c using alphabet_group by blast
  have sub: "set (take n xs) \<subseteq> set (base64_group a b c)" if "set xs \<subseteq> set (base64_group a b c)" for n a b c and xs :: bytes
    using that set_take_subset [of n xs] by blast
  have t: "t = take (length t) (t @ u)" "u = drop (length t) (t @ u)" by simp_all
  consider (one) "t @ u = base64_text [a]" | (two) "t @ u = base64_text [a, b]"
    | (full) "t @ u = base64_group a b c @ v" using assms(1) by blast
  then show ?thesis
  proof cases
    case one
    show ?thesis
    proof (cases "length t = 3")
      case True
      then show ?thesis using t unfolding one by (simp add: base64_group_digits)
    next
      case False
      then have "t = take (length t) (base64_group a 0 0)"
        using t(1) assms(2) unfolding one by (simp add: min_absorb1)
      then show ?thesis using g [of a 0 0] by (metis in_set_takeD)
    qed
  next
    case two
    then have "t = take (length t) (base64_group a b 0)"
      using t(1) assms(2) by (simp add: min_absorb1)
    then show ?thesis using g [of a b 0] by (metis in_set_takeD)
  next
    case full
    then have "t = take (length t) (base64_group a b c)"
      using t(1) assms(2) by simp
    then show ?thesis using g [of a b c] by (metis in_set_takeD)
  qed
qed

definition text_split :: "bytes \<Rightarrow> bytes \<Rightarrow> bytes \<Rightarrow> bytes \<Rightarrow> bytes \<Rightarrow> bytes \<Rightarrow> bool" where
  "text_split s t u s1 s2 p \<longleftrightarrow> s = s1 @ s2 \<and> t = base64_text s1 @ p \<and> p @ u = base64_text s2
    \<and> length p < 4 \<and> (length s1 mod 3 = 0 \<or> s2 = [])
    \<and> ((\<forall>x\<in>set p. alphabet x) \<or> last p = ascii CHR ''='' \<and> length p = 3 \<and> u = [ascii CHR ''=''])"

lemma base64_text_split: "base64_text s = t @ u \<Longrightarrow> \<exists>s1 s2 p. text_split s t u s1 s2 p"
proof (induction s arbitrary: t rule: base64_text.induct)
  case 1
  then show ?case by (intro exI [of _ "[]"]) (simp add: text_split_def)
next
  case (2 a)
  show ?case
  proof (cases "length t < 4")
    case True
    with base64_text_last_group [of t u a] 2 show ?thesis
      by (intro exI [of _ "[]"] exI [of _ "[a]"] exI [of _ t]) (simp add: text_split_def)
  next
    case False
    have "length t + length u = 4" using arg_cong [OF 2, of length] by simp
    then have "u = []" using False by (cases u) simp_all
    with 2 show ?thesis by (intro exI [of _ "[a]"] exI [of _ "[]"]) (simp add: text_split_def)
  qed
next
  case (3 a b)
  show ?case
  proof (cases "length t < 4")
    case True
    with base64_text_last_group [of t u a b] 3 show ?thesis
      by (intro exI [of _ "[]"] exI [of _ "[a, b]"] exI [of _ t]) (simp add: text_split_def)
  next
    case False
    have "length t + length u = 4" using arg_cong [OF 3, of length] by simp
    then have "u = []" using False by (cases u) simp_all
    with 3 show ?thesis by (intro exI [of _ "[a, b]"] exI [of _ "[]"]) (simp add: text_split_def)
  qed
next
  case (4 a b c s)
  show ?case
  proof (cases "length t < 4")
    case True
    with base64_text_last_group [of t u a b c "base64_text s"] 4(2) show ?thesis
      by (intro exI [of _ "[]"] exI [of _ "a # b # c # s"] exI [of _ t]) (simp add: text_split_def)
  next
    case False
    then have "take 4 (t @ u) = take 4 t" "drop 4 (t @ u) = drop 4 t @ u" by simp_all
    moreover have e: "t @ u = base64_group a b c @ base64_text s" using 4(2) by simp
    have "take 4 (t @ u) = base64_group a b c" "drop 4 (t @ u) = base64_text s" unfolding e by simp_all
    ultimately obtain t' where t: "t = base64_group a b c @ t'" "base64_text s = t' @ u"
      using append_take_drop_id [of 4 t] by metis
    obtain s1 s2 p where "text_split s t' u s1 s2 p" using 4(1) [OF t(2)] by blast
    then show ?thesis
      using t(1) length_mod_3 [of a b c s1] by (intro exI [of _ "a # b # c # s1"] exI [of _ s2] exI [of _ p]) (simp add: text_split_def)
  qed
qed

lemma c_string_at:
  "drop p mem = q @ 0 # r \<Longrightarrow> \<forall>x\<in>set q. x \<noteq> 0 \<Longrightarrow> c_string mem p = q"
  by (simp add: c_string_def takeWhile_append2)

lemma base64_text_Nil: "base64_text s = [] \<longleftrightarrow> s = []"
  by (cases s rule: base64_text.cases) (simp_all add: base64_group_digits)

text \<open>One line: the whole groups of the buffer are decoded, what is left moves to its front.\<close>

lemma line_split:
  assumes "fill_buf (- 1) s buf n = Filled ts s' buf' n'" "n < 4" "length buf = 82"
    and "\<forall>x\<in>set (take n buf). alphabet x" "take n buf @ filter nonblank s = base64_text bs" "pads_adjacent s"
  obtains b1 b2 p where "bs = b1 @ b2" "take n' buf' = base64_text b1 @ p" "p @ filter nonblank s' = base64_text b2"
    "length p < 4" "length b1 mod 3 = 0 \<or> p = []" "\<forall>x\<in>set p. alphabet x" "ts \<longrightarrow> b2 = []" "pads_adjacent s'"
proof -
  obtain c where c: "take n' buf' = take n buf @ c" "n' = n + length c" "\<forall>x\<in>set c. nonblank x"
      "if ts then s = c \<and> s' = []
       else s = c @ s' \<and> n' = BUFFER_SIZE \<or> (\<exists>b. s = c @ b # s' \<and> \<not> nonblank b)"
    using fill_buf_text [OF assms(1)] assms(2,3) by (auto simp: BUFFER_SIZE_def)
  have "filter nonblank s = c @ filter nonblank s'" using c(3,4) by (auto split: if_splits simp: filter_id_conv)
  then have t: "base64_text bs = take n' buf' @ filter nonblank s'" using assms(5) c(1) by simp
  obtain b1 b2 p where sp: "text_split bs (take n' buf') (filter nonblank s') b1 b2 p"
    using base64_text_split [OF t] by blast
  note b = sp [unfolded text_split_def, THEN conjunct1] sp [unfolded text_split_def, THEN conjunct2, THEN conjunct1]
    sp [unfolded text_split_def, THEN conjunct2, THEN conjunct2, THEN conjunct1]
  have b4: "length p < 4" "length b1 mod 3 = 0 \<or> b2 = []"
      "(\<forall>x\<in>set p. alphabet x) \<or> last p = ascii CHR ''='' \<and> length p = 3 \<and> filter nonblank s' = [ascii CHR ''='']"
    using sp by (simp_all only: text_split_def simp_thms)
  have pads: "pads_adjacent s'"
  proof (cases ts)
    case False
    then have "s = c @ s' \<or> (\<exists>b. s = (c @ [b]) @ s')" using c(4) by auto
    then show ?thesis using assms(6) pads_adjacent_append by metis
  qed (use c(4) in simp)
  have "\<not> (last p = ascii CHR ''='' \<and> length p = 3 \<and> filter nonblank s' = [ascii CHR ''=''])"
  proof
    assume a: "last p = ascii CHR ''='' \<and> length p = 3 \<and> filter nonblank s' = [ascii CHR ''='']"
    then have "last (take n buf @ c) = ascii CHR ''=''" "take n buf @ c \<noteq> []"
      using b(2) c(1) by (auto simp: last_append)
    moreover have "last (take n buf) \<noteq> ascii CHR ''=''" if "take n buf \<noteq> []"
      using that assms(4) alphabet_nonblank last_in_set by blast
    ultimately obtain d where d: "c = d @ [ascii CHR ''='']"
      by (cases c rule: rev_cases) (auto simp: last_append split: if_splits)
    have "ascii CHR ''='' \<in> set (filter nonblank s')" using a by simp
    then have m: "ascii CHR ''='' \<in> set s'" by simp
    have "length (take n' buf') = n'"
      using c(1,2) assms(2,3) by simp
    then have "n' = 4 * ((length b1 + 2) div 3) + 3" using b(2) a by (simp add: length_base64_text)
    then have "n' mod 4 = 3" by simp
    then have "n' \<noteq> BUFFER_SIZE" by (auto simp: BUFFER_SIZE_def)
    moreover have "\<not> ts" using c(4) m by auto
    ultimately obtain b where "s = d @ ascii CHR ''='' # b # s'" "\<not> nonblank b" using c(4) d by auto
    then show False using assms(6) m pads_adjacent_break by metis
  qed
  then have p: "\<forall>x\<in>set p. alphabet x" using b4(3) by blast
  have e: "ts \<Longrightarrow> p = base64_text b2" using b(3) c(4) by simp
  have "4 dvd length (base64_text b2)" by (simp add: length_base64_text)
  then have "ts \<Longrightarrow> base64_text b2 = []" using e b4(1) by (auto dest: dvd_imp_le)
  then show thesis
    using b b4(1,2) p pads base64_text_Nil by (intro that [of b1 b2 p]) auto
qed

lemma drop_update_end: "n < length mem \<Longrightarrow> mem[n := x] = take n mem @ x # drop (n + 1) mem"
  by (simp add: upd_conv_take_nth_drop)

text \<open>One round of the loop, by the string \<open>rest\<close> that its decoder leaves.\<close>

lemma read_line:
  assumes "fill_buf e s buf n = Filled ts s' buf' N" "decode_base64 (buf'[N := 0]) 0 0 = Some (mem, d, t)"
    and "N < length buf'" "d \<le> length mem" "drop t mem = rest @ 0 # r" "\<forall>x\<in>set rest. x \<noteq> 0"
  shows "read_base64_loop (Suc k) e False False s buf n out =
    (if ts then if rest = [] then Returned (out @ take d mem) else Truncated_input (out @ take d mem)
     else read_base64_loop k e False False s' (blit mem 0 rest) (length rest) (out @ take d mem))"
proof -
  have t: "t < length mem" using assms(5) drop_eq_Nil [of t mem] by (auto simp: not_le)
  have n: "mem ! t = 0 \<longleftrightarrow> rest = []"
    using assms(6) nth_via_drop [of t mem] by (cases rest) (simp_all add: assms(5))
  have "c_string mem t = rest" using c_string_at [OF assms(5,6)] .
  moreover have "0 \<in> set (drop t mem)" "take (length rest) (drop t mem) = rest" by (simp_all add: assms(5))
  ultimately show ?thesis
    using assms(3,4) t n by (simp add: assms(1,2) Let_def)
qed

lemma read_text_line:
  assumes "fill_buf (- 1) s buf n = Filled ts s' buf' N" "N \<le> 80" "length buf' = 82"
    and "take N buf' = base64_text b @ p" "\<forall>x\<in>set p. alphabet x" "length p < 4" "length b mod 3 = 0 \<or> p = []"
  obtains q where "length q = 82" "take (length p) q = p"
    "\<forall>k out. read_base64_loop (Suc k) (- 1) False False s buf n out =
      (if ts then if p = [] then Returned (out @ b) else Truncated_input (out @ b)
       else read_base64_loop k (- 1) False False s' q (length p) (out @ b))"
proof -
  define m where "m = buf'[N := 0]"
  have m: "drop 0 m = base64_text b @ p @ 0 # drop (N + 1) buf'"
    using drop_update_end [of N buf' 0] assms(2-4) by (simp add: m_def)
  obtain mem where mem: "decode_base64_loop m 0 0 0 0 = Some (mem, 0 + length b, 0 + length (base64_text b))"
      "take (0 + length b) mem = take 0 m @ b"
      "drop (0 + length (base64_text b)) mem = p @ 0 # drop (N + 1) buf'" "length mem = length m"
    using decode_text [OF m order_refl assms(5,6,7)] by blast
  have l: "length mem = 82" using mem(4) assms(3) by (simp add: m_def)
  have b: "length b \<le> length mem" using arg_cong [OF mem(2), of length] by simp
  have "decode_base64 (buf'[N := 0]) 0 0 = Some (mem, length b, length (base64_text b))"
    using mem(1) by (simp add: decode_base64_def m_def)
  note step = read_line [OF assms(1) this _ b mem(3) [unfolded add_0]]
  show thesis
  proof
    show "length (blit mem 0 p) = 82" "take (length p) (blit mem 0 p) = p"
      using assms(6) l by (simp_all add: blit_def)
    show "\<forall>k out. read_base64_loop (Suc k) (- 1) False False s buf n out =
      (if ts then if p = [] then Returned (out @ b) else Truncated_input (out @ b)
       else read_base64_loop k (- 1) False False s' (blit mem 0 p) (length p) (out @ b))"
      using step assms(2,3,5) mem(2) alphabet_nonblank by simp
  qed
qed

lemma read_base64_loop_text:
  "length s < k \<Longrightarrow> length buf = 82 \<Longrightarrow> n < 4 \<Longrightarrow> \<forall>x\<in>set (take n buf). alphabet x \<Longrightarrow>
    take n buf @ filter nonblank s = base64_text bs \<Longrightarrow> pads_adjacent s \<Longrightarrow>
    read_base64_loop k (- 1) False False s buf n out = Returned (out @ bs)"
proof (induction k arbitrary: s buf n bs out)
  case (Suc k)
  have n4: "n \<le> BUFFER_SIZE" "n < BUFFER_SIZE" using Suc.prems(3) by (simp_all add: BUFFER_SIZE_def)
  show ?case
  proof (cases "fill_buf (- 1) s buf n")
    case Fill_return
    then have "s = [] \<and> n = 0" by (rule fill_buf_nothing)
    then have "base64_text bs = []" using Suc.prems(5) by simp
    then have "bs = []" by (simp only: base64_text_Nil)
    with Fill_return show ?thesis by simp
  next
    case Fill_out_of_bounds
    then show ?thesis using fill_buf_inside [OF n4(1), of buf] Suc.prems(2) by (simp add: BUFFER_SIZE_def)
  next
    case (Filled ts s' buf' n')
    note fb = fill_buf_bounds [OF Filled n4(1)]
    have n': "n' \<le> 80" "length buf' = 82" "ts \<or> length s' < length s"
      using fb n4(2) Suc.prems(2) by (simp_all add: BUFFER_SIZE_def)
    obtain b1 b2 p where b: "bs = b1 @ b2" "take n' buf' = base64_text b1 @ p"
        "p @ filter nonblank s' = base64_text b2" "length p < 4" "length b1 mod 3 = 0 \<or> p = []"
        "\<forall>x\<in>set p. alphabet x" "ts \<longrightarrow> b2 = []" "pads_adjacent s'"
      using line_split [OF Filled Suc.prems(3,2,4,5,6)] .
    obtain q where q: "length q = 82" "take (length p) q = p"
      and step: "\<forall>k out. read_base64_loop (Suc k) (- 1) False False s buf n out =
        (if ts then if p = [] then Returned (out @ b1) else Truncated_input (out @ b1)
         else read_base64_loop k (- 1) False False s' q (length p) (out @ b1))"
      using read_text_line [OF Filled n'(1,2) b(2,6,4,5)] .
    show ?thesis
    proof (cases ts)
      case True
      then have "p = []" "b2 = []" using b(3,7) by simp_all
      then show ?thesis using True b(1) step by simp
    next
      case False
      have "read_base64_loop k (- 1) False False s' q (length p) (out @ b1) = Returned ((out @ b1) @ b2)"
        using Suc.prems(1) n'(3) False b(3,4,6,8) q by (intro Suc.IH) simp_all
      then show ?thesis using b(1) False step by simp
    qed
  qed
qed simp

section \<open>Properties\<close>

lemma eof_flags: "sint (ucast (0xFF :: u32) :: u8) = - 1" "(0xFF :: u32) AND BASE64_FLAG_UU_STOP = 0"
    "(0xFF :: u32) AND BASE64_32 = 0"
  by (simp_all add: BASE64_FLAG_UU_STOP_def BASE64_32_def)

text \<open>
  Property C26. \<open>bb_uuencode\<close> with the base64 table writes the base64 of RFC 4648 with its pads and a
  terminating zero, and \<open>read_base64\<close> up to the end of the file gives back the data from any stream
  that holds this text with blanks and control characters anywhere but between the two pads,
  whatever the lengths of the lines.
\<close>

theorem base64_stream_roundtrip:
  assumes "filter nonblank s = base64_text bs" "pads_adjacent s"
    and "length stack = BUFFER_SIZE + 2" "length s < fuel"
  shows "bb_uuencode bs (int (length bs)) bb_uuenc_tbl_base64 = base64_text bs @ [0]
    \<and> read_base64 fuel stack s 0xFF = Returned bs"
proof -
  have "read_base64_loop fuel (- 1) False False s stack 0 [] = Returned ([] @ bs)"
    using assms by (intro read_base64_loop_text) (simp_all add: BUFFER_SIZE_def)
  then show ?thesis by (simp add: read_base64_def eof_flags bb_uuencode_base64_text)
qed

lemma base64_stream_roundtrip_witness:
  defines "s \<equiv> map ascii ''TW'' @ [10, 10] @ map ascii ''E='' @ [10]"
  shows "bb_uuencode (map ascii ''Ma'') (int (length (map ascii ''Ma''))) bb_uuenc_tbl_base64
      = base64_text (map ascii ''Ma'') @ [0]
    \<and> read_base64 9 (replicate 82 0) s 0xFF = Returned (map ascii ''Ma'')"
proof (rule base64_stream_roundtrip)
  have "bb_uuencode (map ascii ''Ma'') 2 bb_uuenc_tbl_base64 = map ascii ''TWE='' @ [0]" by code_simp
  then have t: "base64_text (map ascii ''Ma'') = map ascii ''TWE=''"
    using bb_uuencode_base64_text [of "map ascii ''Ma''"] by simp
  show "filter nonblank s = base64_text (map ascii ''Ma'')" unfolding t s_def by code_simp
  show "pads_adjacent s" unfolding s_def by code_simp
  show "length (replicate 82 0 :: bytes) = BUFFER_SIZE + 2" by (simp add: BUFFER_SIZE_def)
  show "length s < 9" by (simp add: s_def)
qed

end
