(* ===== verification/Base64_Bounds.thy ===== *)
theory Base64_Bounds
  imports Base64_Correct
begin

text \<open>
  On every stream the decoders stay inside the buffer and stop. The terminator that \<open>read_base64\<close>
  stores is never overwritten, because the data is never longer than the text it is decoded from.
\<close>

lemma c_string_le:
  assumes "mem ! N = 0" "t \<le> N" "N < length mem"
  shows "length (c_string mem t) \<le> N - t"
proof (rule ccontr)
  assume "\<not> length (c_string mem t) \<le> N - t"
  then have l: "N - t < length (takeWhile (\<lambda>c. c \<noteq> 0) (drop t mem))" by (simp add: c_string_def)
  then have "takeWhile (\<lambda>c. c \<noteq> 0) (drop t mem) ! (N - t) = 0"
    using assms by (simp add: takeWhile_nth)
  then show False using nth_mem [OF l] by (auto dest: set_takeWhileD)
qed

text \<open>What a decoder leaves: data and rest end before the terminator, and the rest leaves room.\<close>

definition decoded_in :: "nat \<Rightarrow> nat \<Rightarrow> (bytes \<times> nat \<times> nat) option \<Rightarrow> bool" where
  "decoded_in N l r \<longleftrightarrow> (\<exists>mem d t. r = Some (mem, d, t) \<and> length mem = l \<and> mem ! N = 0 \<and> d \<le> N \<and> t \<le> N
     \<and> (length (c_string mem t) < 8 \<or> length (c_string mem t) + 4 \<le> N))"

lemma decoded_at_end:
  assumes "mem ! src = 0" "src \<le> N" "N < length mem" "mem ! N = 0" "d \<le> N" "i < 8" "i \<le> src" "l = length mem"
  shows "decoded_in N l (Some (mem, d, src - i))"
  using assms c_string_le [of mem src "src - i"] by (auto simp: decoded_in_def)

lemma decoded_after:
  assumes "mem ! N = 0" "4 \<le> src" "src \<le> N" "N < length mem" "d \<le> N" "l = length mem"
  shows "decoded_in N l (Some (mem, d, src))"
  using assms c_string_le [of mem N src] by (auto simp: decoded_in_def)

lemma decode_base64_loop_in:
  "src \<le> N \<Longrightarrow> N < length mem \<Longrightarrow> mem ! N = 0 \<Longrightarrow> dst + i \<le> src \<Longrightarrow> i < 4 \<Longrightarrow>
    decoded_in N (length mem) (decode_base64_loop mem dst src ch i)"
proof (induction "N - src" arbitrary: mem dst src ch i rule: less_induct)
  case less
  note b = less.prems
  show ?case
  proof (cases "mem ! src = 0")
    case True
    then show ?thesis
      using b by (subst decode_base64_loop.simps) (auto intro!: decoded_at_end)
  next
    case False
    then have s: "src + 1 \<le> N" using b(1,3) by (cases "src = N") auto
    note IH = less.hyps [where src = "src + 1"]
    show ?thesis
    proof (cases "base64_digit mem (src + 1) i (mem ! src)")
      case None
      then have "decode_base64_loop mem dst src ch i = decode_base64_loop mem dst (src + 1) ch i"
        using b False s by (intro decode_skip) simp_all
      then show ?thesis using IH [of mem dst i ch] b s by simp
    next
      case (Some t)
      define w where "w = push_bit 6 ch OR t"
      show ?thesis
      proof (cases "i = 3")
        case True
        define mem' where "mem' = mem[dst := ucast (drop_bit 16 w), dst + 1 := ucast (drop_bit 8 w), dst + 2 := ucast w]"
        have m: "length mem' = length mem" "mem' ! N = 0" using b s True by (simp_all add: mem'_def)
        have "decode_base64_loop mem dst src ch i =
            (if w AND 0x1000000 \<noteq> 0
             then Some (mem', if w AND push_bit 6 0x1000000 \<noteq> 0 then dst + 1 else dst + 2, src + 1)
             else decode_base64_loop mem' (dst + 3) (src + 1) 0 0)"
          unfolding True mem'_def using False Some True b s by (intro decode_last [of src mem t]) (simp_all add: w_def)
        moreover have "decoded_in N (length mem) (decode_base64_loop mem' (dst + 3) (src + 1) 0 0)"
          using IH [of mem' "dst + 3" 0 0] b s m True by simp
        ultimately show ?thesis
          using m b True s by (auto intro!: decoded_after)
      next
        case i: False
        then have "decode_base64_loop mem dst src ch i = decode_base64_loop mem dst (src + 1) w (i + 1)"
          using False Some b s unfolding w_def by (intro decode_step) simp_all
        then show ?thesis using IH [of mem dst "i + 1" w] b i s by simp
      qed
    qed
  qed
qed

text \<open>
  The pads of a base32 group. Its second digit is never a pad, so that from then on the run of pads
  at the source pointer is shorter than the group by two, and data is not written over it.
\<close>

definition pads_bounded :: "bytes \<Rightarrow> nat \<Rightarrow> nat \<Rightarrow> nat \<Rightarrow> bool" where
  "pads_bounded mem dst src i \<longleftrightarrow>
     (\<exists>c. count_pads mem src = Some c \<and> c + 2 \<le> i \<and> dst + c + 1 < src)"

lemma count_pads_update:
  "count_pads mem s = Some c \<Longrightarrow> dst + c + 1 < s \<Longrightarrow> count_pads (mem[dst := x]) s = Some c"
proof (induction s arbitrary: c)
  case (Suc s)
  then show ?case by (cases "mem ! s = ascii CHR ''=''") auto
qed simp

lemma pads_bounded_other:
  "mem ! src \<noteq> ascii CHR ''='' \<Longrightarrow> 2 \<le> i \<Longrightarrow> dst + 1 \<le> src \<Longrightarrow> pads_bounded mem dst (src + 1) i"
  by (simp add: pads_bounded_def)

lemma pads_bounded_pad:
  "pads_bounded mem dst src i \<Longrightarrow> mem ! src = ascii CHR ''='' \<Longrightarrow> pads_bounded mem dst (src + 1) (i + 1)"
  by (auto simp: pads_bounded_def)

lemma base32_digit_pad:
  "base32_digit i (ascii CHR ''='') = (if i > 1 then Some 0 else None)"
  by (simp add: base32_digit_def ascii_def Let_def)

lemma pads_bounded_next:
  assumes "2 \<le> i \<longrightarrow> pads_bounded mem dst src i" "dst + i \<le> src"
  shows "base32_digit i (mem ! src) = None \<Longrightarrow> 2 \<le> i \<Longrightarrow> pads_bounded mem dst (src + 1) i"
    and "base32_digit i (mem ! src) = Some t \<Longrightarrow> 1 \<le> i \<Longrightarrow> pads_bounded mem dst (src + 1) (i + 1)"
proof -
  show "pads_bounded mem dst (src + 1) i" if "base32_digit i (mem ! src) = None" "2 \<le> i"
    using that assms(2) base32_digit_pad [of i] by (intro pads_bounded_other) auto
  show "pads_bounded mem dst (src + 1) (i + 1)" if "base32_digit i (mem ! src) = Some t" "1 \<le> i"
  proof (cases "mem ! src = ascii CHR ''=''")
    case True
    then have "2 \<le> i" using that(1) base32_digit_pad [of i] by (auto split: if_splits)
    then show ?thesis using True assms(1) by (intro pads_bounded_pad) simp_all
  next
    case False
    then show ?thesis using that(2) assms(2) by (intro pads_bounded_other) simp_all
  qed
qed

lemma decode_base32_group:
  fixes ch :: u64
  assumes "src < length mem" "mem ! src \<noteq> 0" "base32_digit 7 (mem ! src) = Some t" "dst + 7 \<le> src"
    and "pads_bounded mem dst (src + 1) 8"
  defines "w \<equiv> push_bit 5 ch OR ucast t"
  shows "\<exists>mem' d. length mem' = length mem \<and> d \<le> dst + 5 \<and> (\<forall>n \<ge> dst + 5. mem' ! n = mem ! n)
      \<and> (decode_base32_loop mem dst src ch 7 = Some (mem', d, src + 1)
        \<or> decode_base32_loop mem dst src ch 7 = decode_base32_loop mem' (dst + 5) (src + 1) w 0)"
proof -
  define m1 where "m1 = mem[dst := ucast (drop_bit 32 w)]"
  define m2 where "m2 = m1[dst + 1 := ucast (drop_bit 24 w), dst + 1 + 1 := ucast (drop_bit 16 w),
                           dst + 1 + 2 := ucast (drop_bit 8 w), dst + 1 + 3 := ucast w]"
  obtain n where n: "count_pads mem (src + 1) = Some n" "n \<le> 6" "dst + n + 1 < src + 1"
    using assms(5) by (auto simp: pads_bounded_def)
  have cp: "count_pads m1 (src + 1) = Some n" unfolding m1_def by (rule count_pads_update [OF n(1,3)])
  have small: "(n + 1) * 2 div 3 \<le> 5" using n(2) by simp
  have c: "length mem \<le> src \<longleftrightarrow> False" "mem ! src = 0 \<longleftrightarrow> False" "length mem < dst + 5 \<longleftrightarrow> False"
      "(7 + 1) mod 8 = (0 :: nat)" "src + 1 - 1 = src" "dst + 1 + 4 = dst + 5"
      "dst + 5 < (n + 1) * 2 div 3 \<longleftrightarrow> False"
    using assms(1,2,4) small by simp_all
  have e: "decode_base32_loop mem dst src ch 7 =
      (case if m1 ! src = ascii CHR ''='' then Some (Some n) else None of
         None \<Rightarrow> decode_base32_loop m2 (dst + 5) (src + 1) w 0
       | Some None \<Rightarrow> None
       | Some (Some i) \<Rightarrow> if dst + 5 < (i + 1) * 2 div 3 then None
                        else Some (m2, dst + 5 - (i + 1) * 2 div 3, src + 1))"
    unfolding decode_base32_loop.simps [of mem dst src ch 7] Let_def c(1,2) if_False assms(3) option.case c(3-6)
      w_def [symmetric] m1_def [symmetric] m2_def [symmetric] cp
    by (simp only: refl if_True)
  have "decode_base32_loop mem dst src ch 7 = Some (m2, dst + 5 - (n + 1) * 2 div 3, src + 1)
      \<or> decode_base32_loop mem dst src ch 7 = decode_base32_loop m2 (dst + 5) (src + 1) w 0"
    unfolding e by (cases "m1 ! src = ascii CHR ''=''") (simp_all only: if_True if_False option.case c(7) simp_thms)
  moreover have "length m2 = length mem" "\<forall>n \<ge> dst + 5. m2 ! n = mem ! n" by (simp_all add: m1_def m2_def)
  ultimately show ?thesis by (metis diff_le_self)
qed

lemma decode_base32_step:
  assumes "src < length mem" "mem ! src \<noteq> 0" "base32_digit i (mem ! src) = Some t" "i < 7"
  shows "decode_base32_loop mem dst src ch i = decode_base32_loop mem dst (src + 1) (push_bit 5 ch OR ucast t) (i + 1)"
  using assms by (subst decode_base32_loop.simps) (simp add: Let_def)

lemma decode_base32_loop_in:
  "src \<le> N \<Longrightarrow> N < length mem \<Longrightarrow> mem ! N = 0 \<Longrightarrow> dst + i \<le> src \<Longrightarrow> i < 8 \<Longrightarrow>
    2 \<le> i \<longrightarrow> pads_bounded mem dst src i \<Longrightarrow>
    decoded_in N (length mem) (decode_base32_loop mem dst src ch i)"
proof (induction "N - src" arbitrary: mem dst src ch i rule: less_induct)
  case less
  note b = less.prems
  show ?case
  proof (cases "mem ! src = 0")
    case True
    then show ?thesis
      using b by (subst decode_base32_loop.simps) (auto intro!: decoded_at_end)
  next
    case False
    then have s: "src + 1 \<le> N" using b(1,3) by (cases "src = N") auto
    note IH = less.hyps [where src = "src + 1"]
    note pads = pads_bounded_next [OF b(6,4)]
    show ?thesis
    proof (cases "base32_digit i (mem ! src)")
      case None
      then have "decode_base32_loop mem dst src ch i = decode_base32_loop mem dst (src + 1) ch i"
        using b False by (subst decode_base32_loop.simps) simp
      then show ?thesis using IH [of mem dst i ch] b s pads(1) [OF None] by simp
    next
      case (Some t)
      show ?thesis
      proof (cases "i = 7")
        case True
        obtain mem' d where m: "length mem' = length mem" "d \<le> dst + 5" "\<forall>n \<ge> dst + 5. mem' ! n = mem ! n"
            "decode_base32_loop mem dst src ch i = Some (mem', d, src + 1)
             \<or> decode_base32_loop mem dst src ch i = decode_base32_loop mem' (dst + 5) (src + 1) (push_bit 5 ch OR ucast t) 0"
          using decode_base32_group [of src mem t dst ch] pads(2) [OF Some] Some False b s True by auto
        have z: "mem' ! N = 0" using m(3) b s True by simp
        have "decoded_in N (length mem) (Some (mem', d, src + 1))"
          using m z b s True by (intro decoded_after) simp_all
        moreover have "decoded_in N (length mem) (decode_base32_loop mem' (dst + 5) (src + 1) (push_bit 5 ch OR ucast t) 0)"
          using IH [of mem' "dst + 5" 0 "push_bit 5 ch OR ucast t"] b s m(1) z True by simp
        ultimately show ?thesis using m(4) by (elim disjE) simp_all
      next
        case i: False
        then have "decode_base32_loop mem dst src ch i
            = decode_base32_loop mem dst (src + 1) (push_bit 5 ch OR ucast t) (i + 1)"
          using False Some b by (intro decode_base32_step) simp_all
        then show ?thesis using IH [of mem dst "i + 1"] b i s pads(2) [OF Some] by simp
      qed
    qed
  qed
qed

lemma read_base64_loop_stops:
  "length s < k \<Longrightarrow> length buf = 82 \<Longrightarrow> n < 80 \<Longrightarrow>
    read_base64_loop k e uu b32 s buf n out \<notin> {Out_of_bounds, Out_of_fuel}"
proof (induction k arbitrary: s buf n out)
  case (Suc k)
  have n: "n \<le> BUFFER_SIZE" "n < BUFFER_SIZE" "BUFFER_SIZE < length buf"
    using Suc.prems(2,3) by (simp_all add: BUFFER_SIZE_def)
  show ?case
  proof (cases "fill_buf e s buf n")
    case Fill_return
    then show ?thesis by simp
  next
    case Fill_out_of_bounds
    then show ?thesis using fill_buf_inside [OF n(1,3)] by simp
  next
    case (Filled ts s' buf' N)
    have f: "N \<le> 80" "length buf' = 82" "ts \<or> length s' < length s"
      using fill_buf_bounds [OF Filled n(1)] n(2) Suc.prems(2) by (simp_all add: BUFFER_SIZE_def)
    define m where "m = buf'[N := 0]"
    define r where "r = (if b32 then decode_base32 m 0 0 else decode_base64 m 0 0)"
    have m: "length m = 82" "m ! N = 0" using f by (simp_all add: m_def)
    have "decoded_in N (length m) r"
      using decode_base32_loop_in [of 0 N m 0 0 0] decode_base64_loop_in [of 0 N m 0 0 0] f(1) m
      by (simp add: r_def decode_base32_def decode_base64_def)
    then obtain mem d t where r: "r = Some (mem, d, t)" "length mem = 82" "d \<le> N" "t \<le> N"
        "length (c_string mem t) < 80" "mem ! N = 0"
      using m(1) f(1) unfolding decoded_in_def by fastforce
    have inside: "\<not> length buf' \<le> N" "\<not> length mem < d" "\<not> length mem \<le> t" "\<not> 0 \<notin> set (drop t mem)"
    proof -
      show "\<not> length buf' \<le> N" "\<not> length mem < d" "\<not> length mem \<le> t" using f(1,2) r(2-4) by simp_all
      have "drop t mem ! (N - t) = 0" using r(2,4,6) f(1) by simp
      then show "\<not> 0 \<notin> set (drop t mem)" using nth_mem [of "N - t" "drop t mem"] r(2,4) f(1) by simp
    qed
    define q where "q = blit mem 0 (take (length (c_string mem t)) (drop t mem))"
    have "length q = 82" using r(2) by (simp add: q_def blit_def)
    then have IH: "read_base64_loop k e uu b32 s' q (length (c_string mem t)) out' \<notin> {Out_of_bounds, Out_of_fuel}"
      if "\<not> ts" for out'
      using Suc.IH [of s' q] Suc.prems(1) f(3) r(5) that by simp
    have "read_base64_loop (Suc k) e uu b32 s buf n out =
        (if uu \<and> c_string m 0 = map ascii ''===='' then Returned out
         else if ts then if mem ! t = 0 then Returned (out @ take d mem) else Truncated_input (out @ take d mem)
         else read_base64_loop k e uu b32 s' q (length (c_string mem t)) (out @ take d mem))"
      by (simp only: read_base64_loop.simps Filled fill_stop.case Let_def m_def [symmetric] r_def [symmetric]
          r(1) option.case prod.case q_def inside if_False)
    then show ?thesis using IH by simp
  qed
qed simp

section \<open>Properties\<close>

text \<open>
  Property C27. On every stream and with every flag, base64 or base32, \<open>read_base64\<close> and its decoders
  read and write only their buffer, keep their pointers inside it, and end: the reader returns or
  dies on a truncated input, after at most one round of its loop for each byte of the stream.
\<close>

theorem read_base64_safe:
  assumes "length stack = BUFFER_SIZE + 2" "length stream < fuel"
  shows "\<exists>out. read_base64 fuel stack stream flags \<in> {Returned out, Truncated_input out}"
proof -
  have "read_base64 fuel stack stream flags \<notin> {Out_of_bounds, Out_of_fuel}"
    unfolding read_base64_def using assms by (intro read_base64_loop_stops) (simp_all add: BUFFER_SIZE_def)
  then show ?thesis by (cases "read_base64 fuel stack stream flags") auto
qed

lemma read_base64_safe_witness:
  "\<exists>out. read_base64 12 (replicate 82 0) (map ascii ''=MY======'') 0x3FF \<in> {Returned out, Truncated_input out}"
  by (rule read_base64_safe) (simp_all add: BUFFER_SIZE_def)

end
