(* ===== verification/Base64_Break.thy ===== *)
theory Base64_Break
  imports Base64_Correct
begin

text \<open>
  What \<open>read_base64\<close> makes of a text that is broken between its two pads. The first pad is skipped,
  because the second is not yet in the buffer; then the unused digits are counted back from the
  end of the buffer, where the skipped pad stands, so that the wrong characters are kept. The last
  byte of the data is lost, and in most cases without an error.
\<close>

definition pad :: u8 where "pad = ascii CHR ''=''"

lemma pad_facts: "pad \<noteq> 0" "nonblank pad" "\<not> alphabet pad"
  using alphabet_nonblank [of pad] by (auto simp: pad_def nonblank_def ascii_def)

section \<open>The decoder on misplaced pads\<close>

lemma early_pad: "i < 2 \<Longrightarrow> base64_digit mem src i pad = None"
  by (simp add: base64_digit_def pad_def ascii_def)

lemma single_pad: "mem ! src \<noteq> pad \<Longrightarrow> base64_digit mem src 2 pad = None"
  by (simp add: base64_digit_def pad_def ascii_def)

lemma drop_next:
  assumes "drop src mem = x # q" "q \<noteq> []"
  shows "src + 1 < length mem" "mem ! src = x" "drop (src + 1) mem = q"
proof -
  show q: "drop (src + 1) mem = q"
    using assms(1) by (metis Suc_eq_plus1 drop_Suc list.sel(3) tl_drop)
  then show "src + 1 < length mem" using assms(2) drop_eq_Nil [of "src + 1" mem] by (auto simp: not_le)
  show "mem ! src = x" using assms(1) by (rule nth_via_drop)
qed

lemma decode_pads:
  "drop src mem = replicate k pad @ 0 # r \<Longrightarrow> i < 2 \<Longrightarrow> i \<le> src \<Longrightarrow>
    decode_base64_loop mem dst src ch i = Some (mem, dst, src + k - i)"
proof (induction k arbitrary: src)
  case 0
  then have d: "drop src mem = 0 # r" by simp
  then have "src < length mem" "mem ! src = 0"
    using drop_eq_Nil [of src mem] nth_via_drop [OF d] by (auto simp: not_le)
  then show ?case using 0(3) by (simp add: decode_stop)
next
  case (Suc k)
  then have d: "drop src mem = pad # (replicate k pad @ 0 # r)" by simp
  note n = drop_next [OF d]
  have "decode_base64_loop mem dst src ch i = decode_base64_loop mem dst (src + 1) ch i"
    using n(1,2) pad_facts(1) early_pad [OF Suc.prems(2)] by (intro decode_skip) simp_all
  also have "\<dots> = Some (mem, dst, src + 1 + k - i)"
    using n(3) Suc.prems(2,3) by (intro Suc.IH) simp_all
  finally show ?case by simp
qed

lemma decode_digit_pads:
  assumes "drop src mem = y # replicate k pad @ 0 # r" "alphabet y"
  shows "decode_base64_loop mem dst src ch 0 = Some (mem, dst, src + k)"
proof -
  obtain d where d: "\<And>mem src i. base64_digit mem src i y = Some d" "y \<noteq> 0" using assms(2) by (auto elim: alphabetE)
  note n = drop_next [OF assms(1)]
  have "decode_base64_loop mem dst src ch 0 = decode_base64_loop mem dst (src + 1) (push_bit 6 ch OR d) 1"
    using n(1,2) d decode_step [of src mem 0 d dst ch] by simp
  also have "\<dots> = Some (mem, dst, src + 1 + k - 1)"
    using n(3) by (intro decode_pads) simp_all
  finally show ?thesis by simp
qed

lemma decode_first_pad:
  assumes "drop src mem = [x, y, pad] @ 0 # r" "alphabet x" "alphabet y"
  shows "decode_base64_loop mem dst src 0 0 = Some (mem, dst, src + 1)"
proof -
  obtain d1 where d1: "\<And>mem src i. base64_digit mem src i x = Some d1" "x \<noteq> 0" using assms(2) by (auto elim: alphabetE)
  obtain d2 where d2: "\<And>mem src i. base64_digit mem src i y = Some d2" "y \<noteq> 0" using assms(3) by (auto elim: alphabetE)
  have "drop src mem = x # y # pad # 0 # r" using assms(1) by simp
  note n1 = drop_next [OF this list.distinct(2)]
  note n2 = drop_next [OF n1(3) list.distinct(2)]
  note n3 = drop_next [OF n2(3) list.distinct(2)]
  have z: "mem ! (src + 1 + 1 + 1) = 0" by (rule nth_via_drop [OF n3(3)])
  have "decode_base64_loop mem dst src 0 0 = decode_base64_loop mem dst (src + 1) (push_bit 6 0 OR d1) 1"
    using n1(1,2) d1 decode_step [of src mem 0 d1 dst 0] by simp
  also have "\<dots> = decode_base64_loop mem dst (src + 1 + 1) (push_bit 6 (push_bit 6 0 OR d1) OR d2) 2"
    using n2(1,2) d2 decode_step [of "src + 1" mem 1 d2 dst "push_bit 6 0 OR d1"] by (simp add: small_numerals)
  also have "\<dots> = decode_base64_loop mem dst (src + 1 + 1 + 1) (push_bit 6 (push_bit 6 0 OR d1) OR d2) 2"
    using n3(1,2) pad_facts(1) z by (intro decode_skip) (simp_all add: single_pad)
  also have "\<dots> = Some (mem, dst, src + 1 + 1 + 1 - 2)"
    using n3(1) z by (intro decode_stop) simp_all
  finally show ?thesis by simp
qed

lemma decode_groups:
  "drop src mem = base64_text s @ q \<Longrightarrow> length s mod 3 = 0 \<Longrightarrow> dst \<le> src \<Longrightarrow>
    \<exists>mem'. decode_base64_loop mem dst src 0 0
        = decode_base64_loop mem' (dst + length s) (src + length (base64_text s)) 0 0
      \<and> take (dst + length s) mem' = take dst mem @ s
      \<and> drop (src + length (base64_text s)) mem' = q \<and> length mem' = length mem"
proof (induction s arbitrary: mem dst src rule: base64_text.induct)
  case (4 a b c s)
  note group = decode_group [OF 4(2) [unfolded base64_text.simps append_assoc] 4(4)]
  have "length s mod 3 = 0" using 4(3) unfolding length_mod_3 .
  then obtain mem' where i: "decode_base64_loop (blit mem dst [a, b, c]) (dst + 3) (src + 4) 0 0
        = decode_base64_loop mem' ((dst + 3) + length s) ((src + 4) + length (base64_text s)) 0 0"
      "take ((dst + 3) + length s) mem' = (take dst mem @ [a, b, c]) @ s"
      "drop ((src + 4) + length (base64_text s)) mem' = q" "length mem' = length (blit mem dst [a, b, c])"
    using 4(1) [of "src + 4" "blit mem dst [a, b, c]" "dst + 3"] 4(4) group(2,3) by auto
  have e: "dst + length (a # b # c # s) = (dst + 3) + length s"
      "src + length (base64_text (a # b # c # s)) = (src + 4) + length (base64_text s)" by simp_all
  show ?case unfolding group(1) e using i group(4) by (intro exI [of _ mem']) simp
qed auto

section \<open>The rest of the stream\<close>

text \<open>Pads without digits are skipped to the end of the stream.\<close>

lemma fill_buf_step:
  assumes "fill_buf (- 1) s buf n = Filled ts s' buf' n'" "n < BUFFER_SIZE" "length buf = 82"
  obtains c where "take n' buf' = take n buf @ c" "n' = n + length c" "\<forall>x\<in>set c. nonblank x"
    "if ts then s = c \<and> s' = [] else s = c @ s' \<and> n' = BUFFER_SIZE \<or> (\<exists>b. s = c @ b # s' \<and> \<not> nonblank b)"
    "n' \<le> 80" "length buf' = 82" "ts \<or> length s' < length s"
proof -
  have n: "n \<le> BUFFER_SIZE" using assms(2) by simp
  have "BUFFER_SIZE < length buf" using assms(3) by (simp add: BUFFER_SIZE_def)
  then show thesis
    using fill_buf_text [OF assms(1) n] fill_buf_bounds [OF assms(1) n] assms(2,3) that
    by (auto simp: BUFFER_SIZE_def)
qed

lemma all_pads: "\<forall>x\<in>set q. x = pad \<Longrightarrow> q = replicate (length q) pad"
  by (induction q) auto

lemma read_pads:
  "length s < k \<Longrightarrow> length buf = 82 \<Longrightarrow> n < 80 \<Longrightarrow> \<forall>x\<in>set (take n buf). x = pad \<Longrightarrow>
    \<forall>x\<in>set s. nonblank x \<longrightarrow> x = pad \<Longrightarrow>
    read_base64_loop k (- 1) False False s buf n out = Returned out"
proof (induction k arbitrary: s buf n out)
  case (Suc k)
  have n: "n \<le> BUFFER_SIZE" "n < BUFFER_SIZE" using Suc.prems(3) by (simp_all add: BUFFER_SIZE_def)
  show ?case
  proof (cases "fill_buf (- 1) s buf n")
    case Fill_return
    then show ?thesis by simp
  next
    case Fill_out_of_bounds
    then show ?thesis using fill_buf_inside [OF n(1), of buf] Suc.prems(2) by (simp add: BUFFER_SIZE_def)
  next
    case (Filled ts s' buf' n')
    obtain c where c: "take n' buf' = take n buf @ c" "\<forall>x\<in>set c. nonblank x"
        "if ts then s = c \<and> s' = [] else s = c @ s' \<and> n' = BUFFER_SIZE \<or> (\<exists>b. s = c @ b # s' \<and> \<not> nonblank b)"
        "n' \<le> 80" "length buf' = 82" "ts \<or> length s' < length s"
      using fill_buf_step [OF Filled n(2) Suc.prems(2)] by metis
    have sub: "set c \<subseteq> set s" "set s' \<subseteq> set s" using c(3) by (auto split: if_splits)
    then have "\<forall>x\<in>set (take n' buf'). x = pad" using c(1,2) Suc.prems(4,5) by auto
    then have p: "take n' buf' = replicate n' pad" using all_pads [of "take n' buf'"] c(4,5) by simp
    define m where "m = buf'[n' := 0]"
    have m: "drop 0 m = replicate n' pad @ 0 # drop (n' + 1) buf'"
      using drop_update_end [of n' buf' 0] c(4,5) p by (simp add: m_def)
    have "decode_base64 m 0 0 = Some (m, 0, n')"
      using decode_pads [OF m] by (simp add: decode_base64_def)
    moreover have "drop n' m = [] @ 0 # drop (n' + 1) buf'" using m c(4,5) by simp
    ultimately have step: "read_base64_loop (Suc k) (- 1) False False s buf n out =
        (if ts then Returned out else read_base64_loop k (- 1) False False s' m 0 out)"
      using read_line [OF Filled, of m 0 n' "[]"] c(4,5) by (simp add: m_def)
    show ?thesis
    proof (cases ts)
      case False
      then have "read_base64_loop k (- 1) False False s' m 0 out = Returned out"
        using c(5,6) Suc.prems(1,5) sub(2) by (intro Suc.IH) (auto simp: m_def)
      then show ?thesis using step False by simp
    qed (use step in \<open>simp only: if_True\<close>)
  qed
qed simp

text \<open>A digit and a pad are left of the broken group when the rest of the stream is read.\<close>

lemma read_digit_pad:
  assumes "length (w @ pad # v) < k" "length buf = 82" "take 2 buf = [y, pad]" "alphabet y"
    and blank: "\<forall>x\<in>set (w @ v). \<not> nonblank x"
  shows "read_base64_loop k (- 1) False False (w @ pad # v) buf 2 out =
    (if w = [] \<and> v = [] then Truncated_input out else Returned out)"
proof -
  obtain j where j: "k = Suc j" using assms(1) by (cases k) auto
  have n: "2 \<le> BUFFER_SIZE" "2 < BUFFER_SIZE" by (simp_all add: BUFFER_SIZE_def)
  show ?thesis
  proof (cases "fill_buf (- 1) (w @ pad # v) buf 2")
    case Fill_return
    then show ?thesis using fill_buf_nothing by blast
  next
    case Fill_out_of_bounds
    then show ?thesis using fill_buf_inside [OF n(1), of buf] assms(2) by (simp add: BUFFER_SIZE_def)
  next
    case (Filled ts s' buf' n')
    obtain c where c: "take n' buf' = [y, pad] @ c" "n' = 2 + length c" "\<forall>x\<in>set c. nonblank x"
        "if ts then w @ pad # v = c \<and> s' = []
         else w @ pad # v = c @ s' \<and> n' = BUFFER_SIZE \<or> (\<exists>b. w @ pad # v = c @ b # s' \<and> \<not> nonblank b)"
        "n' \<le> 80" "length buf' = 82" "ts \<or> length s' < length (w @ pad # v)"
      using fill_buf_step [OF Filled n(2) assms(2)] assms(3) by metis
    have cs: "(ts \<longleftrightarrow> w = [] \<and> v = []) \<and> c = (if w = [] then [pad] else []) \<and> set s' \<subseteq> insert pad (set (w @ v))"
    proof (cases w)
      case Nil
      show ?thesis
      proof (cases v)
        case Nil
        then show ?thesis
          using c(2,4) \<open>w = []\<close> pad_facts(2) by (cases c) (auto simp: BUFFER_SIZE_def split: if_splits)
      next
        case (Cons b v')
        then have "\<not> nonblank b" using blank by simp
        then have "c = [pad] \<and> \<not> ts \<and> s' = v'"
          using c(2-4) \<open>w = []\<close> pad_facts(2) Cons
          by (cases c; cases "tl c") (auto simp: BUFFER_SIZE_def split: if_splits)
        then show ?thesis using \<open>w = []\<close> Cons by auto
      qed
    next
      case (Cons b w')
      then have "\<not> nonblank b" using blank by simp
      then have "c = [] \<and> \<not> ts \<and> s' = w' @ pad # v"
        using c(2-4) Cons by (cases c) (auto simp: BUFFER_SIZE_def split: if_splits)
      then show ?thesis using Cons by auto
    qed
    define l where "l = Suc (length c)"
    have p: "take n' buf' = y # replicate l pad" using c(1) cs by (auto simp: l_def)
    define m where "m = buf'[n' := 0]"
    have m: "drop 0 m = y # replicate l pad @ 0 # drop (n' + 1) buf'"
      using drop_update_end [of n' buf' 0] c(5,6) p by (simp add: m_def)
    have "decode_base64 m 0 0 = Some (m, 0, l)"
      using decode_digit_pads [OF m assms(4)] by (simp add: decode_base64_def)
    moreover have "drop l m = [pad] @ 0 # drop (n' + 1) buf'"
      using m by (simp add: drop_Cons' l_def replicate_append_same flip: replicate_append_same)
    ultimately have step: "read_base64_loop k (- 1) False False (w @ pad # v) buf 2 out =
        (if ts then Truncated_input out else read_base64_loop j (- 1) False False s' (blit m 0 [pad]) 1 out)"
      using read_line [OF Filled, of m 0 l "[pad]"] c(5,6) pad_facts(1) by (simp add: m_def j)
    show ?thesis
    proof (cases ts)
      case False
      have "length (blit m 0 [pad]) = 82" "take 1 (blit m 0 [pad]) = [pad]"
        using c(6) by (simp_all add: m_def blit_def)
      then have "read_base64_loop j (- 1) False False s' (blit m 0 [pad]) 1 out = Returned out"
        using assms(1) c(7) False cs blank j by (intro read_pads) auto
      then show ?thesis using step False cs by auto
    qed (use step cs in simp)
  qed
qed

section \<open>The text before the break\<close>

lemma base64_text_append: "length s mod 3 = 0 \<Longrightarrow> base64_text (s @ t) = base64_text s @ base64_text t"
proof (induction s rule: base64_text.induct)
  case (4 a b c s)
  then show ?case using length_mod_3 [of a b c s] by simp
qed auto

lemma base64_text_one:
  obtains x y where "base64_text [a] = [x, y, pad, pad]" "alphabet x" "alphabet y"
  using alphabet_group [of _ a 0 0] by (auto simp: base64_group_digits pad_def)

lemma group_no_pad: "pad \<notin> set (base64_group a b c)"
  using alphabet_group pad_facts(3) by blast

lemma two_pads_text: "base64_text z = t @ [pad, pad] \<Longrightarrow> length z mod 3 = 1"
proof (induction z arbitrary: t rule: base64_text.induct)
  case (3 a b)
  then have "take 3 (base64_group a b 0) = t @ [pad]" by (simp add: pad_def)
  then have "pad \<in> set (take 3 (base64_group a b 0))" by simp
  then show ?case using group_no_pad in_set_takeD by metis
next
  case (4 a b c z)
  have "4 \<le> length t"
  proof (cases z)
    case Nil
    then have "base64_group a b c = t @ [pad, pad]" using 4(2) by simp
    then have "pad \<in> set (base64_group a b c)" by simp
    then show ?thesis using group_no_pad by blast
  next
    case (Cons d z')
    then have "4 \<le> length (base64_text z)" by (simp add: length_base64_text)
    then show ?thesis using arg_cong [OF 4(2), of length] by simp
  qed
  then have "base64_text z = drop 4 t @ [pad, pad]"
    using arg_cong [OF 4(2), of "drop 4"] by simp
  then show ?case using 4(1) length_mod_3 by simp
qed simp_all

lemma two_pads_length:
  assumes "t @ [pad, pad] = base64_text (s @ [a])"
  shows "length s mod 3 = 0"
proof -
  have "length (s @ [a]) mod 3 = 1" using two_pads_text assms [symmetric] by blast
  then show ?thesis by (simp; presburger)
qed

text \<open>Where the line ends that is read from a stream broken at \<open>w\<close>.\<close>

lemma broken_line:
  assumes "u @ pad # w @ pad # v = c @ s' \<and> n' = BUFFER_SIZE
      \<or> (\<exists>b. u @ pad # w @ pad # v = c @ b # s' \<and> \<not> nonblank b)"
    and "\<forall>x\<in>set c. nonblank x" "w \<noteq> []" "\<not> nonblank (hd w)" "c = u @ [pad] \<Longrightarrow> n' \<noteq> BUFFER_SIZE"
  shows "(\<exists>u'. s' = u' @ pad # w @ pad # v \<and> filter nonblank u = c @ filter nonblank u')
    \<or> c = u @ [pad] \<and> s' = tl w @ pad # v"
proof -
  have fc: "filter nonblank c = c" using assms(2) by (simp add: filter_id_conv)
  obtain X where X: "u @ (pad # w @ pad # v) = c @ X" "X = s' \<and> n' = BUFFER_SIZE \<or> (\<exists>b. X = b # s' \<and> \<not> nonblank b)"
    using assms(1) by blast
  obtain us where "u = c @ us \<and> us @ (pad # w @ pad # v) = X \<or> u @ us = c \<and> pad # w @ pad # v = us @ X"
    using X(1) by (auto simp: append_eq_append_conv2)
  then show ?thesis
  proof
    assume a: "u = c @ us \<and> us @ (pad # w @ pad # v) = X"
    show ?thesis
    proof (cases "X = s'")
      case True
      then show ?thesis using a fc by (intro disjI1 exI [of _ us]) simp
    next
      case False
      then obtain b where b: "X = b # s'" "\<not> nonblank b" using X(2) by blast
      then obtain us' where "us = b # us'" using a pad_facts(2) by (cases us) auto
      then show ?thesis using a b fc by (intro disjI1 exI [of _ us']) auto
    qed
  next
    assume a: "u @ us = c \<and> pad # w @ pad # v = us @ X"
    show ?thesis
    proof (cases us)
      case Nil
      then have "X = s'" using a X(2) pad_facts(2) by auto
      then show ?thesis using a Nil fc by (intro disjI1 exI [of _ "[]"]) auto
    next
      case (Cons z us')
      then have z: "z = pad" "w @ pad # v = us' @ X" using a by simp_all
      have "us' = []"
      proof (cases us')
        case (Cons y r)
        then have "y = hd w" using z(2) assms(3) by (cases w) simp_all
        then show ?thesis using assms(2,4) a Cons \<open>us = z # us'\<close> by auto
      qed
      then have c: "c = u @ [pad]" "X = w @ pad # v" using a Cons z by simp_all
      then have "\<exists>b. X = b # s'" using X(2) assms(5) by blast
      then show ?thesis using c assms(3) by (cases w) auto
    qed
  qed
qed

lemma read_broken:
  "length (u @ pad # w @ pad # v) < k \<Longrightarrow> length buf = 82 \<Longrightarrow> n < 4 \<Longrightarrow> \<forall>x\<in>set (take n buf). alphabet x \<Longrightarrow>
    take n buf @ filter nonblank u @ [pad, pad] = base64_text (bs @ [a]) \<Longrightarrow> length bs mod 3 = 0 \<Longrightarrow>
    w \<noteq> [] \<Longrightarrow> \<forall>x\<in>set (w @ v). \<not> nonblank x \<Longrightarrow>
    read_base64_loop k (- 1) False False (u @ pad # w @ pad # v) buf n out =
      (if length w = 1 \<and> v = [] then Truncated_input (out @ bs) else Returned (out @ bs))"
proof (induction k arbitrary: u buf n bs out)
  case (Suc k)
  let ?s = "u @ pad # w @ pad # v"
  have n4: "n \<le> BUFFER_SIZE" "n < BUFFER_SIZE" using Suc.prems(3) by (simp_all add: BUFFER_SIZE_def)
  have hd: "hd w \<in> set w" "\<not> nonblank (hd w)" using Suc.prems(7,8) by simp_all
  show ?case
  proof (cases "fill_buf (- 1) ?s buf n")
    case Fill_return
    then show ?thesis using fill_buf_nothing by blast
  next
    case Fill_out_of_bounds
    then show ?thesis using fill_buf_inside [OF n4(1), of buf] Suc.prems(2) by (simp add: BUFFER_SIZE_def)
  next
    case (Filled ts s' buf' N)
    obtain c where c: "take N buf' = take n buf @ c" "N = n + length c" "\<forall>x\<in>set c. nonblank x"
        "if ts then ?s = c \<and> s' = [] else ?s = c @ s' \<and> N = BUFFER_SIZE \<or> (\<exists>b. ?s = c @ b # s' \<and> \<not> nonblank b)"
        "N \<le> 80" "length buf' = 82" "ts \<or> length s' < length ?s"
      using fill_buf_step [OF Filled n4(2) Suc.prems(2)] .
    have ts: "\<not> ts" using c(3,4) hd by auto
    have full: "N \<noteq> BUFFER_SIZE" if "c = u @ [pad]"
    proof -
      have "filter nonblank u = u" using c(3) that by (simp add: filter_id_conv)
      then have "length (take n buf @ u @ [pad, pad]) = N + 1"
        using c(2) that Suc.prems(2,3) by simp
      then have "N + 1 = 4 * ((length (bs @ [a]) + 2) div 3)"
        using Suc.prems(5) \<open>filter nonblank u = u\<close> by (simp only: length_base64_text)
      then have "4 dvd N + 1" by (metis dvd_triv_left)
      then show ?thesis by (auto simp: BUFFER_SIZE_def)
    qed
    have "?s = c @ s' \<and> N = BUFFER_SIZE \<or> (\<exists>b. ?s = c @ b # s' \<and> \<not> nonblank b)" using c(4) ts by simp
    note broken_line [OF this c(3) Suc.prems(7) hd(2) full]
    then show ?thesis
    proof
      assume "\<exists>u'. s' = u' @ pad # w @ pad # v \<and> filter nonblank u = c @ filter nonblank u'"
      then obtain u' where u': "s' = u' @ pad # w @ pad # v" "filter nonblank u = c @ filter nonblank u'" by blast
      have t: "base64_text (bs @ [a]) = take N buf' @ (filter nonblank u' @ [pad, pad])"
        using Suc.prems(5) u'(2) c(1) by simp
      obtain b1 b2 p where sp: "text_split (bs @ [a]) (take N buf') (filter nonblank u' @ [pad, pad]) b1 b2 p"
        using base64_text_split [OF t] by blast
      then have b: "bs @ [a] = b1 @ b2" "take N buf' = base64_text b1 @ p"
          "p @ filter nonblank u' @ [pad, pad] = base64_text b2" "length p < 4" "length b1 mod 3 = 0 \<or> b2 = []"
          "\<forall>x\<in>set p. alphabet x"
        by (simp_all add: text_split_def)
      then obtain b2' where b2: "b2 = b2' @ [a]" "bs = b1 @ b2'" "length b1 mod 3 = 0"
        by (cases b2 rule: rev_cases) auto
      have m: "length b2' mod 3 = 0" using Suc.prems(6) b2 by (simp add: mod_eq_0_iff_dvd dvd_add_right_iff)
      obtain q where q: "length q = 82" "take (length p) q = p"
        and step: "\<forall>k out. read_base64_loop (Suc k) (- 1) False False ?s buf n out =
          (if ts then if p = [] then Returned (out @ b1) else Truncated_input (out @ b1)
           else read_base64_loop k (- 1) False False s' q (length p) (out @ b1))"
        using read_text_line [OF Filled c(5,6) b(2,6,4) disjI1 [OF b2(3)]] .
      have "read_base64_loop k (- 1) False False s' q (length p) (out @ b1) =
          (if length w = 1 \<and> v = [] then Truncated_input ((out @ b1) @ b2') else Returned ((out @ b1) @ b2'))"
        unfolding u'(1) using Suc.prems(1,7,8) c(7) ts b(3,4,6) b2(1) m q u'(1) by (intro Suc.IH) simp_all
      then show ?thesis using step ts b2(2) by simp
    next
      assume cw: "c = u @ [pad] \<and> s' = tl w @ pad # v"
      obtain x y where xy: "base64_text [a] = [x, y, pad, pad]" "alphabet x" "alphabet y" by (rule base64_text_one)
      have "filter nonblank u = u" using c(3) cw by (simp add: filter_id_conv)
      then have "take N buf' @ [pad] = base64_text bs @ [x, y, pad] @ [pad]"
        using Suc.prems(5) c(1) cw xy(1) base64_text_append [OF Suc.prems(6), of "[a]"] by simp
      then have t: "take N buf' = base64_text bs @ [x, y, pad]" by simp
      define m where "m = buf'[N := 0]"
      have m: "drop 0 m = base64_text bs @ [x, y, pad] @ 0 # drop (N + 1) buf'"
        using drop_update_end [of N buf' 0] c(5,6) t by (simp add: m_def)
      obtain mem where mem: "decode_base64_loop m 0 0 0 0
            = decode_base64_loop mem (0 + length bs) (0 + length (base64_text bs)) 0 0"
          "take (0 + length bs) mem = take 0 m @ bs"
          "drop (0 + length (base64_text bs)) mem = [x, y, pad] @ 0 # drop (N + 1) buf'" "length mem = length m"
        using decode_groups [OF m Suc.prems(6) order_refl] by blast
      have d: "decode_base64 (buf'[N := 0]) 0 0 = Some (mem, length bs, length (base64_text bs) + 1)"
        using mem(1) decode_first_pad [OF mem(3) xy(2,3), of "0 + length bs"] by (simp add: decode_base64_def m_def)
      have r: "drop (length (base64_text bs) + 1) mem = [y, pad] @ 0 # drop (N + 1) buf'"
        using drop_next(3) [of "length (base64_text bs)" mem x "[y, pad] @ 0 # drop (N + 1) buf'"] mem(3) by simp
      have l: "length mem = 82" "length bs \<le> length mem"
        using mem(4) c(6) arg_cong [OF mem(2), of length] by (simp_all add: m_def)
      have step: "read_base64_loop (Suc k) (- 1) False False ?s buf n out =
          read_base64_loop k (- 1) False False (tl w @ pad # v) (blit mem 0 [y, pad]) 2 (out @ bs)"
        using read_line [OF Filled d _ l(2) r] c(5,6) ts cw mem(2) pad_facts(1) alphabet_nonblank [OF xy(3)]
        by (simp add: numeral_2_eq_2)
      have tl: "\<forall>x\<in>set (tl w @ v). \<not> nonblank x" using Suc.prems(7,8) by (cases w) auto
      have "read_base64_loop k (- 1) False False (tl w @ pad # v) (blit mem 0 [y, pad]) 2 (out @ bs) =
          (if tl w = [] \<and> v = [] then Truncated_input (out @ bs) else Returned (out @ bs))"
        using Suc.prems(1) c(7) ts cw l(1) xy(3) tl by (intro read_digit_pad) (simp_all add: blit_def)
      moreover have "length w = 1 \<longleftrightarrow> tl w = []" using Suc.prems(7) by (cases w) simp_all
      ultimately show ?thesis using step by simp
    qed
  qed
qed simp

section \<open>Properties\<close>

text \<open>
  Property C28. Let the text of data that ends in two pads be broken between the pads by blanks or
  control characters, of which any others may stand before and after. \<open>read_base64\<close> writes all but
  the last byte of the data. Only when a single character breaks the pads and nothing follows the
  second one does it die with a truncated input; in every other case it returns as if it had
  succeeded.
\<close>

theorem read_base64_breaks_between_pads:
  assumes "filter nonblank u @ [pad, pad] = base64_text (bs @ [a])"
    and "w \<noteq> []" "\<forall>c\<in>set (w @ v). \<not> nonblank c"
    and "length stack = BUFFER_SIZE + 2" "length (u @ pad # w @ pad # v) < fuel"
  shows "read_base64 fuel stack (u @ pad # w @ pad # v) 0xFF =
    (if length w = 1 \<and> v = [] then Truncated_input bs else Returned bs)"
proof -
  have "length bs mod 3 = 0" by (rule two_pads_length [OF assms(1)])
  then have "read_base64_loop fuel (- 1) False False (u @ pad # w @ pad # v) stack 0 [] =
      (if length w = 1 \<and> v = [] then Truncated_input ([] @ bs) else Returned ([] @ bs))"
    using assms by (intro read_broken) (simp_all add: BUFFER_SIZE_def)
  then show ?thesis by (simp add: read_base64_def eof_flags)
qed

lemma read_base64_breaks_between_pads_witness:
  "read_base64 8 (replicate 82 0) (map ascii ''QQ'' @ pad # [10] @ pad # [10]) 0xFF = Returned []"
proof -
  have "bb_uuencode [65] 1 bb_uuenc_tbl_base64 = (map ascii ''QQ'' @ [pad, pad]) @ [0]"
    unfolding pad_def by code_simp
  then have t: "base64_text [65] = map ascii ''QQ'' @ [pad, pad]"
    using bb_uuencode_base64_text [of "[65]"] by simp
  have "filter nonblank (map ascii ''QQ'') = map ascii ''QQ''" by code_simp
  then show ?thesis
    using read_base64_breaks_between_pads [of "map ascii ''QQ''" "[]" 65 "[10]" "[10]" "replicate 82 0" 8] t
    by (simp add: nonblank_def BUFFER_SIZE_def)
qed

end
