(* ===== verification/Lua_Zio.thy ===== *)
theory Lua_Zio
  imports Prelude
begin

text \<open>
  Lua's buffered input stream (\<open>src/lzio.c\<close>, \<open>src/lzio.h\<close>): \<open>luaZ_fill\<close>, \<open>zgetc\<close> and
  \<open>luaZ_read\<close>. The reader function the caller supplies is modelled by what its successive calls
  return; the contract is that the stream is read as if it came in one piece, wherever the
  reader cuts it.
\<close>

section \<open>The code\<close>

text \<open>
  \<open>zbuf\<close> are the \<open>n\<close> unread bytes at \<open>p\<close>. \<open>zchunks\<close> are the blocks the reader is going to
  return; an empty block (or \<open>NULL\<close>) and the end of the list mean that there is no more input.
\<close>

record zio =
  zbuf :: bytes
  zchunks :: "bytes list"

definition luaZ_init :: "bytes list \<Rightarrow> zio" where
  "luaZ_init blocks = \<lparr>zbuf = [], zchunks = blocks\<rparr>"

text \<open>
  \<open>None\<close> is \<open>EOZ\<close>. What the stream holds after \<open>EOZ\<close> is not modelled: every caller raises an
  error then.
\<close>

definition luaZ_fill :: "zio \<Rightarrow> (u8 \<times> zio) option" where
  "luaZ_fill z =
     (case zchunks z of
        [] \<Rightarrow> None
      | buff # blocks \<Rightarrow>
          (case buff of [] \<Rightarrow> None
           | b # p \<Rightarrow> Some (b, z\<lparr>zbuf := p, zchunks := blocks\<rparr>)))"

definition zgetc :: "zio \<Rightarrow> (u8 \<times> zio) option" where
  "zgetc z = (case zbuf z of b # p \<Rightarrow> Some (b, z\<lparr>zbuf := p\<rparr>) | [] \<Rightarrow> luaZ_fill z)"

text \<open>The result is the number of missing bytes, the bytes stored at \<open>b\<close> and the stream.\<close>

function luaZ_read :: "zio \<Rightarrow> nat \<Rightarrow> nat \<times> bytes \<times> zio" where
  "luaZ_read z n =
     (if n = 0 then (0, [], z)
      else
        (case (if zbuf z = []
               then (case luaZ_fill z of None \<Rightarrow> None
                     | Some (b, z) \<Rightarrow> Some (z\<lparr>zbuf := b # zbuf z\<rparr>))
               else Some z) of
           None \<Rightarrow> (n, [], z)
         | Some z \<Rightarrow>
             (let m = (if n \<le> length (zbuf z) then n else length (zbuf z));
                  b = take m (zbuf z);
                  z = z\<lparr>zbuf := drop m (zbuf z)\<rparr>;
                  (missing, bs, z) = luaZ_read z (n - m)
              in (missing, b @ bs, z))))"
  by pat_completeness auto
termination
  by (relation "measure snd") (auto split: if_splits option.splits prod.splits)

declare luaZ_read.simps [simp del]

section \<open>The bytes still to come\<close>

definition stream :: "zio \<Rightarrow> bytes" where
  "stream z = zbuf z @ concat (takeWhile (\<lambda>c. c \<noteq> []) (zchunks z))"

lemma stream_init: "stream (luaZ_init blocks) = concat (takeWhile (\<lambda>c. c \<noteq> []) blocks)"
  by (simp add: stream_def luaZ_init_def)

lemma luaZ_fill_None: "zbuf z = [] \<Longrightarrow> luaZ_fill z = None \<longleftrightarrow> stream z = []"
  by (auto simp: luaZ_fill_def stream_def split: list.splits)

lemma luaZ_fill_Some: "zbuf z = [] \<Longrightarrow> luaZ_fill z = Some (b, z') \<Longrightarrow> stream z = b # stream z'"
  by (auto simp: luaZ_fill_def stream_def split: list.splits)

lemma zgetc_None: "zgetc z = None \<longleftrightarrow> stream z = []"
  by (cases "zbuf z") (auto simp: zgetc_def luaZ_fill_None, simp add: stream_def)

lemma zgetc_Some: "zgetc z = Some (b, z') \<Longrightarrow> stream z = b # stream z'"
  by (cases "zbuf z") (auto simp: zgetc_def luaZ_fill_Some, simp add: stream_def)

text \<open>The buffer is not empty when bytes are copied, so the loop makes progress.\<close>

lemma luaZ_read_step:
  "luaZ_read z (Suc n) =
     (case zgetc z of None \<Rightarrow> (Suc n, [], z)
      | Some (b, z') \<Rightarrow>
          (let m = min n (length (zbuf z')); z'' = z'\<lparr>zbuf := drop m (zbuf z')\<rparr>;
               (missing, bs, z''') = luaZ_read z'' (n - m)
           in (missing, b # take m (zbuf z') @ bs, z''')))"
proof (cases "zbuf z")
  case Nil
  then show ?thesis
    by (subst luaZ_read.simps)
       (auto simp: zgetc_def Let_def min_def split: option.splits prod.splits)
next
  case (Cons b p)
  then show ?thesis
    by (subst luaZ_read.simps) (auto simp: zgetc_def Let_def min_def split: prod.splits)
qed

lemma luaZ_read_stream:
  "luaZ_read z n = (missing, bs, z') \<Longrightarrow>
   missing = n - length (stream z) \<and> bs = take n (stream z) \<and>
   (missing = 0 \<longrightarrow> stream z' = drop n (stream z))"
proof (induction n arbitrary: z missing bs z' rule: less_induct)
  case (less n)
  show ?case
  proof (cases n)
    case 0
    then show ?thesis using less.prems by (simp add: luaZ_read.simps)
  next
    case (Suc k)
    show ?thesis
    proof (cases "zgetc z")
      case None
      then have "stream z = []" by (simp add: zgetc_None)
      then show ?thesis using None less.prems Suc by (simp add: luaZ_read_step)
    next
      case (Some bz)
      obtain b z1 where bz: "bz = (b, z1)" by force
      define m where "m = min k (length (zbuf z1))"
      define z2 where "z2 = z1\<lparr>zbuf := drop m (zbuf z1)\<rparr>"
      obtain mi r z3 where rec: "luaZ_read z2 (k - m) = (mi, r, z3)" by (cases "luaZ_read z2 (k - m)")
      have res: "missing = mi" "bs = b # take m (zbuf z1) @ r" "z' = z3"
        using less.prems Some bz Suc rec by (simp_all add: luaZ_read_step Let_def m_def z2_def)
      have s1: "stream z = b # stream z1" using zgetc_Some Some bz by blast
      have m: "m \<le> k" "m \<le> length (zbuf z1)" by (simp_all add: m_def)
      have s2: "stream z1 = take m (zbuf z1) @ stream z2"
        by (simp add: stream_def z2_def flip: append_assoc)
      have len: "length (take m (zbuf z1)) = m" using m by simp
      have IH: "mi = k - m - length (stream z2)" "r = take (k - m) (stream z2)"
        "mi = 0 \<longrightarrow> stream z3 = drop (k - m) (stream z2)"
        using less.IH [of "k - m" z2 mi r z3] rec Suc by auto
      show ?thesis
        using IH m len by (simp add: res Suc s1 s2 take_append drop_append min_def)
    qed
  qed
qed

text \<open>
  Property C35: \<open>luaZ_read\<close> reads the stream as if the reader had delivered it in one piece:
  whatever blocks the reader returns, it stores the first \<open>n\<close> bytes of what they hold together
  up to the first empty one, returns the number of bytes that are missing, and when none is
  missing leaves exactly the rest to be read.
\<close>

theorem luaZ_read_whole_stream:
  assumes "luaZ_read z n = (missing, bs, z')"
  shows "missing = n - length (stream z) \<and> bs = take n (stream z) \<and>
    (missing = 0 \<longrightarrow> stream z' = drop n (stream z))"
  using assms by (rule luaZ_read_stream)

theorem luaZ_read_whole_stream_witness:
  "stream \<lparr>zbuf = [], zchunks = [[5 :: u8]]\<rparr> =
     drop 4 (stream \<lparr>zbuf = [1], zchunks = [[2, 3], [4, 5], [], [6]]\<rparr>)"
proof -
  have "luaZ_read \<lparr>zbuf = [1], zchunks = [[2, 3], [4, 5], [], [6]]\<rparr> 4 =
      (0, [1, 2, 3, 4], \<lparr>zbuf = [5], zchunks = [[], [6]]\<rparr>)"
    by code_simp
  from luaZ_read_whole_stream [OF this] show ?thesis
    by (simp add: stream_def)
qed

end
