(* ===== verification/Lua_Dump.thy ===== *)
theory Lua_Dump
  imports Prelude
begin

text \<open>
  Function prototypes (\<open>src/lobject.h\<close>) and the writer of precompiled chunks (\<open>src/ldump.c\<close>).
  \<open>dumpFunction\<close> decides by comparing pointers whether a nested function has the source name of
  its parent, so a string carries its address. A number is its eight bytes in memory; \<open>int\<close> is a
  32-bit word in two's complement. The array sizes of \<open>Proto\<close> are the lengths of the lists.
\<close>

section \<open>Prototypes\<close>

type_synonym cint = "32 word"

datatype tstring = TString (ts_addr: nat) (ts_contents: bytes)

text \<open>The constants, with the variant tags the code switches on.\<close>

datatype 's tvalue = LUA_VNIL | LUA_VFALSE | LUA_VTRUE | LUA_VNUMFLT u64 | LUA_VNUMINT u64
  | LUA_VSHRSTR 's | LUA_VLNGSTR 's

definition makevariant :: "u8 \<Rightarrow> u8 \<Rightarrow> u8" where
  "makevariant t v = t OR push_bit 4 v"

definition LUA_TNIL :: u8 where "LUA_TNIL = 0"
definition LUA_TBOOLEAN :: u8 where "LUA_TBOOLEAN = 1"
definition LUA_TNUMBER :: u8 where "LUA_TNUMBER = 3"
definition LUA_TSTRING :: u8 where "LUA_TSTRING = 4"

fun ttypetag :: "'s tvalue \<Rightarrow> u8" where
  "ttypetag LUA_VNIL = makevariant LUA_TNIL 0"
| "ttypetag LUA_VFALSE = makevariant LUA_TBOOLEAN 0"
| "ttypetag LUA_VTRUE = makevariant LUA_TBOOLEAN 1"
| "ttypetag (LUA_VNUMINT i) = makevariant LUA_TNUMBER 0"
| "ttypetag (LUA_VNUMFLT x) = makevariant LUA_TNUMBER 1"
| "ttypetag (LUA_VSHRSTR s) = makevariant LUA_TSTRING 0"
| "ttypetag (LUA_VLNGSTR s) = makevariant LUA_TSTRING 1"

datatype 's upvaldesc =
  Upvaldesc (uv_name: "'s option") (uv_instack: u8) (uv_idx: u8) (uv_kind: u8)

datatype 's locvar = LocVar (lv_varname: "'s option") (lv_startpc: cint) (lv_endpc: cint)

datatype 's proto = Proto
  (pr_numparams: u8) (pr_is_vararg: u8) (pr_maxstacksize: u8)
  (pr_linedefined: cint) (pr_lastlinedefined: cint)
  (pr_k: "'s tvalue list") (pr_code: "u32 list") (pr_p: "'s proto list")
  (pr_upvalues: "'s upvaldesc list") (pr_lineinfo: bytes)
  (pr_abslineinfo: "(cint \<times> cint) list") (pr_locvars: "'s locvar list") (pr_source: "'s option")

section \<open>The writer\<close>

text \<open>
  The state of a dump. The writer function is given by the caller; it returns a status and its
  new data.
\<close>

record 'd dump_state =
  writer :: "bytes \<Rightarrow> 'd \<Rightarrow> int \<times> 'd"
  data :: 'd
  strip :: bool
  status :: int

definition dumpBlock :: "'d dump_state \<Rightarrow> bytes \<Rightarrow> 'd dump_state" where
  "dumpBlock D b =
     (if status D = 0 \<and> length b > 0
      then (let (s, d) = writer D b (data D) in D\<lparr>status := s, data := d\<rparr>)
      else D)"

definition dumpByte :: "'d dump_state \<Rightarrow> u8 \<Rightarrow> 'd dump_state" where
  "dumpByte D y = dumpBlock D [y]"

definition DIBS :: nat where "DIBS = 8 * 8 div 7 + 1"

lemma drop_bit_7_less: "drop_bit 7 (x::u64) \<noteq> 0 \<Longrightarrow> unat (drop_bit 7 x) < unat x"
proof -
  assume a: "drop_bit 7 x \<noteq> 0"
  have d: "unat (drop_bit 7 x) = unat x div 128"
    using unsigned_drop_bit_eq [of 7 x] by (simp only: drop_bit_eq_div) (simp add: unat_div)
  with a have "unat x div 128 \<noteq> 0" by (metis unat_eq_zero)
  then have "0 < unat x" by (metis div_0 neq0_conv)
  then show ?thesis unfolding d by simp
qed

text \<open>The loop fills the buffer from its end; the result is the buffer and \<open>n\<close>.\<close>

function dumpSize_loop :: "bytes \<Rightarrow> nat \<Rightarrow> u64 \<Rightarrow> bytes \<times> nat" where
  "dumpSize_loop buff n x =
     (let n = n + 1;
          buff = buff[DIBS - n := ucast (x AND 0x7f)];
          x = drop_bit 7 x
      in if x \<noteq> 0 then dumpSize_loop buff n x else (buff, n))"
  by pat_completeness auto

termination
  by (relation "measure (\<lambda>(buff, n, x). unat x)") (auto simp: drop_bit_7_less)

declare dumpSize_loop.simps [simp del]

definition dumpSize :: "'d dump_state \<Rightarrow> u64 \<Rightarrow> 'd dump_state" where
  "dumpSize D x =
     (let (buff, n) = dumpSize_loop (replicate DIBS 0) 0 x;
          buff = buff[DIBS - 1 := buff ! (DIBS - 1) OR 0x80]
      in dumpBlock D (drop (DIBS - n) buff))"

definition dumpInt :: "'d dump_state \<Rightarrow> cint \<Rightarrow> 'd dump_state" where
  "dumpInt D x = dumpSize D (scast x)"

definition dumpNumber :: "'d dump_state \<Rightarrow> u64 \<Rightarrow> 'd dump_state" where
  "dumpNumber D x = dumpBlock D (store64 x)"

definition dumpInteger :: "'d dump_state \<Rightarrow> u64 \<Rightarrow> 'd dump_state" where
  "dumpInteger D x = dumpBlock D (store64 x)"

definition dumpString :: "'d dump_state \<Rightarrow> tstring option \<Rightarrow> 'd dump_state" where
  "dumpString D s =
     (case s of None \<Rightarrow> dumpSize D 0
      | Some s \<Rightarrow>
          (let size = length (ts_contents s)
           in dumpBlock (dumpSize D (of_nat size + 1)) (ts_contents s)))"

definition dumpCode :: "'d dump_state \<Rightarrow> u32 list \<Rightarrow> 'd dump_state" where
  "dumpCode D code = dumpBlock (dumpInt D (of_nat (length code))) (concat (map store32 code))"

fun dumpConstant :: "'d dump_state \<Rightarrow> tstring tvalue \<Rightarrow> 'd dump_state" where
  "dumpConstant D o' =
     (let D = dumpByte D (ttypetag o')
      in case o' of
           LUA_VNUMFLT x \<Rightarrow> dumpNumber D x
         | LUA_VNUMINT i \<Rightarrow> dumpInteger D i
         | LUA_VSHRSTR s \<Rightarrow> dumpString D (Some s)
         | LUA_VLNGSTR s \<Rightarrow> dumpString D (Some s)
         | _ \<Rightarrow> D)"

definition dumpConstants :: "'d dump_state \<Rightarrow> tstring tvalue list \<Rightarrow> 'd dump_state" where
  "dumpConstants D k = foldl dumpConstant (dumpInt D (of_nat (length k))) k"

definition dumpUpvalue :: "'d dump_state \<Rightarrow> tstring upvaldesc \<Rightarrow> 'd dump_state" where
  "dumpUpvalue D u = dumpByte (dumpByte (dumpByte D (uv_instack u)) (uv_idx u)) (uv_kind u)"

definition dumpUpvalues :: "'d dump_state \<Rightarrow> tstring upvaldesc list \<Rightarrow> 'd dump_state" where
  "dumpUpvalues D upvalues = foldl dumpUpvalue (dumpInt D (of_nat (length upvalues))) upvalues"

definition dumpAbsLine :: "'d dump_state \<Rightarrow> cint \<times> cint \<Rightarrow> 'd dump_state" where
  "dumpAbsLine D a = dumpInt (dumpInt D (fst a)) (snd a)"

definition dumpLocVar :: "'d dump_state \<Rightarrow> tstring locvar \<Rightarrow> 'd dump_state" where
  "dumpLocVar D v = dumpInt (dumpInt (dumpString D (lv_varname v)) (lv_startpc v)) (lv_endpc v)"

definition dumpDebug :: "'d dump_state \<Rightarrow> tstring proto \<Rightarrow> 'd dump_state" where
  "dumpDebug D f =
     (let n = (if strip D then 0 else length (pr_lineinfo f));
          D = dumpInt D (of_nat n);
          D = dumpBlock D (take n (pr_lineinfo f));
          n = (if strip D then 0 else length (pr_abslineinfo f));
          D = dumpInt D (of_nat n);
          D = foldl dumpAbsLine D (take n (pr_abslineinfo f));
          n = (if strip D then 0 else length (pr_locvars f));
          D = dumpInt D (of_nat n);
          D = foldl dumpLocVar D (take n (pr_locvars f));
          n = (if strip D then 0 else length (pr_upvalues f));
          D = dumpInt D (of_nat n)
      in foldl dumpString D (map uv_name (take n (pr_upvalues f))))"

text \<open>The pointer comparison \<open>f->source == psource\<close>.\<close>

definition same_string :: "tstring option \<Rightarrow> tstring option \<Rightarrow> bool" where
  "same_string s t \<longleftrightarrow> map_option ts_addr s = map_option ts_addr t"

text \<open>\<open>dumpProtos\<close> is the loop of the function of that name after its \<open>dumpInt(D, n)\<close>.\<close>

fun dumpFunction :: "'d dump_state \<Rightarrow> tstring proto \<Rightarrow> tstring option \<Rightarrow> 'd dump_state"
  and dumpProtos :: "'d dump_state \<Rightarrow> tstring proto list \<Rightarrow> tstring option \<Rightarrow> 'd dump_state" where
  "dumpFunction D (Proto np va ms ld lld k code ps uv li ali lv source) psource =
     (let D = (if strip D \<or> same_string source psource then dumpString D None
               else dumpString D source);
          D = dumpInt D ld;
          D = dumpInt D lld;
          D = dumpByte D np;
          D = dumpByte D va;
          D = dumpByte D ms;
          D = dumpCode D code;
          D = dumpConstants D k;
          D = dumpUpvalues D uv;
          D = dumpInt D (of_nat (length ps));
          D = dumpProtos D ps source
      in dumpDebug D (Proto np va ms ld lld k code ps uv li ali lv source))"
| "dumpProtos D [] source = D"
| "dumpProtos D (f # ps) source = dumpProtos (dumpFunction D f source) ps source"

definition LUA_SIGNATURE :: bytes where "LUA_SIGNATURE = [0x1b, 0x4c, 0x75, 0x61]"
definition LUAC_DATA :: bytes where "LUAC_DATA = [0x19, 0x93, 0x0d, 0x0a, 0x1a, 0x0a]"
definition LUAC_INT :: u64 where "LUAC_INT = 0x5678"
definition LUAC_VERSION :: u8 where "LUAC_VERSION = 5 * 16 + 4"
definition LUAC_FORMAT :: u8 where "LUAC_FORMAT = 0"

text \<open>370.5 as an IEEE double: sign 0, exponent 1023 + 8, fraction 114.5 / 256.\<close>

definition LUAC_NUM :: u64 where "LUAC_NUM = 0x4077280000000000"

definition dumpHeader :: "'d dump_state \<Rightarrow> 'd dump_state" where
  "dumpHeader D =
     (let D = dumpBlock D LUA_SIGNATURE;
          D = dumpByte D LUAC_VERSION;
          D = dumpByte D LUAC_FORMAT;
          D = dumpBlock D LUAC_DATA;
          D = dumpByte D 4;
          D = dumpByte D 8;
          D = dumpByte D 8;
          D = dumpInteger D LUAC_INT
      in dumpNumber D LUAC_NUM)"

text \<open>The result is the status and the writer's data.\<close>

definition luaU_dump ::
  "tstring proto \<Rightarrow> (bytes \<Rightarrow> 'd \<Rightarrow> int \<times> 'd) \<Rightarrow> 'd \<Rightarrow> bool \<Rightarrow> int \<times> 'd" where
  "luaU_dump f w d do_strip =
     (let D = \<lparr>writer = w, data = d, strip = do_strip, status = 0\<rparr>;
          D = dumpHeader D;
          D = dumpByte D (of_nat (length (pr_upvalues f)));
          D = dumpFunction D f None
      in (status D, data D))"

text \<open>The writer of \<open>string.dump\<close> in \<open>lstrlib.c\<close> appends to a buffer and never fails.\<close>

definition str_writer :: "bytes \<Rightarrow> bytes \<Rightarrow> int \<times> bytes" where
  "str_writer b ud = (0, ud @ b)"

section \<open>A dump is a sequence of writes\<close>

lemma frame_dumpBlock [simp, frame_simps]:
  "writer (dumpBlock D b) = writer D" "strip (dumpBlock D b) = strip D"
  by (simp_all add: dumpBlock_def split_beta)

lemma dumpBlock_Nil [simp]: "dumpBlock D [] = D"
  by (simp add: dumpBlock_def)

lemma strip_dumpBlocks [simp, frame_simps]:
  "strip (foldl dumpBlock D bs) = strip D" "writer (foldl dumpBlock D bs) = writer D"
  by (induction bs arbitrary: D) simp_all

lemma dumpBlocks_error: "status D \<noteq> 0 \<Longrightarrow> foldl dumpBlock D bs = D"
  by (induction bs arbitrary: D) (simp_all add: dumpBlock_def)

text \<open>Write blocks until the writer returns an error.\<close>

fun write_until_error :: "(bytes \<Rightarrow> 'd \<Rightarrow> int \<times> 'd) \<Rightarrow> 'd \<Rightarrow> bytes list \<Rightarrow> int \<times> 'd" where
  "write_until_error w d [] = (0, d)"
| "write_until_error w d (b # bs) =
     (if b = [] then write_until_error w d bs
      else (case w b d of (s, d) \<Rightarrow> if s \<noteq> 0 then (s, d) else write_until_error w d bs))"

lemma dumpBlocks_until_error:
  "status D = 0 \<Longrightarrow>
   (status (foldl dumpBlock D bs), data (foldl dumpBlock D bs)) = write_until_error (writer D) (data D) bs"
  by (induction bs arbitrary: D)
     (auto simp: dumpBlock_def dumpBlocks_error split_beta)

lemma dumpBlocks_str_writer:
  "writer D = str_writer \<Longrightarrow> status D = 0 \<Longrightarrow>
   foldl dumpBlock D bs = D\<lparr>data := data D @ concat bs\<rparr>"
  by (induction bs arbitrary: D) (simp_all add: dumpBlock_def str_writer_def)

section \<open>The format of a chunk\<close>

text \<open>The blocks each function writes, in order.\<close>

named_theorems dump_blocks \<open>a dump operation as the blocks it writes\<close>

definition size_bytes :: "u64 \<Rightarrow> bytes" where
  "size_bytes x =
     (let (buff, n) = dumpSize_loop (replicate DIBS 0) 0 x
      in drop (DIBS - n) (buff[DIBS - 1 := buff ! (DIBS - 1) OR 0x80]))"

definition int_bytes :: "cint \<Rightarrow> bytes" where
  "int_bytes x = size_bytes (scast x)"

definition string_blocks :: "tstring option \<Rightarrow> bytes list" where
  "string_blocks s =
     (case s of None \<Rightarrow> [size_bytes 0]
      | Some s \<Rightarrow> [size_bytes (of_nat (length (ts_contents s)) + 1), ts_contents s])"

fun constant_blocks :: "tstring tvalue \<Rightarrow> bytes list" where
  "constant_blocks (LUA_VNUMFLT x) = [[ttypetag (LUA_VNUMFLT x :: tstring tvalue)], store64 x]"
| "constant_blocks (LUA_VNUMINT i) = [[ttypetag (LUA_VNUMINT i :: tstring tvalue)], store64 i]"
| "constant_blocks (LUA_VSHRSTR s) = [ttypetag (LUA_VSHRSTR s)] # string_blocks (Some s)"
| "constant_blocks (LUA_VLNGSTR s) = [ttypetag (LUA_VLNGSTR s)] # string_blocks (Some s)"
| "constant_blocks v = [[ttypetag v]]"

definition array_blocks :: "('a \<Rightarrow> bytes list) \<Rightarrow> 'a list \<Rightarrow> bytes list" where
  "array_blocks f xs = int_bytes (of_nat (length xs)) # concat (map f xs)"

definition upvalue_blocks :: "tstring upvaldesc \<Rightarrow> bytes list" where
  "upvalue_blocks u = [[uv_instack u], [uv_idx u], [uv_kind u]]"

definition absline_blocks :: "cint \<times> cint \<Rightarrow> bytes list" where
  "absline_blocks a = [int_bytes (fst a), int_bytes (snd a)]"

definition locvar_blocks :: "tstring locvar \<Rightarrow> bytes list" where
  "locvar_blocks v = string_blocks (lv_varname v) @ [int_bytes (lv_startpc v), int_bytes (lv_endpc v)]"

definition debug_blocks :: "bool \<Rightarrow> tstring proto \<Rightarrow> bytes list" where
  "debug_blocks s f =
     (let li = (if s then [] else pr_lineinfo f) in [int_bytes (of_nat (length li)), li]) @
     array_blocks absline_blocks (if s then [] else pr_abslineinfo f) @
     array_blocks locvar_blocks (if s then [] else pr_locvars f) @
     array_blocks string_blocks (if s then [] else map uv_name (pr_upvalues f))"

fun function_blocks :: "bool \<Rightarrow> tstring proto \<Rightarrow> tstring option \<Rightarrow> bytes list"
  and protos_blocks :: "bool \<Rightarrow> tstring proto list \<Rightarrow> tstring option \<Rightarrow> bytes list" where
  "function_blocks s (Proto np va ms ld lld k code ps uv li ali lv source) psource =
     string_blocks (if s \<or> same_string source psource then None else source) @
     [int_bytes ld, int_bytes lld, [np], [va], [ms],
      int_bytes (of_nat (length code)), concat (map store32 code)] @
     array_blocks constant_blocks k @
     array_blocks upvalue_blocks uv @
     int_bytes (of_nat (length ps)) # protos_blocks s ps source @
     debug_blocks s (Proto np va ms ld lld k code ps uv li ali lv source)"
| "protos_blocks s [] source = []"
| "protos_blocks s (f # ps) source = function_blocks s f source @ protos_blocks s ps source"

definition header_blocks :: "bytes list" where
  "header_blocks = [LUA_SIGNATURE, [LUAC_VERSION], [LUAC_FORMAT], LUAC_DATA, [4], [8], [8],
     store64 LUAC_INT, store64 LUAC_NUM]"

definition chunk_blocks :: "bool \<Rightarrow> tstring proto \<Rightarrow> bytes list" where
  "chunk_blocks s f = header_blocks @ [of_nat (length (pr_upvalues f))] # function_blocks s f None"

lemma dumpSize_blocks [dump_blocks]: "dumpSize D x = foldl dumpBlock D [size_bytes x]"
  by (simp add: dumpSize_def size_bytes_def split_beta)

lemma dumpInt_blocks [dump_blocks]: "dumpInt D x = foldl dumpBlock D [int_bytes x]"
  by (simp add: dumpInt_def int_bytes_def dump_blocks)

lemma dumpByte_blocks [dump_blocks]: "dumpByte D b = foldl dumpBlock D [[b]]"
  by (simp add: dumpByte_def)

lemma dumpNumber_blocks [dump_blocks]:
  "dumpNumber D x = foldl dumpBlock D [store64 x]" "dumpInteger D x = foldl dumpBlock D [store64 x]"
  by (simp_all add: dumpNumber_def dumpInteger_def)

lemma dumpString_blocks [dump_blocks]: "dumpString D s = foldl dumpBlock D (string_blocks s)"
  by (cases s) (simp_all add: dumpString_def string_blocks_def dump_blocks Let_def)

lemma dumpConstant_blocks [dump_blocks]: "dumpConstant D v = foldl dumpBlock D (constant_blocks v)"
  by (cases v) (simp_all add: dump_blocks Let_def)

lemma dumpUpvalue_blocks [dump_blocks]: "dumpUpvalue D u = foldl dumpBlock D (upvalue_blocks u)"
  by (simp add: dumpUpvalue_def upvalue_blocks_def dump_blocks)

lemma dumpAbsLine_blocks [dump_blocks]: "dumpAbsLine D a = foldl dumpBlock D (absline_blocks a)"
  by (simp add: dumpAbsLine_def absline_blocks_def dump_blocks)

lemma dumpLocVar_blocks [dump_blocks]: "dumpLocVar D v = foldl dumpBlock D (locvar_blocks v)"
  by (simp add: dumpLocVar_def locvar_blocks_def dump_blocks)

lemma dump_loop_blocks:
  "(\<And>D x. f D x = foldl dumpBlock D (b x)) \<Longrightarrow>
   foldl f D xs = foldl dumpBlock D (concat (map b xs))"
  by (induction xs arbitrary: D) simp_all

lemma dump_array_blocks:
  assumes f: "\<And>D x. f D x = foldl dumpBlock D (b x)"
  shows "foldl f (dumpInt D (of_nat (length xs))) xs = foldl dumpBlock D (array_blocks b xs)"
  by (simp only: array_blocks_def dumpInt_blocks dump_loop_blocks [OF f] foldl.simps)

lemma dumpCode_blocks [dump_blocks]:
  "dumpCode D code = foldl dumpBlock D [int_bytes (of_nat (length code)), concat (map store32 code)]"
  by (simp add: dumpCode_def dump_blocks)

lemma dumpArrays_blocks [dump_blocks]:
  "dumpConstants D k = foldl dumpBlock D (array_blocks constant_blocks k)"
  "dumpUpvalues D uv = foldl dumpBlock D (array_blocks upvalue_blocks uv)"
  by (simp_all only: dumpConstants_def dumpUpvalues_def dump_array_blocks [OF dumpConstant_blocks]
      dump_array_blocks [OF dumpUpvalue_blocks])

lemma strip_loop:
  "(\<And>D x. strip (f D x) = strip D) \<Longrightarrow> strip (foldl f D xs) = strip D"
  by (induction xs arbitrary: D) simp_all

lemma strip_loops [frame_simps]:
  "strip (foldl dumpAbsLine D xs) = strip D" "strip (foldl dumpLocVar D vs) = strip D"
  by (rule strip_loop, simp add: dump_blocks)+

lemma stripped_array:
  "take (length (if s then [] else xs)) xs = (if s then [] else xs)"
  "(if s then 0 else length xs) = length (if s then [] else xs)"
  by simp_all

lemma dumpDebug_blocks [dump_blocks]:
  "dumpDebug D f = foldl dumpBlock D (debug_blocks (strip D) f)"
proof -
  define s where "s = strip D"
  have strip: "strip (dumpInt D x) = strip D" "strip (dumpBlock D b) = strip D"
    "strip (foldl dumpBlock D bs) = strip D" for D :: "'a dump_state" and x b bs
    by (simp_all add: dump_blocks)
  have names: "foldl dumpString (dumpInt D (of_nat (length (if s then [] else pr_upvalues f))))
      (map uv_name (if s then [] else pr_upvalues f)) =
      foldl dumpBlock D (array_blocks string_blocks (if s then [] else map uv_name (pr_upvalues f)))"
    for D :: "'a dump_state"
    using dump_array_blocks [where f = dumpString and b = string_blocks and D = D and
        xs = "map uv_name (if s then [] else pr_upvalues f)", OF dumpString_blocks]
    by (cases s) simp_all
  show ?thesis
    unfolding dumpDebug_def Let_def
    by (simp only: stripped_array strip strip_loops dump_array_blocks [OF dumpAbsLine_blocks]
        dump_array_blocks [OF dumpLocVar_blocks] s_def [symmetric] names)
       (simp add: debug_blocks_def Let_def dumpInt_blocks)
qed

lemma dumpFunction_blocks:
  "dumpFunction D f psource = foldl dumpBlock D (function_blocks (strip D) f psource)"
  "dumpProtos D ps psource = foldl dumpBlock D (protos_blocks (strip D) ps psource)"
  by (induction D f psource and D ps psource rule: dumpFunction_dumpProtos.induct)
     (simp_all add: dump_blocks Let_def)

lemma luaU_dump_blocks: "luaU_dump f w d s = write_until_error w d (chunk_blocks s f)"
proof -
  define D where "D = \<lparr>writer = w, data = d, strip = s, status = 0\<rparr>"
  have "dumpFunction (dumpByte (dumpHeader D) (of_nat (length (pr_upvalues f)))) f None =
      foldl dumpBlock D (chunk_blocks s f)"
    by (simp add: chunk_blocks_def header_blocks_def dumpHeader_def Let_def dump_blocks
        dumpFunction_blocks D_def)
  then show ?thesis
    using dumpBlocks_until_error [of D "chunk_blocks s f"] by (simp add: luaU_dump_def Let_def D_def)
qed

end
