(* ===== verification/Lua_Undump.thy ===== *)
theory Lua_Undump
  imports Lua_Zio Lua_Dump
begin

text \<open>
  The reader of precompiled chunks (\<open>src/lundump.c\<close>) on the buffered stream of \<open>Lua_Zio\<close>, and
  its relation to the writer: what was dumped is loaded again. Loaded strings are new objects, so
  the loaded prototype holds their contents only. Memory allocation is taken to succeed.
\<close>

section \<open>Loading with errors\<close>

text \<open>
  The messages of \<open>error\<close>, and two outcomes that are not messages of the code:
  \<open>Out_of_bounds\<close>, a write past the end of the array \<open>upvalues\<close>, which the code does not check
  for, and \<open>Out_of_fuel\<close>, which the model's bound on the nesting makes possible and which is shown
  never to happen.
\<close>

datatype load_error = Truncated_chunk | Integer_overflow | Bad_constant_string | Not_binary_chunk
  | Version_mismatch | Format_mismatch | Corrupted_chunk | Size_mismatch string
  | Integer_format_mismatch | Float_format_mismatch | Out_of_bounds | Out_of_fuel

type_synonym 'a load = "zio \<Rightarrow> load_error + 'a \<times> zio"

definition ret :: "'a \<Rightarrow> 'a load" where
  "ret x z = Inr (x, z)"

definition raise :: "load_error \<Rightarrow> 'a load" where
  "raise e z = Inl e"

definition seqL :: "'a load \<Rightarrow> ('a \<Rightarrow> 'b load) \<Rightarrow> 'b load" where
  "seqL m k z = (case m z of Inl e \<Rightarrow> Inl e | Inr (x, z) \<Rightarrow> k x z)"

definition loadBlock :: "nat \<Rightarrow> bytes load" where
  "loadBlock sz z =
     (let (missing, b, z) = luaZ_read z sz in if missing \<noteq> 0 then Inl Truncated_chunk else Inr (b, z))"

definition loadByte :: "u8 load" where
  "loadByte z = (case zgetc z of None \<Rightarrow> Inl Truncated_chunk | Some (b, z) \<Rightarrow> Inr (b, z))"

text \<open>The loop of \<open>loadUnsigned\<close>, after \<open>limit >>= 7\<close>; every turn reads a byte.\<close>

function loadUnsigned_loop :: "u64 \<Rightarrow> u64 \<Rightarrow> u64 load" where
  "loadUnsigned_loop limit x z =
     (case loadByte z of
        Inl e \<Rightarrow> Inl e
      | Inr (b, z) \<Rightarrow>
          (if limit \<le> x then Inl Integer_overflow
           else (let x = push_bit 7 x OR ucast (b AND 0x7f)
                 in if b AND 0x80 = 0 then loadUnsigned_loop limit x z else Inr (x, z))))"
  by pat_completeness auto
termination
  by (relation "measure (\<lambda>(limit, x, z). length (stream z))")
     (auto simp: loadByte_def split: option.splits dest: zgetc_Some)

declare loadUnsigned_loop.simps [simp del]

definition loadUnsigned :: "u64 \<Rightarrow> u64 load" where
  "loadUnsigned limit = loadUnsigned_loop (drop_bit 7 limit) 0"

definition loadSize :: "u64 load" where
  "loadSize = loadUnsigned (NOT 0)"

definition INT_MAX :: u64 where "INT_MAX = 0x7fffffff"

definition loadInt :: "cint load" where
  "loadInt = seqL (loadUnsigned INT_MAX) (\<lambda>x. ret (ucast x))"

definition loadNumber :: "u64 load" where
  "loadNumber = seqL (loadBlock 8) (\<lambda>b. ret (load64 b 0))"

definition loadInteger :: "u64 load" where
  "loadInteger = seqL (loadBlock 8) (\<lambda>b. ret (load64 b 0))"

text \<open>
  Both branches on the length of the string read the same bytes; they differ in where the string
  is made, which \<open>make_string\<close> records for constants.
\<close>

definition LUAI_MAXSHORTLEN :: nat where "LUAI_MAXSHORTLEN = 40"

definition make_string :: "bytes \<Rightarrow> bytes tvalue" where
  "make_string s = (if length s \<le> LUAI_MAXSHORTLEN then LUA_VSHRSTR s else LUA_VLNGSTR s)"

definition loadStringN :: "bytes option load" where
  "loadStringN =
     seqL loadSize (\<lambda>sz.
       if sz = 0 then ret None
       else seqL (loadBlock (unat (sz - 1))) (\<lambda>s. ret (Some s)))"

definition loadString :: "bytes load" where
  "loadString =
     seqL loadStringN (\<lambda>st. case st of None \<Rightarrow> raise Bad_constant_string | Some s \<Rightarrow> ret s)"

text \<open>A \<open>for\<close> loop that fills an array of \<open>n\<close> elements.\<close>

fun load_array :: "nat \<Rightarrow> 'a load \<Rightarrow> 'a list load" where
  "load_array 0 m = ret []"
| "load_array (Suc n) m = seqL m (\<lambda>x. seqL (load_array n m) (\<lambda>xs. ret (x # xs)))"

definition loadCode :: "u32 list load" where
  "loadCode =
     seqL loadInt (\<lambda>n.
       seqL (loadBlock (unat n * 4)) (\<lambda>b. ret (map (load32 b) [0..<unat n])))"

definition loadConstant :: "bytes tvalue load" where
  "loadConstant =
     seqL loadByte (\<lambda>t.
       if t = ttypetag (LUA_VNIL :: bytes tvalue) then ret LUA_VNIL
       else if t = ttypetag (LUA_VFALSE :: bytes tvalue) then ret LUA_VFALSE
       else if t = ttypetag (LUA_VTRUE :: bytes tvalue) then ret LUA_VTRUE
       else if t = ttypetag (LUA_VNUMFLT 0 :: bytes tvalue) then seqL loadNumber (\<lambda>x. ret (LUA_VNUMFLT x))
       else if t = ttypetag (LUA_VNUMINT 0 :: bytes tvalue) then seqL loadInteger (\<lambda>i. ret (LUA_VNUMINT i))
       else if t = ttypetag (LUA_VSHRSTR ([] :: bytes)) \<or> t = ttypetag (LUA_VLNGSTR ([] :: bytes))
       then seqL loadString (\<lambda>s. ret (make_string s))
       else ret LUA_VNIL)"

definition loadConstants :: "bytes tvalue list load" where
  "loadConstants = seqL loadInt (\<lambda>n. load_array (unat n) loadConstant)"

definition loadUpvalue :: "bytes upvaldesc load" where
  "loadUpvalue =
     seqL loadByte (\<lambda>instack. seqL loadByte (\<lambda>idx. seqL loadByte (\<lambda>kind.
       ret (Upvaldesc None instack idx kind))))"

definition loadUpvalues :: "bytes upvaldesc list load" where
  "loadUpvalues = seqL loadInt (\<lambda>n. load_array (unat n) loadUpvalue)"

definition loadAbsLine :: "(cint \<times> cint) load" where
  "loadAbsLine = seqL loadInt (\<lambda>pc. seqL loadInt (\<lambda>line. ret (pc, line)))"

definition loadLocVar :: "bytes locvar load" where
  "loadLocVar =
     seqL loadStringN (\<lambda>v. seqL loadInt (\<lambda>s. seqL loadInt (\<lambda>e. ret (LocVar v s e))))"

text \<open>The last loop of \<open>loadDebug\<close> stores the names of upvalue \<open>i\<close> on without a check of \<open>i\<close>.\<close>

fun loadUpvalueNames :: "nat \<Rightarrow> bytes upvaldesc list \<Rightarrow> bytes upvaldesc list load" where
  "loadUpvalueNames 0 upvalues = ret upvalues"
| "loadUpvalueNames (Suc n) [] = seqL loadStringN (\<lambda>name. raise Out_of_bounds)"
| "loadUpvalueNames (Suc n) (u # upvalues) =
     seqL loadStringN (\<lambda>name.
       seqL (loadUpvalueNames n upvalues) (\<lambda>us.
         ret (Upvaldesc name (uv_instack u) (uv_idx u) (uv_kind u) # us)))"

definition loadDebug ::
  "bytes upvaldesc list \<Rightarrow> (bytes \<times> (cint \<times> cint) list \<times> bytes locvar list \<times> bytes upvaldesc list) load" where
  "loadDebug upvalues =
     seqL loadInt (\<lambda>n. seqL (loadBlock (unat n)) (\<lambda>lineinfo.
     seqL loadInt (\<lambda>n. seqL (load_array (unat n) loadAbsLine) (\<lambda>abslineinfo.
     seqL loadInt (\<lambda>n. seqL (load_array (unat n) loadLocVar) (\<lambda>locvars.
     seqL loadInt (\<lambda>n. seqL (loadUpvalueNames (unat n) upvalues) (\<lambda>upvalues.
       ret (lineinfo, abslineinfo, locvars, upvalues)))))))))"

text \<open>
  \<open>loadFunction\<close>, with \<open>loadProtos\<close> as the loop over the nested functions. The fuel bounds the
  nesting.
\<close>

fun loadFunction :: "nat \<Rightarrow> bytes option \<Rightarrow> bytes proto load" where
  "loadFunction 0 psource = raise Out_of_fuel"
| "loadFunction (Suc fuel) psource =
     seqL loadStringN (\<lambda>source.
     (let source = (case source of None \<Rightarrow> psource | Some s \<Rightarrow> Some s) in
     seqL loadInt (\<lambda>linedefined.
     seqL loadInt (\<lambda>lastlinedefined.
     seqL loadByte (\<lambda>numparams.
     seqL loadByte (\<lambda>is_vararg.
     seqL loadByte (\<lambda>maxstacksize.
     seqL loadCode (\<lambda>code.
     seqL loadConstants (\<lambda>k.
     seqL loadUpvalues (\<lambda>upvalues.
     seqL loadInt (\<lambda>n. seqL (load_array (unat n) (loadFunction fuel source)) (\<lambda>p.
     seqL (loadDebug upvalues) (\<lambda>(lineinfo, abslineinfo, locvars, upvalues).
       ret (Proto numparams is_vararg maxstacksize linedefined lastlinedefined k code p upvalues
              lineinfo abslineinfo locvars source))))))))))))))"

definition checkliteral :: "bytes \<Rightarrow> load_error \<Rightarrow> unit load" where
  "checkliteral s msg =
     seqL (loadBlock (length s)) (\<lambda>buff. if buff \<noteq> s then raise msg else ret ())"

definition fchecksize :: "u8 \<Rightarrow> string \<Rightarrow> unit load" where
  "fchecksize sz tname =
     seqL loadByte (\<lambda>b. if b \<noteq> sz then raise (Size_mismatch tname) else ret ())"

definition checkHeader :: "unit load" where
  "checkHeader =
     seqL (checkliteral (tl LUA_SIGNATURE) Not_binary_chunk) (\<lambda>_.
     seqL loadByte (\<lambda>v. if v \<noteq> LUAC_VERSION then raise Version_mismatch else
     seqL loadByte (\<lambda>v. if v \<noteq> LUAC_FORMAT then raise Format_mismatch else
     seqL (checkliteral LUAC_DATA Corrupted_chunk) (\<lambda>_.
     seqL (fchecksize 4 ''Instruction'') (\<lambda>_.
     seqL (fchecksize 8 ''lua_Integer'') (\<lambda>_.
     seqL (fchecksize 8 ''lua_Number'') (\<lambda>_.
     seqL loadInteger (\<lambda>i. if i \<noteq> LUAC_INT then raise Integer_format_mismatch else
     seqL loadNumber (\<lambda>x. if x \<noteq> LUAC_NUM then raise Float_format_mismatch else
     ret ())))))))))"

text \<open>
  The closure is its number of upvalues and its prototype. The caller has read and checked the
  first byte of the signature.
\<close>

definition luaU_undump :: "(u8 \<times> bytes proto) load" where
  "luaU_undump z =
     seqL checkHeader (\<lambda>_. seqL loadByte (\<lambda>nupvalues.
       seqL (loadFunction (Suc (length (stream z))) None) (\<lambda>p. ret (nupvalues, p)))) z"

section \<open>What is dumped is loaded\<close>

text \<open>\<open>loads m bs x\<close>: from a stream that begins with \<open>bs\<close>, \<open>m\<close> reads exactly \<open>bs\<close> and returns \<open>x\<close>.\<close>

definition loads :: "'a load \<Rightarrow> bytes \<Rightarrow> 'a \<Rightarrow> bool" where
  "loads m bs x \<longleftrightarrow>
     (\<forall>z rest. stream z = bs @ rest \<longrightarrow> (\<exists>z'. m z = Inr (x, z') \<and> stream z' = rest))"

named_theorems load_intros \<open>what a loader reads\<close>

lemma loads_ret [load_intros]: "loads (ret x) [] x"
  by (simp add: loads_def ret_def)

lemma loads_seqL: "loads m b1 x \<Longrightarrow> loads (k x) b2 y \<Longrightarrow> loads (seqL m k) (b1 @ b2) y"
  unfolding loads_def seqL_def
proof (intro allI impI, goal_cases)
  case (1 z rest)
  then obtain z1 where "m z = Inr (x, z1)" "stream z1 = b2 @ rest"
    by (metis append.assoc)
  with 1 show ?case by auto
qed

lemma loads_seqL_ret: "loads m b x \<Longrightarrow> loads (seqL m (\<lambda>x. ret (f x))) b (f x)"
  using loads_seqL [of m b x "\<lambda>x. ret (f x)" "[]" "f x"] by (simp add: loads_ret)

lemma loads_Byte [load_intros]: "loads loadByte [b] b"
  by (auto simp: loads_def loadByte_def zgetc_None dest: zgetc_Some split: option.splits)

lemma loads_Block [load_intros]: "length b = n \<Longrightarrow> loads (loadBlock n) b b"
  unfolding loads_def loadBlock_def
proof (intro allI impI)
  fix z rest assume len: "length b = n" and z: "stream z = b @ rest"
  obtain missing r z' where "luaZ_read z n = (missing, r, z')" by (metis prod_cases3)
  with luaZ_read_stream [OF this] len z
  show "\<exists>z'. (let (missing, b, z) = luaZ_read z n in if missing \<noteq> 0 then Inl Truncated_chunk else Inr (b, z)) =
      Inr (b, z') \<and> stream z' = rest"
    by simp
qed

subsection \<open>Sizes\<close>

text \<open>The 7-bit groups of a number, most significant first.\<close>

function groups :: "nat \<Rightarrow> bytes" where
  "groups n = (if n < 128 then [of_nat n] else groups (n div 128) @ [of_nat (n mod 128)])"
  by pat_completeness auto
termination
  by (relation "measure id") auto

declare groups.simps [simp del]

lemma groups_small: "n < 128 \<Longrightarrow> groups n = [of_nat n]"
  by (simp add: groups.simps)

lemma groups_big: "128 \<le> n \<Longrightarrow> groups n = groups (n div 128) @ [of_nat (n mod 128)]"
  by (subst groups.simps) simp

lemma length_groups: "n < 128 ^ Suc j \<Longrightarrow> length (groups n) \<le> Suc j"
proof (induction j arbitrary: n)
  case (Suc j)
  show ?case
  proof (cases "n < 128")
    case False
    have "n div 128 < 128 ^ Suc j" using Suc.prems by (simp add: less_mult_imp_div_less mult.commute)
    then show ?thesis using Suc.IH [of "n div 128"] False by (simp add: groups_big)
  qed (simp add: groups_small)
qed (simp add: groups_small)

lemma length_groups_u64: "length (groups (unat (x::u64))) \<le> 10"
proof -
  have "unat x < 2 ^ LENGTH(64)" by (rule unsigned_less)
  then have "unat x < 128 ^ Suc 9" by simp
  from length_groups [OF this] show ?thesis by simp
qed

lemma unat_drop_bit_7: "unat (drop_bit 7 (x::u64)) = unat x div 128"
  using unsigned_drop_bit_eq [of 7 x] by (simp only: drop_bit_eq_div) (simp add: unat_div)

lemma low_group: "(ucast ((x::u64) AND 0x7f) :: u8) = of_nat (unat x mod 128)"
proof -
  have "(0x7f::u64) = mask 7" by (simp add: mask_eq_exp_minus_1)
  then have "x AND 0x7f = take_bit 7 x" by (simp only: take_bit_eq_mask)
  moreover have "unat (take_bit 7 x) = unat x mod 128"
    using unsigned_take_bit_eq [of 7 x] by (simp add: take_bit_eq_mod)
  ultimately show ?thesis by (metis of_nat_unat)
qed

lemma dumpSize_loop_groups:
  "length buff = DIBS \<Longrightarrow> n + length (groups (unat x)) \<le> DIBS \<Longrightarrow>
   dumpSize_loop buff n x =
     (take (DIBS - n - length (groups (unat x))) buff @ groups (unat x) @ drop (DIBS - n) buff,
      n + length (groups (unat x)))"
proof (induction buff n x rule: dumpSize_loop.induct)
  case (1 buff n x)
  let ?b = "buff[DIBS - (n + 1) := ucast (x AND 0x7f)]"
  have split: "drop (DIBS - Suc n) ?b = of_nat (unat x mod 128) # drop (DIBS - n) buff"
    if "Suc n \<le> DIBS"
    using that "1.prems"(1) by (simp add: low_group Suc_diff_Suc flip: Cons_nth_drop_Suc)
  show ?case
  proof (cases "unat x < 128")
    case True
    then have "drop_bit 7 x = 0" by (simp add: unat_drop_bit_7 flip: unat_eq_zero)
    then have "dumpSize_loop buff n x = (?b, n + 1)"
      by (subst dumpSize_loop.simps) (simp add: Let_def)
    then show ?thesis
      using True "1.prems" split append_take_drop_id [of "DIBS - Suc n" ?b]
      by (simp add: groups_small)
  next
    case False
    then have "unat (drop_bit 7 x) \<noteq> 0" by (simp add: unat_drop_bit_7)
    then have nz: "drop_bit 7 x \<noteq> 0" by (metis unsigned_0)
    have g: "groups (unat x) = groups (unat (drop_bit 7 x)) @ [of_nat (unat x mod 128)]"
      using False by (simp add: unat_drop_bit_7 groups_big)
    have "dumpSize_loop buff n x = dumpSize_loop ?b (n + 1) (drop_bit 7 x)"
      using nz by (subst dumpSize_loop.simps) (simp add: Let_def)
    also have "\<dots> = (take (DIBS - (n + 1) - length (groups (unat (drop_bit 7 x)))) ?b @
        groups (unat (drop_bit 7 x)) @ drop (DIBS - (n + 1)) ?b,
        n + 1 + length (groups (unat (drop_bit 7 x))))"
      using "1.prems" by (intro "1.IH" [OF refl refl refl nz]) (simp_all add: g)
    finally show ?thesis using "1.prems" split by (simp add: g)
  qed
qed

definition mark_last :: "bytes \<Rightarrow> bytes" where
  "mark_last gs = butlast gs @ [last gs OR 0x80]"

lemma groups_nonempty [simp]: "groups n \<noteq> []"
  by (subst groups.simps) simp

lemma DIBS_10: "DIBS = 10"
  by (simp add: DIBS_def)

lemma size_bytes_groups: "size_bytes x = mark_last (groups (unat x))"
proof -
  define g where "g = groups (unat x)"
  have g: "g \<noteq> []" "length g \<le> 10" by (simp_all add: g_def length_groups_u64)
  have len: "length (replicate DIBS (0::u8)) = DIBS" by simp
  have loop: "dumpSize_loop (replicate DIBS 0) 0 x = (replicate (10 - length g) 0 @ g, length g)"
    using dumpSize_loop_groups [OF len, of 0 x] g by (simp add: DIBS_10 g_def [symmetric])
  define xs where "xs = replicate (10 - length g) 0 @ butlast g"
  have "length xs = 10 - length g + (length g - 1)" by (simp add: xs_def)
  moreover have "0 < length g" using g by simp
  ultimately have 9: "9 = length xs" using g(2) by arith
  have "replicate (10 - length g) 0 @ g = xs @ [last g]"
    using g(1) by (simp add: xs_def)
  then have "drop (10 - length g) ((replicate (10 - length g) 0 @ g)[9 := v]) = butlast g @ [v]"
    "(replicate (10 - length g) 0 @ g) ! 9 = last g" for v
    unfolding 9 by (simp_all only: list_update_length nth_append_length) (simp_all add: xs_def)
  then show ?thesis
    using loop by (simp add: size_bytes_def DIBS_10 mark_last_def flip: g_def)
qed

text \<open>Reading groups back: the value so far, and whether the limit check lets it pass.\<close>

definition group_step :: "u64 \<Rightarrow> u8 \<Rightarrow> u64" where
  "group_step x g = push_bit 7 x OR ucast (g AND 0x7f)"

fun below_limit :: "u64 \<Rightarrow> u64 \<Rightarrow> bytes \<Rightarrow> bool" where
  "below_limit limit x [] = True"
| "below_limit limit x (g # gs) = (x < limit \<and> below_limit limit (group_step x g) gs)"

lemma below_limit_append:
  "below_limit limit x (a @ b) = (below_limit limit x a \<and> below_limit limit (foldl group_step x a) b)"
  by (induction a arbitrary: x) auto

lemma group_take_bit: "n < 128 \<Longrightarrow> take_bit 7 (of_nat n :: 'a::len word) = of_nat n"
  by (simp add: take_bit_of_nat take_bit_nat_eq_self)

lemma group_bit_less: "n < 128 \<Longrightarrow> bit (of_nat n :: 'a::len word) k \<Longrightarrow> k < 7"
  by (metis bit_take_bit_iff group_take_bit)

lemma group_bits:
  assumes "n < 128"
  shows "(of_nat n :: u8) AND 0x80 = 0" "(of_nat n :: u8) AND 0x7f = of_nat n"
    "((of_nat n :: u8) OR 0x80) AND 0x80 \<noteq> 0" "((of_nat n :: u8) OR 0x80) AND 0x7f = of_nat n"
proof -
  define w where "w = (of_nat n :: u8)"
  have b: "bit w k \<Longrightarrow> k < 7" for k
    using group_bit_less assms by (auto simp: w_def)
  have m: "(0x7f::u8) = mask 7" "(0x80::u8) = push_bit 7 1"
    by (simp_all add: mask_eq_exp_minus_1)
  have bits: "bit (0x7f::u8) k \<longleftrightarrow> k < 7" "bit (0x80::u8) k \<longleftrightarrow> k = 7" for k
    by (simp_all only: m bit_mask_iff bit_push_bit_iff bit_1_iff) auto
  show "w AND 0x80 = 0" "w AND 0x7f = w" "(w OR 0x80) AND 0x7f = w"
    by (rule bit_word_eqI, simp only: bit_and_iff bit_or_iff bits, use b in auto)+
  have "bit ((w OR 0x80) AND 0x80) 7" by (simp only: bit_and_iff bit_or_iff bits) simp
  then show "(w OR 0x80) AND 0x80 \<noteq> 0" by auto
qed

lemma group_step_value:
  assumes "m < 2 ^ 57" "n < 128"
  shows "group_step (of_nat m) (of_nat n) = of_nat (128 * m + n)"
proof -
  have "(of_nat (128 * m) :: u64) = push_bit 7 (of_nat m)"
    by (simp add: push_bit_eq_mult)
  moreover have "push_bit 7 (of_nat m :: u64) + of_nat n = push_bit 7 (of_nat m) OR of_nat n"
  proof (rule disjunctive_add_eq_or, rule bit_word_eqI)
    fix k
    have "bit (of_nat n :: u64) k \<Longrightarrow> k < 7"
      using assms(2) by (rule group_bit_less)
    then show "bit (push_bit 7 (of_nat m) AND of_nat n :: u64) k = bit (0 :: u64) k"
      by (auto simp: bit_simps)
  qed
  moreover have "(ucast (of_nat n :: u8) :: u64) = of_nat n"
    using assms(2) by (simp add: unsigned_of_nat take_bit_eq_mod)
  ultimately show ?thesis
    using assms(2) by (simp add: group_step_def group_bits)
qed

lemma foldl_groups: "n < 2 ^ 64 \<Longrightarrow> foldl group_step 0 (groups n) = of_nat n"
proof (induction n rule: groups.induct)
  case (1 n)
  show ?case
  proof (cases "n < 128")
    case True
    then show ?thesis using group_step_value [of 0 n] by (simp add: groups_small)
  next
    case False
    have "n div 128 < 2 ^ 57" using "1.prems" by (simp add: less_mult_imp_div_less)
    moreover have "128 * (n div 128) + n mod 128 = n" by simp
    ultimately show ?thesis
      using 1 False group_step_value [of "n div 128" "n mod 128"] by (simp add: groups_big)
  qed
qed

lemma below_limit_groups:
  "n < 2 ^ 64 \<Longrightarrow> 0 < limit \<Longrightarrow> below_limit limit 0 (groups n) \<longleftrightarrow> n div 128 < unat limit"
proof (induction n rule: groups.induct)
  case (1 n)
  have pos: "0 < unat limit" using "1.prems" by (simp add: word_less_nat_alt)
  show ?case
  proof (cases "n < 128")
    case True
    then show ?thesis using "1.prems" pos by (simp add: groups_small)
  next
    case False
    have n: "n div 128 < 2 ^ 64" using "1.prems" by (simp add: less_mult_imp_div_less)
    have u: "unat (of_nat (n div 128) :: u64) = n div 128"
      using n by (simp add: unat_of_nat)
    have "below_limit limit 0 (groups n) \<longleftrightarrow>
        below_limit limit 0 (groups (n div 128)) \<and> (of_nat (n div 128) :: u64) < limit"
      using False by (simp add: groups_big below_limit_append foldl_groups [OF n])
    moreover have "below_limit limit 0 (groups (n div 128)) \<longleftrightarrow> n div 128 div 128 < unat limit"
      using "1.IH" [OF False n "1.prems"(2)] .
    moreover have "(of_nat (n div 128) :: u64) < limit \<longleftrightarrow> n div 128 < unat limit"
      by (simp only: word_less_nat_alt u)
    moreover have "n div 128 div 128 \<le> n div 128" by (rule div_le_dividend)
    ultimately show ?thesis by linarith
  qed
qed

lemma group_step_flag: "n < 128 \<Longrightarrow> group_step x (of_nat n OR 0x80) = group_step x (of_nat n)"
  by (simp add: group_step_def group_bits)

lemma loadByte_stream: "stream z = b # rest \<Longrightarrow> \<exists>z'. loadByte z = Inr (b, z') \<and> stream z' = rest"
  using loads_Byte [of b] by (auto simp: loads_def)

text \<open>Every group but the last has its high bit clear.\<close>

lemma groups_last: "\<exists>gs g. groups n = gs @ [of_nat g] \<and> g < 128 \<and> (\<forall>x\<in>set gs. \<exists>m<128. x = of_nat m)"
proof (induction n rule: groups.induct)
  case (1 n)
  show ?case
  proof (cases "n < 128")
    case False
    then obtain gs g where "groups (n div 128) = gs @ [of_nat g]" "g < 128"
      "\<forall>x\<in>set gs. \<exists>m<128. x = of_nat m"
      using 1 by blast
    then show ?thesis
      using False by (intro exI [of _ "gs @ [of_nat g]"] exI [of _ "n mod 128"]) (auto simp: groups_big)
  qed (auto simp: groups_small)
qed

lemma loadUnsigned_loop_groups:
  assumes "\<forall>x\<in>set gs. \<exists>m<128. x = of_nat m" "g < 128" "stream z = gs @ (of_nat g OR 0x80) # rest"
  shows "if below_limit limit x (gs @ [of_nat g])
    then \<exists>z'. loadUnsigned_loop limit x z = Inr (foldl group_step x (gs @ [of_nat g]), z') \<and> stream z' = rest
    else loadUnsigned_loop limit x z = Inl Integer_overflow"
  using assms
proof (induction gs arbitrary: x z)
  case Nil
  then obtain z' where "loadByte z = Inr (of_nat g OR 0x80, z')" "stream z' = rest"
    using loadByte_stream by fastforce
  then show ?case
    using Nil.prems(2) group_step_flag [of g x]
    by (subst (1 2) loadUnsigned_loop.simps) (auto simp: group_bits Let_def group_step_def not_less)
next
  case (Cons b gs)
  obtain m where m: "m < 128" "b = of_nat m" using Cons.prems(1) by auto
  obtain z' where z': "loadByte z = Inr (b, z')" "stream z' = gs @ (of_nat g OR 0x80) # rest"
    using loadByte_stream [of z b] Cons.prems(3) by auto
  have "loadUnsigned_loop limit x z =
      (if limit \<le> x then Inl Integer_overflow else loadUnsigned_loop limit (group_step x b) z')"
    using m z' by (subst loadUnsigned_loop.simps) (simp add: group_bits Let_def group_step_def)
  then show ?case
    using Cons.IH [of z' "group_step x b"] Cons.prems z' by (auto simp: not_less)
qed

text \<open>A dumped size is read back exactly when its leading part passes the limit check.\<close>

lemma loadUnsigned_size:
  assumes "stream z = size_bytes v @ rest" "0 < drop_bit 7 limit"
  shows "if unat v div 128 < unat limit div 128
    then \<exists>z'. loadUnsigned limit z = Inr (v, z') \<and> stream z' = rest
    else loadUnsigned limit z = Inl Integer_overflow"
proof -
  obtain gs g where g: "groups (unat v) = gs @ [of_nat g]" "g < 128" "\<forall>x\<in>set gs. \<exists>m<128. x = of_nat m"
    using groups_last by blast
  have v: "unat v < 2 ^ 64"
    by (rule u64_less)
  have "stream z = gs @ (of_nat g OR 0x80) # rest"
    using assms(1) by (simp add: size_bytes_groups mark_last_def g(1))
  from loadUnsigned_loop_groups [OF g(3,2) this, of "drop_bit 7 limit" 0] show ?thesis
    using below_limit_groups [OF v assms(2)] foldl_groups [OF v]
    by (simp add: loadUnsigned_def unat_drop_bit_7 flip: g(1) split: if_splits)
qed

subsection \<open>Values that survive\<close>

text \<open>
  The limit check of \<open>loadUnsigned\<close> refuses the 128 largest numbers of each type, so these do not
  come back; everything below does.
\<close>

definition int_ok :: "cint \<Rightarrow> bool" where
  "int_ok x \<longleftrightarrow> unat x < 2 ^ 31 - 128"

definition size_ok :: "nat \<Rightarrow> bool" where
  "size_ok n \<longleftrightarrow> n < 2 ^ 31 - 128"

definition string_ok :: "tstring option \<Rightarrow> bool" where
  "string_ok s \<longleftrightarrow> (\<forall>t. s = Some t \<longrightarrow> length (ts_contents t) + 1 < 2 ^ 64 - 128)"

fun constant_ok :: "tstring tvalue \<Rightarrow> bool" where
  "constant_ok (LUA_VSHRSTR s) = (length (ts_contents s) \<le> LUAI_MAXSHORTLEN)"
| "constant_ok (LUA_VLNGSTR s) =
     (LUAI_MAXSHORTLEN < length (ts_contents s) \<and> string_ok (Some s))"
| "constant_ok v = True"

lemma unat_scast_pos: "unat (x::cint) < 2 ^ 31 \<Longrightarrow> unat (scast x :: u64) = unat x"
proof -
  assume x: "unat x < 2 ^ 31"
  then have t: "take_bit 31 x = x"
    by (simp add: word_unat_eq_iff unsigned_take_bit_eq take_bit_nat_eq_self_iff)
  have b: "bit x k \<Longrightarrow> k < 31" for k
    using bit_take_bit_iff [of 31 x k] by (simp add: t)
  have "bit x (min 31 n) = bit x n" for n
    using b [of "min 31 n"] b [of n] by (cases "n < 31") (auto simp: min_def)
  then have "(scast x :: u64) = ucast x"
    by (intro bit_word_eqI) (simp add: bit_signed_iff bit_unsigned_iff)
  moreover have "take_bit 64 (unat x) = unat x"
    using x by (simp add: take_bit_nat_eq_self_iff)
  ultimately show ?thesis by (simp add: unsigned_ucast_eq)
qed

lemma loadInt_int:
  assumes "stream z = int_bytes x @ rest" "unat x < 2 ^ 31"
  shows "if int_ok x then \<exists>z'. loadInt z = Inr (x, z') \<and> stream z' = rest
    else loadInt z = Inl Integer_overflow"
proof -
  have u: "unat (scast x :: u64) = unat x" using assms(2) by (rule unat_scast_pos)
  have "take_bit 32 (unat x) = unat x"
    using assms(2) by (simp add: take_bit_nat_eq_self_iff)
  then have c: "ucast (scast x :: u64) = x"
    using u by (simp add: word_unat_eq_iff unsigned_ucast_eq)
  have lim: "0 < drop_bit 7 INT_MAX" "unat INT_MAX div 128 = 2 ^ 24 - 1"
    by (simp_all add: INT_MAX_def)
  have "unat x div 128 < 2 ^ 24 - 1 \<longleftrightarrow> int_ok x"
    by (auto simp: int_ok_def div_less_iff_less_mult)
  then show ?thesis
    using loadUnsigned_size [OF _ lim(1), of z "scast x" rest] assms(1) u c lim(2)
    by (auto simp: loadInt_def seqL_def ret_def int_bytes_def split: if_splits)
qed

lemma loads_Int [load_intros]: "int_ok x \<Longrightarrow> loads loadInt (int_bytes x) x"
  unfolding loads_def
proof (intro allI impI)
  fix z rest assume x: "int_ok x" and z: "stream z = int_bytes x @ rest"
  have "unat x < 2 ^ 31" using x by (simp add: int_ok_def)
  from loadInt_int [OF z this] x show "\<exists>z'. loadInt z = Inr (x, z') \<and> stream z' = rest" by simp
qed

lemma size_ok_int: "size_ok n \<Longrightarrow> int_ok (of_nat n) \<and> unat (of_nat n :: cint) = n"
  by (simp add: size_ok_def int_ok_def unat_of_nat)

lemma loads_Size: "unat x < 2 ^ 64 - 128 \<Longrightarrow> loads loadSize (size_bytes x) x"
  unfolding loads_def loadSize_def
proof (intro allI impI)
  fix z rest assume x: "unat x < 2 ^ 64 - 128" and z: "stream z = size_bytes x @ rest"
  have lim: "0 < drop_bit 7 (NOT 0 :: u64)" "unat (NOT 0 :: u64) div 128 = 2 ^ 57 - 1"
    by (simp_all add: unsigned_minus_1_eq_mask mask_eq_exp_minus_1)
  have "unat x div 128 < 2 ^ 57 - 1" using x by (simp add: div_less_iff_less_mult)
  with loadUnsigned_size [OF z lim(1)] lim(2)
  show "\<exists>z'. loadUnsigned (NOT 0) z = Inr (x, z') \<and> stream z' = rest" by simp
qed

lemma load32_append: "length a = 4 * n \<Longrightarrow> load32 (a @ b) (n + i) = load32 b i"
  by (simp add: load32_def nth_append algebra_simps)

lemma load32_first: "length a = 4 \<Longrightarrow> load32 (a @ b) 0 = load32 a 0"
  by (simp add: load32_def nth_append)

lemma load32_words: "map (load32 (concat (map store32 code))) [0..<length code] = code"
proof (induction code)
  case (Cons c code)
  have "[0..<length (c # code)] = 0 # map Suc [0..<length code]"
    by (simp add: upt_conv_Cons map_Suc_upt del: upt_Suc)
  moreover have "load32 (store32 c @ concat (map store32 code)) (Suc i) = load32 (concat (map store32 code)) i" for i
    using load32_append [of "store32 c" 1 _ i] by simp
  ultimately show ?case
    using Cons by (simp add: load32_first load32_store32 comp_def)
qed simp

lemma loads_Number [load_intros]:
  "loads loadNumber (store64 x) x" "loads loadInteger (store64 x) x"
  using loads_seqL_ret [OF loads_Block, of "store64 x" 8 "\<lambda>b. load64 b 0"]
  by (simp_all add: loadNumber_def loadInteger_def load64_store64)

lemma loads_StringN [load_intros]:
  assumes "string_ok s"
  shows "loads loadStringN (concat (string_blocks s)) (map_option ts_contents s)"
proof (cases s)
  case None
  have "loads loadSize (size_bytes 0) 0" by (rule loads_Size) simp
  then have "loads loadStringN (size_bytes 0 @ []) None"
    unfolding loadStringN_def by (rule loads_seqL) (simp add: loads_ret)
  then show ?thesis by (simp add: None string_blocks_def)
next
  case (Some t)
  define n where "n = length (ts_contents t)"
  have n: "n + 1 < 2 ^ 64 - 128" using assms Some by (simp add: string_ok_def n_def)
  have u: "unat (of_nat n + 1 :: u64) = n + 1" "unat (of_nat n :: u64) = n"
    using n by (simp_all add: unat_word_ariths unat_of_nat)
  have nz: "of_nat n + 1 \<noteq> (0 :: u64)" using u(1) by (metis add_is_0 one_neq_zero unsigned_0)
  have "loads loadSize (size_bytes (of_nat n + 1)) (of_nat n + 1)"
    using n by (intro loads_Size) (simp only: u)
  then have "loads loadStringN (size_bytes (of_nat n + 1) @ ts_contents t) (Some (ts_contents t))"
    unfolding loadStringN_def
  proof (rule loads_seqL)
    show "loads (if of_nat n + 1 = (0 :: u64) then ret None
        else seqL (loadBlock (unat (of_nat n + 1 - 1 :: u64))) (\<lambda>s. ret (Some s)))
      (ts_contents t) (Some (ts_contents t))"
      using nz loads_seqL_ret [OF loads_Block [of "ts_contents t" n]]
      by (simp add: u flip: n_def)
  qed
  then show ?thesis by (simp add: Some string_blocks_def n_def)
qed

lemma loads_load_array:
  "(\<And>x. x \<in> set xs \<Longrightarrow> loads m (concat (b x)) (f x)) \<Longrightarrow>
   loads (load_array (length xs) m) (concat (concat (map b xs))) (map f xs)"
proof (induction xs)
  case (Cons x xs)
  have "loads (load_array (length xs) m) (concat (concat (map b xs))) (map f xs)"
    using Cons by simp
  note rest = loads_seqL_ret [OF this, of "\<lambda>ys. f x # ys"]
  have "loads (load_array (length (x # xs)) m) (concat (b x) @ concat (concat (map b xs))) (f x # map f xs)"
    unfolding length_Cons load_array.simps
    by (rule loads_seqL [where x = "f x"]) (simp_all add: Cons.prems rest)
  then show ?case by simp
qed (simp add: loads_ret)

lemma loads_array:
  assumes "size_ok (length xs)" "\<And>x. x \<in> set xs \<Longrightarrow> loads m (concat (b x)) (f x)"
  shows "loads (seqL loadInt (\<lambda>n. load_array (unat n) m)) (concat (array_blocks b xs)) (map f xs)"
proof -
  define n where "n = (of_nat (length xs) :: cint)"
  have n: "int_ok n" "unat n = length xs"
    using size_ok_int [OF assms(1)] by (simp_all add: n_def)
  have "loads (seqL loadInt (\<lambda>n. load_array (unat n) m))
      (int_bytes n @ concat (concat (map b xs))) (map f xs)"
    by (rule loads_seqL [OF loads_Int [OF n(1)]]) (simp add: n loads_load_array assms(2))
  then show ?thesis by (simp add: array_blocks_def n_def)
qed

lemma load_tags:
  "ttypetag (LUA_VNIL :: 's tvalue) = 0" "ttypetag (LUA_VFALSE :: 's tvalue) = 1"
  "ttypetag (LUA_VTRUE :: 's tvalue) = 17" "ttypetag (LUA_VNUMINT i :: 's tvalue) = 3"
  "ttypetag (LUA_VNUMFLT x :: 's tvalue) = 19" "ttypetag (LUA_VSHRSTR s) = 4"
  "ttypetag (LUA_VLNGSTR s) = 20"
  by (simp_all add: makevariant_def LUA_TNIL_def LUA_TBOOLEAN_def LUA_TNUMBER_def LUA_TSTRING_def)

declare ttypetag.simps [simp del]

text \<open>Reading one item and going on.\<close>

lemmas load_steps = loads_seqL [OF loads_Byte] loads_seqL [OF loads_Int] loads_seqL [OF loads_StringN]
  loads_seqL [OF loads_Block] loads_seqL [OF loads_Number(1)] loads_seqL [OF loads_Number(2)]

lemma loads_String:
  assumes "string_ok (Some t)"
  shows "loads loadString (concat (string_blocks (Some t))) (ts_contents t)"
proof -
  have "loads loadString (concat (string_blocks (Some t)) @ []) (ts_contents t)"
    unfolding loadString_def
    by (rule loads_seqL [OF loads_StringN [OF assms]]) (simp add: loads_ret)
  then show ?thesis by simp
qed

lemma loads_Constant: "constant_ok v \<Longrightarrow> loads loadConstant (concat (constant_blocks v)) (map_tvalue ts_contents v)"
proof (cases v)
  case (LUA_VSHRSTR s)
  assume ok: "constant_ok v"
  then have "string_ok (Some s)" by (simp add: LUA_VSHRSTR string_ok_def LUAI_MAXSHORTLEN_def)
  from loads_seqL_ret [OF loads_String [OF this], of make_string]
  have "loads loadConstant ([4] @ concat (string_blocks (Some s))) (make_string (ts_contents s))"
    unfolding loadConstant_def by (intro loads_seqL [OF loads_Byte]) (simp add: load_tags)
  then show ?thesis using ok by (simp add: LUA_VSHRSTR load_tags make_string_def)
next
  case (LUA_VLNGSTR s)
  assume ok: "constant_ok v"
  then have "string_ok (Some s)" by (simp add: LUA_VLNGSTR)
  from loads_seqL_ret [OF loads_String [OF this], of make_string]
  have "loads loadConstant ([20] @ concat (string_blocks (Some s))) (make_string (ts_contents s))"
    unfolding loadConstant_def by (intro loads_seqL [OF loads_Byte]) (simp add: load_tags)
  then show ?thesis using ok by (simp add: LUA_VLNGSTR load_tags make_string_def)
next
  case (LUA_VNUMFLT x)
  have "loads loadConstant ([19] @ store64 x) (LUA_VNUMFLT x)"
    unfolding loadConstant_def
    by (intro loads_seqL [OF loads_Byte]) (simp add: load_tags loads_seqL_ret loads_Number)
  then show ?thesis by (simp add: LUA_VNUMFLT load_tags)
next
  case (LUA_VNUMINT x)
  have "loads loadConstant ([3] @ store64 x) (LUA_VNUMINT x)"
    unfolding loadConstant_def
    by (intro loads_seqL [OF loads_Byte]) (simp add: load_tags loads_seqL_ret loads_Number)
  then show ?thesis by (simp add: LUA_VNUMINT load_tags)
next
  case LUA_VNIL
  have "loads loadConstant ([0] @ []) LUA_VNIL"
    unfolding loadConstant_def by (intro loads_seqL [OF loads_Byte]) (simp add: load_tags loads_ret)
  then show ?thesis by (simp add: LUA_VNIL load_tags)
next
  case LUA_VFALSE
  have "loads loadConstant ([1] @ []) LUA_VFALSE"
    unfolding loadConstant_def by (intro loads_seqL [OF loads_Byte]) (simp add: load_tags loads_ret)
  then show ?thesis by (simp add: LUA_VFALSE load_tags)
next
  case LUA_VTRUE
  have "loads loadConstant ([17] @ []) LUA_VTRUE"
    unfolding loadConstant_def by (intro loads_seqL [OF loads_Byte]) (simp add: load_tags loads_ret)
  then show ?thesis by (simp add: LUA_VTRUE load_tags)
qed

lemma loads_Upvalue:
  "loads loadUpvalue (concat (upvalue_blocks u)) (Upvaldesc None (uv_instack u) (uv_idx u) (uv_kind u))"
  unfolding loadUpvalue_def upvalue_blocks_def concat.simps
  by (rule load_steps loads_ret)+

lemma loads_AbsLine: "int_ok (fst a) \<Longrightarrow> int_ok (snd a) \<Longrightarrow> loads loadAbsLine (concat (absline_blocks a)) a"
  unfolding loadAbsLine_def absline_blocks_def concat.simps
  by (rule load_steps loads_ret | assumption | simp add: loads_ret)+

definition locvar_ok :: "tstring locvar \<Rightarrow> bool" where
  "locvar_ok v \<longleftrightarrow> string_ok (lv_varname v) \<and> int_ok (lv_startpc v) \<and> int_ok (lv_endpc v)"

lemma loads_LocVar:
  "locvar_ok v \<Longrightarrow> loads loadLocVar (concat (locvar_blocks v)) (map_locvar ts_contents v)"
proof (cases v)
  case (LocVar n s e)
  assume ok: "locvar_ok v"
  have "loads loadLocVar (concat (string_blocks n) @ int_bytes s @ int_bytes e @ [])
      (LocVar (map_option ts_contents n) s e)"
    unfolding loadLocVar_def
    by (rule load_steps loads_ret | use ok LocVar in \<open>simp add: locvar_ok_def\<close>)+
  then show ?thesis by (simp add: LocVar locvar_blocks_def)
qed

subsection \<open>Whole functions\<close>

text \<open>Stripping removes the debug information.\<close>

fun strip_upvalue :: "'s upvaldesc \<Rightarrow> 's upvaldesc" where
  "strip_upvalue (Upvaldesc name instack idx kind) = Upvaldesc None instack idx kind"

fun strip_proto :: "'s proto \<Rightarrow> 's proto" where
  "strip_proto (Proto np va ms ld lld k code ps uv li ali lv source) =
     Proto np va ms ld lld k code (map strip_proto ps) (map strip_upvalue uv) [] [] [] None"

text \<open>
  What a function must satisfy to come back: its numbers and sizes are below the limits, its
  constants have the variant of their length, and source names agree with their addresses (a
  name of the same address as the parent's is the parent's, and only a function whose parent has
  no name has none).
\<close>

definition source_ok :: "tstring option \<Rightarrow> tstring option \<Rightarrow> bool" where
  "source_ok source psource \<longleftrightarrow> string_ok source \<and>
     (same_string source psource \<longrightarrow> source = psource) \<and> (source = None \<longrightarrow> psource = None)"

fun proto_ok :: "tstring option \<Rightarrow> tstring proto \<Rightarrow> bool" where
  "proto_ok psource (Proto np va ms ld lld k code ps uv li ali lv source) \<longleftrightarrow>
     source_ok source psource \<and> int_ok ld \<and> int_ok lld \<and> size_ok (length k) \<and>
     size_ok (length code) \<and> size_ok (length ps) \<and> size_ok (length uv) \<and> size_ok (length li) \<and>
     size_ok (length ali) \<and> size_ok (length lv) \<and> list_all constant_ok k \<and>
     list_all (\<lambda>u. string_ok (uv_name u)) uv \<and>
     list_all (\<lambda>a. int_ok (fst a) \<and> int_ok (snd a)) ali \<and> list_all locvar_ok lv \<and>
     (\<forall>f\<in>set ps. proto_ok source f)"

definition loaded :: "bool \<Rightarrow> tstring proto \<Rightarrow> bytes proto" where
  "loaded s f = map_proto ts_contents (if s then strip_proto f else f)"

lemma loads_loadCode:
  assumes "size_ok (length code)"
  shows "loads loadCode (int_bytes (of_nat (length code)) @ concat (map store32 code)) code"
proof -
  define n where "n = (of_nat (length code) :: cint)"
  have n: "int_ok n" "unat n = length code"
    using size_ok_int [OF assms] by (simp_all add: n_def)
  have "length (concat (map store32 code)) = length code * 4"
    by (induction code) simp_all
  from loads_seqL_ret [OF loads_Block [OF this], of "\<lambda>b. map (load32 b) [0..<length code]"]
  have "loads loadCode (int_bytes n @ concat (map store32 code)) code"
    unfolding loadCode_def by (intro loads_seqL [OF loads_Int [OF n(1)]]) (simp add: n load32_words)
  then show ?thesis by (simp add: n_def)
qed

lemma loads_UpvalueNames:
  assumes "list_all (\<lambda>u. string_ok (uv_name u)) uv"
  shows "loads (loadUpvalueNames (length uv) (map (\<lambda>u. Upvaldesc None (uv_instack u) (uv_idx u) (uv_kind u)) uv))
    (concat (concat (map string_blocks (map uv_name uv)))) (map (map_upvaldesc ts_contents) uv)"
  using assms
proof (induction uv)
  case (Cons u uv)
  note IH = Cons.IH [OF Cons.prems [simplified, THEN conjunct2]]
  have "loads (loadUpvalueNames (length (u # uv)) (map (\<lambda>u. Upvaldesc None (uv_instack u) (uv_idx u) (uv_kind u)) (u # uv)))
    (concat (string_blocks (uv_name u)) @ concat (concat (map string_blocks (map uv_name uv))))
    (Upvaldesc (map_option ts_contents (uv_name u)) (uv_instack u) (uv_idx u) (uv_kind u) #
     map (map_upvaldesc ts_contents) uv)"
    using Cons.prems loads_seqL_ret [OF IH] by (simp, intro load_steps) simp_all
  then show ?case by (cases u) simp
qed (simp add: loads_ret)

text \<open>What the loop over the names makes of the upvalues.\<close>

definition loaded_upvalues :: "bool \<Rightarrow> tstring upvaldesc list \<Rightarrow> bytes upvaldesc list" where
  "loaded_upvalues s uv = map (map_upvaldesc ts_contents) (if s then map strip_upvalue uv else uv)"

lemma strip_upvalue_eq:
  "map_upvaldesc ts_contents (strip_upvalue u) = Upvaldesc None (uv_instack u) (uv_idx u) (uv_kind u)"
  by (cases u) simp

lemma loads_names:
  assumes "size_ok (length uv)" "list_all (\<lambda>u. string_ok (uv_name u)) uv"
  shows "loads (seqL loadInt (\<lambda>n. loadUpvalueNames (unat n)
        (map (\<lambda>u. Upvaldesc None (uv_instack u) (uv_idx u) (uv_kind u)) uv)))
      (concat (array_blocks string_blocks (if s then [] else map uv_name uv))) (loaded_upvalues s uv)"
proof (cases s)
  case True
  have "int_ok 0" by (simp add: int_ok_def)
  then have "loads (seqL loadInt (\<lambda>n. loadUpvalueNames (unat n)
        (map (\<lambda>u. Upvaldesc None (uv_instack u) (uv_idx u) (uv_kind u)) uv))) (int_bytes 0 @ [])
      (map (\<lambda>u. Upvaldesc None (uv_instack u) (uv_idx u) (uv_kind u)) uv)"
    by (intro loads_seqL [OF loads_Int]) (simp_all add: loads_ret)
  then show ?thesis
    using True by (simp add: array_blocks_def loaded_upvalues_def strip_upvalue_eq comp_def)
next
  case False
  define n where "n = (of_nat (length uv) :: cint)"
  have n: "int_ok n" "unat n = length uv"
    using size_ok_int [OF assms(1)] by (simp_all add: n_def)
  have "loads (seqL loadInt (\<lambda>n. loadUpvalueNames (unat n)
        (map (\<lambda>u. Upvaldesc None (uv_instack u) (uv_idx u) (uv_kind u)) uv)))
      (int_bytes n @ concat (concat (map string_blocks (map uv_name uv)))) (map (map_upvaldesc ts_contents) uv)"
    by (intro loads_seqL [OF loads_Int [OF n(1)]]) (simp only: n loads_UpvalueNames [OF assms(2)])
  then show ?thesis by (simp add: False array_blocks_def loaded_upvalues_def n_def)
qed

lemma seqL_assoc: "seqL (seqL m k) h = seqL m (\<lambda>x. seqL (k x) h)"
  by (rule ext) (simp add: seqL_def split: sum.split)

lemma seqL_assoc': "seqL m (\<lambda>n. seqL (a n) h) = seqL (seqL m a) h"
  by (simp add: seqL_assoc)

lemma loads_Debug:
  assumes "size_ok (length uv)" "list_all (\<lambda>u. string_ok (uv_name u)) uv"
    and "size_ok (length li)" "size_ok (length ali)" "size_ok (length lv)"
    and "list_all (\<lambda>a. int_ok (fst a) \<and> int_ok (snd a)) ali" "list_all locvar_ok lv"
  shows "loads (loadDebug (map (\<lambda>u. Upvaldesc None (uv_instack u) (uv_idx u) (uv_kind u)) uv))
    (concat (debug_blocks s (Proto np va ms ld lld k code ps uv li ali lv source)))
    (if s then [] else li, if s then [] else ali, if s then [] else map (map_locvar ts_contents) lv,
     loaded_upvalues s uv)"
proof -
  let ?li = "if s then [] else li" and ?ali = "if s then [] else ali" and ?lv = "if s then [] else lv"
  define n where "n = (of_nat (length ?li) :: cint)"
  have ok: "size_ok (length ?li)" "size_ok (length ?ali)" "size_ok (length ?lv)"
    using assms by (auto simp: size_ok_def)
  then have n: "int_ok n" "unat n = length ?li"
    using size_ok_int by (auto simp: n_def)
  have li: "loads (seqL loadInt (\<lambda>n. loadBlock (unat n))) (int_bytes n @ ?li) ?li"
    by (intro loads_seqL [OF loads_Int [OF n(1)]]) (simp add: n loads_Block)
  have ali: "loads (seqL loadInt (\<lambda>n. load_array (unat n) loadAbsLine))
      (concat (array_blocks absline_blocks ?ali)) (map (\<lambda>a. a) ?ali)"
    using assms(6) by (intro loads_array ok) (auto simp: list_all_iff intro: loads_AbsLine split: if_splits)
  have lv: "loads (seqL loadInt (\<lambda>n. load_array (unat n) loadLocVar))
      (concat (array_blocks locvar_blocks ?lv)) (map (map_locvar ts_contents) ?lv)"
    using assms(7) by (intro loads_array ok) (auto simp: list_all_iff intro: loads_LocVar split: if_splits)
  note names = loads_names [OF assms(1,2), of s]
  have "loads (loadDebug (map (\<lambda>u. Upvaldesc None (uv_instack u) (uv_idx u) (uv_kind u)) uv))
    ((int_bytes n @ ?li) @ concat (array_blocks absline_blocks ?ali) @
     concat (array_blocks locvar_blocks ?lv) @
     concat (array_blocks string_blocks (if s then [] else map uv_name uv)) @ [])
    (?li, map (\<lambda>a. a) ?ali, map (map_locvar ts_contents) ?lv, loaded_upvalues s uv)"
    unfolding loadDebug_def seqL_assoc'
    by (intro loads_seqL [OF li] loads_seqL [OF ali] loads_seqL [OF lv] loads_seqL [OF names] loads_ret)
  then show ?thesis
    by (cases s) (simp_all add: debug_blocks_def Let_def n_def)
qed

lemma protos_blocks_concat: "protos_blocks s ps source = concat (map (\<lambda>f. function_blocks s f source) ps)"
  by (induction ps) simp_all

lemma loaded_proto:
  "loaded s (Proto np va ms ld lld k code ps uv li ali lv source) =
   Proto np va ms ld lld (map (map_tvalue ts_contents) k) code (map (loaded s) ps) (loaded_upvalues s uv)
     (if s then [] else li) (if s then [] else ali) (if s then [] else map (map_locvar ts_contents) lv)
     (if s then None else map_option ts_contents source)"
  by (cases s) (simp_all add: loaded_def loaded_upvalues_def comp_def)

lemma loads_Function:
  assumes "proto_ok psource f" "length (concat (function_blocks s f psource)) \<le> fuel"
  shows "loads (loadFunction fuel (if s then None else map_option ts_contents psource))
    (concat (function_blocks s f psource)) (loaded s f)"
  using assms
proof (induction f arbitrary: psource fuel)
  case (Proto np va ms ld lld k code ps uv li ali lv source)
  let ?f = "Proto np va ms ld lld k code ps uv li ali lv source"
  let ?out = "if s \<or> same_string source psource then None else source"
  let ?src = "if s then None else map_option ts_contents source"
  from Proto.prems(1) have ok: "source_ok source psource" "int_ok ld" "int_ok lld" "size_ok (length k)"
    "size_ok (length code)" "size_ok (length ps)" "size_ok (length uv)" "size_ok (length li)"
    "size_ok (length ali)" "size_ok (length lv)" "list_all constant_ok k"
    "list_all (\<lambda>u. string_ok (uv_name u)) uv" "list_all (\<lambda>a. int_ok (fst a) \<and> int_ok (snd a)) ali"
    "list_all locvar_ok lv" "\<forall>f\<in>set ps. proto_ok source f"
    by simp_all
  have ps_len: "length (concat (function_blocks s g source)) < length (concat (function_blocks s ?f psource))"
    if g: "g \<in> set ps" for g
  proof -
    have "length (concat (function_blocks s g source)) \<le> length (concat (protos_blocks s ps source))"
      using g unfolding protos_blocks_concat by (induction ps) auto
    then show ?thesis by simp
  qed
  from Proto.prems(2) obtain fuel' where fuel: "fuel = Suc fuel'"
    by (cases fuel) auto
  have src: "loads loadStringN (concat (string_blocks ?out)) (map_option ts_contents ?out)"
    using ok(1) by (intro loads_StringN) (auto simp: source_ok_def string_ok_def)
  have src_eq: "(case map_option ts_contents ?out of None \<Rightarrow> if s then None else map_option ts_contents psource
      | Some x \<Rightarrow> Some x) = ?src"
    using ok(1) by (cases source) (auto simp: source_ok_def same_string_def split: option.split)
  note code = loads_loadCode [OF ok(5)]
  have k: "loads loadConstants (concat (array_blocks constant_blocks k)) (map (map_tvalue ts_contents) k)"
    unfolding loadConstants_def using ok(11)
    by (intro loads_array ok) (auto simp: list_all_iff intro: loads_Constant)
  have uv: "loads loadUpvalues (concat (array_blocks upvalue_blocks uv))
      (map (\<lambda>u. Upvaldesc None (uv_instack u) (uv_idx u) (uv_kind u)) uv)"
    unfolding loadUpvalues_def by (intro loads_array ok loads_Upvalue)
  have ps: "loads (seqL loadInt (\<lambda>n. load_array (unat n) (loadFunction fuel' ?src)))
      (concat (array_blocks (\<lambda>f. function_blocks s f source) ps)) (map (loaded s) ps)"
  proof (intro loads_array ok)
    fix g assume g: "g \<in> set ps"
    have "length (concat (function_blocks s g source)) \<le> fuel'"
      using ps_len [OF g] Proto.prems(2) fuel by linarith
    with g ok(15) show "loads (loadFunction fuel' ?src) (concat (function_blocks s g source)) (loaded s g)"
      by (intro Proto.IH) auto
  qed
  note dbg = loads_Debug [OF ok(7,12,8,9,10,13,14), of s np va ms ld lld k code ps source]
  have "loads (loadFunction (Suc fuel') (if s then None else map_option ts_contents psource))
    (concat (string_blocks ?out) @ int_bytes ld @ int_bytes lld @ [np] @ [va] @ [ms] @
     (int_bytes (of_nat (length code)) @ concat (map store32 code)) @
     concat (array_blocks constant_blocks k) @ concat (array_blocks upvalue_blocks uv) @
     concat (array_blocks (\<lambda>f. function_blocks s f source) ps) @ concat (debug_blocks s ?f) @ [])
    (loaded s ?f)"
    unfolding loadFunction.simps loaded_proto seqL_assoc' [of loadInt "\<lambda>n. load_array (unat n) (loadFunction _ _)"]
    apply (rule loads_seqL [OF src])
    unfolding src_eq Let_def
    apply (rule loads_seqL [OF loads_Int [OF ok(2)]] loads_seqL [OF loads_Int [OF ok(3)]])+
    apply (rule loads_seqL [OF loads_Byte])+
    apply (rule loads_seqL [OF code])
    apply (rule loads_seqL [OF k])
    apply (rule loads_seqL [OF uv])
    apply (rule loads_seqL [OF ps])
    apply (rule loads_seqL [OF dbg])
    by (simp add: loads_ret)
  then show ?case by (simp add: fuel array_blocks_def protos_blocks_concat)
qed

subsection \<open>The chunk\<close>

lemma loads_checkHeader: "loads checkHeader (tl (concat header_blocks)) ()"
proof -
  have lit: "loads (checkliteral s msg) s ()" for s msg
  proof -
    have "loads (checkliteral s msg) (s @ []) ()"
      unfolding checkliteral_def by (rule loads_seqL [OF loads_Block]) (simp_all add: loads_ret)
    then show ?thesis by simp
  qed
  have sz: "loads (fchecksize b t) [b] ()" for b t
  proof -
    have "loads (fchecksize b t) ([b] @ []) ()"
      unfolding fchecksize_def by (rule loads_seqL [OF loads_Byte]) (simp add: loads_ret)
    then show ?thesis by simp
  qed
  have "loads checkHeader (tl LUA_SIGNATURE @ [LUAC_VERSION] @ [LUAC_FORMAT] @ LUAC_DATA @ [4] @ [8] @ [8] @
      store64 LUAC_INT @ store64 LUAC_NUM @ []) ()"
    unfolding checkHeader_def
    apply (rule loads_seqL [OF lit])
    apply (rule loads_seqL [OF loads_Byte], simp only: simp_thms if_False)+
    apply (rule loads_seqL [OF lit])
    apply (rule loads_seqL [OF sz])+
    apply (rule loads_seqL [OF loads_Number(2)], simp only: simp_thms if_False)
    apply (rule loads_seqL [OF loads_Number(1)])
    by (simp add: loads_ret)
  then show ?thesis by (simp add: header_blocks_def LUA_SIGNATURE_def)
qed

lemma write_until_error_str: "write_until_error str_writer d bs = (0, d @ concat bs)"
  by (induction bs arbitrary: d) (simp_all add: str_writer_def)

lemma luaU_dump_str: "luaU_dump f str_writer [] s = (0, concat (chunk_blocks s f))"
  by (simp add: luaU_dump_blocks write_until_error_str)

section \<open>The nesting bound is enough\<close>

text \<open>
  \<open>safe n m\<close>: on a stream of at most \<open>n\<close> bytes, \<open>m\<close> does not run out of fuel and does not make
  the stream longer. \<open>consumes m\<close>: \<open>m\<close> reads at least one byte.
\<close>

definition reads :: "(nat \<Rightarrow> bool) \<Rightarrow> load_error + 'a \<times> zio \<Rightarrow> bool" where
  "reads P r \<longleftrightarrow> (case r of Inl e \<Rightarrow> e \<noteq> Out_of_fuel | Inr (x, z) \<Rightarrow> P (length (stream z)))"

definition safe :: "nat \<Rightarrow> 'a load \<Rightarrow> bool" where
  "safe n m \<longleftrightarrow>
     (\<forall>z. length (stream z) \<le> n \<longrightarrow> reads (\<lambda>l. l \<le> length (stream z)) (m z))"

definition consumes :: "'a load \<Rightarrow> bool" where
  "consumes m \<longleftrightarrow> (\<forall>z. reads (\<lambda>l. l < length (stream z)) (m z))"

lemma reads_simps [simp]:
  "reads P (Inl e) \<longleftrightarrow> e \<noteq> Out_of_fuel" "reads P (Inr (x, z)) \<longleftrightarrow> P (length (stream z))"
  by (simp_all add: reads_def)

lemma reads_mono: "reads P r \<Longrightarrow> (\<And>l. P l \<Longrightarrow> Q l) \<Longrightarrow> reads Q r"
  by (auto simp: reads_def split: sum.splits)

lemma reads_seqL:
  "reads P (m z) \<Longrightarrow> (\<And>x z'. P (length (stream z')) \<Longrightarrow> reads Q (k x z')) \<Longrightarrow> reads Q (seqL m k z)"
  by (cases "m z") (auto simp: seqL_def)

lemma consumes_safe: "consumes m \<Longrightarrow> safe n m"
  unfolding consumes_def safe_def by (blast intro: reads_mono less_imp_le)

lemma safe_seqL:
  assumes "safe n m" "\<And>x. safe n (k x)"
  shows "safe n (seqL m k)"
  unfolding safe_def
proof (intro allI impI)
  fix z assume z: "length (stream z) \<le> n"
  show "reads (\<lambda>l. l \<le> length (stream z)) (seqL m k z)"
  proof (rule reads_seqL)
    show "reads (\<lambda>l. l \<le> length (stream z)) (m z)" using assms(1) z by (simp add: safe_def)
    show "reads (\<lambda>l. l \<le> length (stream z)) (k x z')" if "length (stream z') \<le> length (stream z)" for x z'
      by (rule reads_mono [of "\<lambda>l. l \<le> length (stream z')"]) (use assms(2) that z in \<open>auto simp: safe_def\<close>)
  qed
qed

lemma consumes_reads: "consumes m \<Longrightarrow> reads (\<lambda>l. l < length (stream z)) (m z)"
  by (simp add: consumes_def)

lemma consumes_seqL:
  assumes "consumes m" "\<And>n x. safe n (k x)"
  shows "consumes (seqL m k)"
  unfolding consumes_def
proof (intro allI, rule reads_seqL [OF consumes_reads [OF assms(1)]])
  fix z x z' assume less: "length (stream z') < length (stream z)"
  have "reads (\<lambda>l. l \<le> length (stream z')) (k x z')"
    using assms(2) [of "length (stream z')" x] by (simp add: safe_def)
  then show "reads (\<lambda>l. l < length (stream z)) (k x z')"
    by (rule reads_mono) (use less in simp)
qed

lemma safe_consumes_seqL:
  assumes "consumes m" "\<And>x. safe n (k x)"
  shows "safe (Suc n) (seqL m k)"
  unfolding safe_def
proof (intro allI impI, rule reads_seqL [OF consumes_reads [OF assms(1)]])
  fix z x z' assume less: "length (stream z) \<le> Suc n" "length (stream z') < length (stream z)"
  have "reads (\<lambda>l. l \<le> length (stream z')) (k x z')"
    using assms(2) [of x] less by (simp add: safe_def)
  then show "reads (\<lambda>l. l \<le> length (stream z)) (k x z')"
    by (rule reads_mono) (use less in simp)
qed

lemma safe_consumes_0:
  assumes "consumes m" shows "safe 0 (seqL m k)"
  unfolding safe_def
  by (intro allI impI, rule reads_seqL [OF consumes_reads [OF assms]]) simp

lemma safe_ret: "safe n (ret x)"
  by (simp add: safe_def ret_def)

lemma safe_error: "e \<noteq> Out_of_fuel \<Longrightarrow> safe n (raise e)"
  by (simp add: safe_def raise_def)

lemma consumes_Byte: "consumes loadByte"
  by (auto simp: consumes_def loadByte_def split: option.splits dest: zgetc_Some)

lemma safe_Block: "safe n (loadBlock k)"
  by (auto simp: safe_def loadBlock_def dest!: luaZ_read_stream split: prod.splits)

lemma consumes_Unsigned_loop: "consumes (loadUnsigned_loop limit x)"
proof -
  have "reads (\<lambda>l. l < length (stream z)) (loadUnsigned_loop limit x z)" for z
  proof (induction "length (stream z)" arbitrary: x z rule: less_induct)
    case less
    have step: "loadUnsigned_loop limit x =
        seqL loadByte (\<lambda>b. if limit \<le> x then raise Integer_overflow
          else if b AND 0x80 = 0 then loadUnsigned_loop limit (push_bit 7 x OR ucast (b AND 0x7f))
          else ret (push_bit 7 x OR ucast (b AND 0x7f)))"
      by (rule ext, subst loadUnsigned_loop.simps)
         (simp add: seqL_def Let_def raise_def ret_def split: sum.split)
    show ?case
      unfolding step
    proof (rule reads_seqL [OF consumes_reads [OF consumes_Byte]])
      fix b z' assume z': "length (stream z') < length (stream z)"
      have "reads (\<lambda>l. l < length (stream z)) (loadUnsigned_loop limit y z')" for y
        by (rule reads_mono [OF less [OF z']]) (use z' in simp)
      then show "reads (\<lambda>l. l < length (stream z)) ((if limit \<le> x then raise Integer_overflow
          else if b AND 0x80 = 0 then loadUnsigned_loop limit (push_bit 7 x OR ucast (b AND 0x7f))
          else ret (push_bit 7 x OR ucast (b AND 0x7f))) z')"
        using z' by (simp add: raise_def ret_def)
    qed
  qed
  then show ?thesis by (simp add: consumes_def)
qed

lemma consumes_Int: "consumes loadInt"
  unfolding loadInt_def loadUnsigned_def by (intro consumes_seqL consumes_Unsigned_loop safe_ret)

lemma safe_Int: "safe n loadInt"
  by (rule consumes_safe [OF consumes_Int])

lemma consumes_StringN: "consumes loadStringN"
  unfolding loadStringN_def loadSize_def loadUnsigned_def
  by (intro consumes_seqL consumes_Unsigned_loop) (auto intro!: safe_ret safe_seqL safe_Block)

lemmas safe_intros = safe_seqL safe_ret safe_Block safe_Int safe_error
  consumes_safe [OF consumes_Byte] consumes_safe [OF consumes_StringN]

lemma safe_load_array: "safe n m \<Longrightarrow> safe n (load_array k m)"
  by (induction k) (simp_all add: safe_intros)

lemma safe_Constants: "safe n loadConstants"
  unfolding loadConstants_def loadConstant_def loadNumber_def loadInteger_def loadString_def
  by (intro safe_intros safe_load_array) (auto intro!: safe_intros split: option.split)

lemma safe_Names: "safe n (loadUpvalueNames k uv)"
  by (induction k uv rule: loadUpvalueNames.induct) (auto intro!: safe_intros)

lemma safe_Debug: "safe n (loadDebug uv)"
  unfolding loadDebug_def loadAbsLine_def loadLocVar_def
  by (intro safe_intros safe_load_array safe_Names)

lemma safe_Function: "safe n (loadFunction (Suc n) psource)"
proof (induction n arbitrary: psource)
  case 0
  show ?case unfolding loadFunction.simps(2) by (rule safe_consumes_0 [OF consumes_StringN])
next
  case (Suc n)
  show ?case
    unfolding loadFunction.simps(2) [of "Suc n"] Let_def loadCode_def loadUpvalues_def loadUpvalue_def
    by (rule safe_consumes_seqL [OF consumes_StringN])
      (auto intro!: safe_intros safe_load_array safe_Constants safe_Debug Suc simp del: loadFunction.simps)
qed

lemma safe_checkHeader: "safe n checkHeader"
  unfolding checkHeader_def checkliteral_def fchecksize_def loadInteger_def loadNumber_def
  by (auto intro!: safe_intros)

lemma luaU_undump_fuel: "luaU_undump z \<noteq> Inl Out_of_fuel"
proof -
  define n where "n = length (stream z)"
  have "safe n (seqL checkHeader (\<lambda>_. seqL loadByte (\<lambda>nupvalues.
      seqL (loadFunction (Suc n) None) (\<lambda>p. ret (nupvalues, p)))))"
    by (intro safe_seqL safe_checkHeader safe_Function safe_intros)
  then show ?thesis
    unfolding luaU_undump_def n_def [symmetric]
    by (auto simp: safe_def n_def dest!: spec [of _ z])
qed

section \<open>Properties\<close>

lemma dumpInt_str:
  "data (dumpInt \<lparr>writer = str_writer, data = [], strip = s, status = 0\<rparr> x) = int_bytes x"
  by (simp add: dump_blocks dumpBlock_def str_writer_def)

text \<open>
  Property C8: a function dumped by \<open>luaU_dump\<close> is loaded back by \<open>luaU_undump\<close>, wherever the
  reader cuts the chunk into blocks: the constants, the code, the upvalues, the nested functions
  and (unless stripped) all debug information, with a nested function that shares its parent's
  source name getting it from the parent. Nothing more than the chunk is read. The first byte
  has been read by the caller, which tells binary chunks by it.
\<close>

theorem undump_dump:
  assumes "proto_ok None f"
    and "luaU_dump f str_writer [] do_strip = (st, chunk)" and "stream z = tl chunk @ rest"
  shows "st = 0 \<and> (\<exists>z'. luaU_undump z = Inr ((of_nat (length (pr_upvalues f)), loaded do_strip f), z') \<and>
    stream z' = rest)"
proof -
  define n where "n = length (stream z)"
  define fb where "fb = concat (function_blocks do_strip f None)"
  have chunk: "st = 0" "tl chunk = tl (concat header_blocks) @ [of_nat (length (pr_upvalues f))] @ fb @ []"
    using assms(2) by (auto simp: luaU_dump_str chunk_blocks_def header_blocks_def LUA_SIGNATURE_def fb_def)
  have "length fb \<le> Suc n" using assms(3) by (simp add: n_def chunk(2))
  then have "loads (loadFunction (Suc n) None) fb (loaded do_strip f)"
    using loads_Function [OF assms(1), of do_strip "Suc n"] by (cases do_strip) (simp_all add: fb_def del: loadFunction.simps)
  then have "loads (seqL checkHeader (\<lambda>_. seqL loadByte (\<lambda>nupvalues.
      seqL (loadFunction (Suc n) None) (\<lambda>p. ret (nupvalues, p))))) (tl chunk)
      (of_nat (length (pr_upvalues f)), loaded do_strip f)"
    unfolding chunk(2)
    by (intro loads_seqL [OF loads_checkHeader] loads_seqL [OF loads_Byte]) (rule loads_seqL, assumption, rule loads_ret)
  with assms(3) chunk(1) show ?thesis
    unfolding luaU_undump_def n_def [symmetric] by (auto simp: loads_def)
qed

text \<open>
  Property C32: reading a chunk always returns, with a function or with one of the code's errors
  (or the unchecked write past the upvalues), whatever the bytes are: nested functions cannot be
  deeper than the bytes of the stream, so the model's bound is never reached.
\<close>

theorem luaU_undump_terminates: "luaU_undump z \<noteq> Inl Out_of_fuel"
  by (rule luaU_undump_fuel)

text \<open>
  Property C34: the limit of \<open>int\<close> fields in a chunk. A non-negative \<open>int\<close> below \<open>2^31 - 128\<close> written
  by \<open>dumpInt\<close> is read back by \<open>loadInt\<close>; the 128 largest values are written but refused with
  ``integer overflow'', because \<open>loadUnsigned\<close> compares the value before its last group with the
  limit divided by 128.
\<close>

theorem dump_load_int_limit:
  assumes "unat x < 2 ^ 31"
    and "stream z = data (dumpInt \<lparr>writer = str_writer, data = [], strip = s, status = 0\<rparr> x)"
  shows "(unat x < 2 ^ 31 - 128 \<longrightarrow> (\<exists>z'. loadInt z = Inr (x, z') \<and> stream z' = [])) \<and>
    (2 ^ 31 - 128 \<le> unat x \<longrightarrow> loadInt z = Inl Integer_overflow)"
  using loadInt_int [of z x "[]"] assms by (simp add: dumpInt_str int_ok_def split: if_splits)

definition log_writer :: "bytes \<Rightarrow> bytes list \<Rightarrow> int \<times> bytes list" where
  "log_writer b ud = (0, ud @ [b])"

text \<open>
  Property C33: a dump stops at the writer's first error. For any writer, \<open>luaU_dump\<close> hands it the
  same blocks as one that never fails (here one that records them), in order, until it returns a
  status other than zero; that status is the result and nothing is written after it.
\<close>

theorem luaU_dump_stops_at_error:
  "luaU_dump f w d do_strip = write_until_error w d (snd (luaU_dump f log_writer [] do_strip))"
proof -
  have log: "write_until_error log_writer l bs = (0, l @ filter (\<lambda>b. b \<noteq> []) bs)" for l bs
    by (induction bs arbitrary: l) (simp_all add: log_writer_def)
  have "write_until_error w d (filter (\<lambda>b. b \<noteq> []) bs) = write_until_error w d bs" for bs d
    by (induction bs arbitrary: d) (auto split: prod.split)
  then show ?thesis by (simp add: luaU_dump_blocks log)
qed

definition sample_proto :: "tstring proto" where
  "sample_proto = Proto 0 1 2 0 0 [LUA_VNUMINT 7, LUA_VSHRSTR (TString 9 [0x78])] [0x51, 0x46]
     [Proto 1 0 2 3 5 [LUA_VNIL] [0x47] [] [] [1, 0] [] [LocVar (Some (TString 4 [0x61])) 0 2]
        (Some (TString 1 [0x40, 0x66]))]
     [Upvaldesc (Some (TString 3 [0x5f])) 1 0 0] [1] [(0, 1)] [] (Some (TString 1 [0x40, 0x66]))"

lemma sample_proto_ok: "proto_ok None sample_proto"
  by (simp add: sample_proto_def source_ok_def string_ok_def same_string_def int_ok_def size_ok_def
      locvar_ok_def LUAI_MAXSHORTLEN_def)

theorem undump_dump_witness:
  "\<exists>z'. luaU_undump \<lparr>zbuf = tl (snd (luaU_dump sample_proto str_writer [] False)), zchunks = []\<rparr> =
     Inr ((1, loaded False sample_proto), z') \<and> stream z' = []"
  using undump_dump [OF sample_proto_ok, of False _ _
      "\<lparr>zbuf = tl (snd (luaU_dump sample_proto str_writer [] False)), zchunks = []\<rparr>" "[]"]
  by (cases "luaU_dump sample_proto str_writer [] False") (auto simp: stream_def, simp add: sample_proto_def)

theorem dump_load_int_limit_witness:
  "loadInt \<lparr>zbuf = data (dumpInt \<lparr>writer = str_writer, data = [], strip = True, status = 0\<rparr> 0x7fffffff),
     zchunks = []\<rparr> = Inl Integer_overflow"
  using dump_load_int_limit [of "0x7fffffff" "\<lparr>zbuf = data (dumpInt \<lparr>writer = str_writer, data = [],
    strip = True, status = 0\<rparr> 0x7fffffff), zchunks = []\<rparr>" True]
  by (simp add: stream_def)

end
