(* ===== verification/Isqrt.thy ===== *)
theory Isqrt
  imports Prelude
begin

text \<open>
  The integer square root of \<open>libbb/isqrt.c\<close>, which finds one bit of the root per
  iteration, and the proof that it is exact on every 64-bit number.
\<close>

section \<open>The integer square root\<close>

text \<open>
  One iteration on \<open>x\<close>, and the loop. \<open>shift\<close> is unsigned and tested as a signed
  number after the subtraction.
\<close>

definition isqrt_step :: "u64 \<Rightarrow> u64 \<Rightarrow> u32 \<Rightarrow> u64" where
  "isqrt_step N x shift =
     (let x = push_bit 1 x + 1
      in if x * x > drop_bit (unat shift) N then x - 1 else x)"

function isqrt_loop :: "u64 \<Rightarrow> u64 \<Rightarrow> u32 \<Rightarrow> u64" where
  "isqrt_loop N x shift =
     (let x = isqrt_step N x shift;
          shift' = shift - 2
      in if 0 \<le> sint shift' then isqrt_loop N x shift' else x)"
  by pat_completeness auto
termination
proof (relation "measure (\<lambda>(N, x, shift). unat shift)")
  fix N x x2 :: u64 and shift shift' :: u32
  assume s: "shift' = shift - 2" and p: "0 \<le> sint shift'"
  have "2 \<le> unat shift"
  proof (rule ccontr)
    assume "\<not> 2 \<le> unat shift"
    then have "unat shift = 0 \<or> unat shift = 1" by auto
    then have "shift = 0 \<or> shift = 1" by (auto simp: word_unat_eq_iff)
    then show False using p s by auto
  qed
  then have "unat shift' < unat shift" by (simp add: s unat_sub word_le_nat_alt)
  then show "((N, x2, shift'), N, x, shift) \<in> measure (\<lambda>(N, x, shift). unat shift)" by simp
qed simp

declare isqrt_loop.simps [simp del]

definition isqrt :: "u64 \<Rightarrow> u64" where
  "isqrt N = isqrt_loop N 0 (8 * 8 - 2)"

section \<open>The square root is exact\<close>

definition floor_sqrt :: "nat \<Rightarrow> nat \<Rightarrow> bool" where
  "floor_sqrt n r \<longleftrightarrow> r * r \<le> n \<and> n < (r + 1) * (r + 1)"

lemma floor_sqrt_step:
  assumes "floor_sqrt (n div 4) r"
  shows "floor_sqrt n (if (2*r + 1) * (2*r + 1) \<le> n then 2*r + 1 else 2*r)"
proof -
  have "r * r \<le> n div 4" using assms by (simp only: floor_sqrt_def)
  then have a: "4 * (r * r) \<le> n" by linarith
  have "n div 4 < (r + 1) * (r + 1)" using assms by (simp only: floor_sqrt_def)
  then have "n < ((r + 1) * (r + 1)) * 4" by (simp only: div_less_iff_less_mult)
  then show ?thesis using a by (auto simp: floor_sqrt_def algebra_simps)
qed

lemma unat_drop_bit: "unat (drop_bit k (v::u64)) = unat v div 2 ^ k"
proof -
  have "unat (drop_bit k v) = drop_bit k (unat v)"
    by (simp add: unsigned_drop_bit_eq take_bit_nat_eq_self [OF u64_less [of v]])
  then show ?thesis using drop_bit_eq_div [of k "unat v"] by (rule trans)
qed

lemma floor_sqrt_bound: "floor_sqrt n r \<Longrightarrow> n < m * m \<Longrightarrow> r < m"
proof (rule ccontr)
  assume r: "floor_sqrt n r" "n < m * m" "\<not> r < m"
  then have "m * m \<le> r * r" by (intro mult_le_mono) auto
  then show False using r by (simp add: floor_sqrt_def)
qed

lemma unat_twice: "unat (x::u64) < 2 ^ 31 \<Longrightarrow> unat (push_bit 1 x) = 2 * unat x"
  by (simp add: push_bit_eq_mult unat_word_ariths)

lemma unat_twice_1: "unat (x::u64) < 2 ^ 31 \<Longrightarrow> unat (push_bit 1 x + 1) = 2 * unat x + 1"
  using unat_twice [of x] unat_word_ariths(1) [of "push_bit 1 x" 1] by simp

lemma unat_square:
  assumes "unat (y::u64) < 2 ^ 32"
  shows "unat (y * y) = unat y * unat y"
proof -
  have "unat y * unat y < 2 ^ 32 * 2 ^ 32" using assms by (intro mult_strict_mono) auto
  then have "unat y * unat y < 2 ^ 64" by simp
  then show ?thesis by (simp only: unat_word_ariths) simp
qed

lemma isqrt_step_floor:
  assumes "floor_sqrt (unat N div 2 ^ (unat shift + 2)) (unat x)"
  shows "floor_sqrt (unat N div 2 ^ unat shift) (unat (isqrt_step N x shift))"
proof -
  let ?n = "unat N div 2 ^ unat shift"
  have n4: "unat N div 2 ^ (unat shift + 2) = ?n div 4"
    by (simp only: power_add div_mult2_eq) simp
  have "?n < 2 ^ 64" using div_le_dividend u64_less by (rule le_less_trans)
  then have "?n < 2 ^ 62 * 4" by simp
  then have "?n div 4 < 2 ^ 62" by (simp only: div_less_iff_less_mult)
  then have "?n div 4 < 2 ^ 31 * 2 ^ 31" by simp
  then have xb: "unat x < 2 ^ 31" by (rule floor_sqrt_bound [OF assms [unfolded n4]])
  have y: "unat (push_bit 1 x + 1) = 2 * unat x + 1" using xb by (rule unat_twice_1)
  then have "unat (push_bit 1 x + 1) < 2 ^ 32" using xb by simp
  then have sq: "unat ((push_bit 1 x + 1) * (push_bit 1 x + 1))
      = (2 * unat x + 1) * (2 * unat x + 1)"
    by (simp only: unat_square y)
  let ?small = "(2 * unat x + 1) * (2 * unat x + 1) \<le> ?n"
  have c: "(push_bit 1 x + 1) * (push_bit 1 x + 1) > drop_bit (unat shift) N \<longleftrightarrow> \<not> ?small"
    by (simp only: word_less_nat_alt unat_drop_bit sq not_le)
  have "unat (isqrt_step N x shift) = (if ?small then 2 * unat x + 1 else 2 * unat x)"
    unfolding isqrt_step_def Let_def c
    by (cases ?small) (simp_all only: simp_thms if_True if_False y unat_twice [OF xb]
        add_diff_cancel_right')
  then show ?thesis
    using floor_sqrt_step [OF assms [unfolded n4]] by (simp only:)
qed

lemma sint_small:
  assumes "unat (w::u32) < 2 ^ 31"
  shows "sint w = uint w"
proof -
  have "nat (uint w) < 2 ^ 31" using assms by (simp only: unat_eq_nat_uint)
  then have "uint w < int (2 ^ 31)" by (simp only: nat_less_iff unsigned_greater_eq)
  then have u: "uint w < 2 ^ 31" by simp
  have "sint w = (uint w + 2 ^ 31) mod 2 ^ 32 - 2 ^ 31"
    using int_word_sint [of "uint w", where 'a=32] by simp
  also have "(uint w + 2 ^ 31) mod 2 ^ 32 = uint w + 2 ^ 31"
    using u by (intro mod_pos_pos_trivial) simp_all
  finally show ?thesis by simp
qed

lemma shift_continues:
  assumes "unat (shift::u32) \<le> 62" "even (unat shift)"
  shows "0 \<le> sint (shift - 2) \<longleftrightarrow> shift \<noteq> 0"
proof (cases "shift = 0")
  case False
  then have "2 \<le> unat shift" using assms(2) by (metis One_nat_def dvd_imp_le gr0I unat_eq_zero)
  then have s: "unat (shift - 2) = unat shift - 2" by (simp add: unat_sub word_le_nat_alt)
  then have "unat (shift - 2) < 2 ^ 31" using assms(1) by simp
  then have "sint (shift - 2) = uint (shift - 2)" by (rule sint_small)
  then show ?thesis using False by simp
qed simp

lemma isqrt_loop_floor:
  assumes "floor_sqrt (unat N div 2 ^ (unat shift + 2)) (unat x)"
    and "unat shift \<le> 62" and "even (unat shift)"
  shows "floor_sqrt (unat N) (unat (isqrt_loop N x shift))"
  using assms
proof (induction N x shift rule: isqrt_loop.induct)
  case (1 N x shift)
  have y: "floor_sqrt (unat N div 2 ^ unat shift) (unat (isqrt_step N x shift))"
    using 1(2) by (rule isqrt_step_floor)
  show ?case
  proof (cases "shift = 0")
    case True
    then show ?thesis using y by (subst isqrt_loop.simps) simp
  next
    case False
    then have c: "0 \<le> sint (shift - 2)" using 1(3,4) by (simp add: shift_continues)
    have "2 \<le> unat shift" using 1(4) False by (metis One_nat_def dvd_imp_le gr0I unat_eq_zero)
    then have s: "unat (shift - 2) = unat shift - 2" by (simp add: unat_sub word_le_nat_alt)
    have "unat (shift - 2) + 2 = unat shift" using s \<open>2 \<le> unat shift\<close> by simp
    then have "floor_sqrt (unat N) (unat (isqrt_loop N (isqrt_step N x shift) (shift - 2)))"
      using y 1(3,4) s by (intro 1(1) [OF refl refl c]) simp_all
    then show ?thesis using c by (subst isqrt_loop.simps) (simp only: Let_def if_True)
  qed
qed

lemma isqrt_floor: "floor_sqrt (unat N) (unat (isqrt N))"
proof -
  have "floor_sqrt (unat N div 2 ^ (62 + 2)) 0"
    using u64_less [of N] by (simp add: floor_sqrt_def)
  then show ?thesis unfolding isqrt_def by (intro isqrt_loop_floor) simp_all
qed

text \<open>
  Property C37. \<open>isqrt\<close> returns the exact integer square root of every 64-bit number: the
  largest number whose square, computed without wrap-around, does not exceed it.
\<close>

theorem isqrt_exact:
  "unat (isqrt N) ^ 2 \<le> unat N \<and> unat N < (unat (isqrt N) + 1) ^ 2 \<and> unat (isqrt N) < 2 ^ 32"
  using isqrt_floor [of N] floor_sqrt_bound [OF isqrt_floor, of N "2 ^ 32"] u64_less [of N]
  by (simp add: floor_sqrt_def power2_eq_square)

end
