(* ===== verification/Strtonum.thy ===== *)
theory Strtonum
  imports Prelude
begin

text \<open>
  Reading numbers in libbb: the character classes of \<open>include/libbb.h\<close>, the two
  whitespace skippers (\<open>libbb/skip_whitespace.c\<close>), the reading of lines
  (\<open>libbb/get_line_from_file.c\<close>) and \<open>bb_strtoull\<close> and
  \<open>bb_strtoll\<close> (\<open>libbb/bb_strtonum.c\<close>) on top of the C library's
  \<open>strtoull\<close> and \<open>strtoll\<close>. A C string is the list of its bytes before the
  terminating zero, a pointer into it is the suffix it points to, and \<open>errno\<close> is
  returned with the value.
\<close>

section \<open>Characters\<close>

definition bb_isdigit :: "u8 \<Rightarrow> bool" where
  "bb_isdigit a \<longleftrightarrow> a - 48 \<le> 9"

definition bb_isalpha :: "u8 \<Rightarrow> bool" where
  "bb_isalpha a \<longleftrightarrow> (a OR 0x20) - 97 \<le> 122 - 97"

definition bb_isspace :: "u8 \<Rightarrow> bool" where
  "bb_isspace a \<longleftrightarrow> (let b = a - 9 in b = 32 - 9 \<or> b \<le> 13 - 9)"

definition bb_ascii_isalnum :: "u8 \<Rightarrow> bool" where
  "bb_ascii_isalnum a \<longleftrightarrow>
     (let b = a - 48
      in if b \<le> 9 then b \<le> 9 else (let b = (a OR 0x20) - 97 in b \<le> 122 - 97))"

text \<open>The byte a pointer points to, zero at the end of the string.\<close>

definition deref :: "bytes \<Rightarrow> u8" where
  "deref s = (case s of [] \<Rightarrow> 0 | c # _ \<Rightarrow> c)"

fun skip_whitespace :: "bytes \<Rightarrow> bytes" where
  "skip_whitespace [] = []"
| "skip_whitespace (c # s) =
     (if c = 32 \<or> c - 9 \<le> 13 - 9 then skip_whitespace s else c # s)"

fun skip_non_whitespace :: "bytes \<Rightarrow> bytes" where
  "skip_non_whitespace [] = []"
| "skip_non_whitespace (c # s) =
     (if c \<noteq> 0 \<and> c \<noteq> 32 \<and> c - 9 > 13 - 9 then skip_non_whitespace s else c # s)"

lemma length_skip_whitespace: "length (skip_whitespace s) \<le> length s"
  by (induction s) auto

lemma length_skip_non_whitespace: "length (skip_non_whitespace s) \<le> length s"
  by (induction s) auto

section \<open>Lines of a file\<close>

text \<open>
  A file is the list of the bytes still to be read. \<open>end\<close> says whether the caller passes
  a place for the length, which makes a newline end the chunk; a zero byte always does.
\<close>

fun get_chunk_loop :: "bool \<Rightarrow> bytes \<Rightarrow> bytes \<Rightarrow> bytes \<times> bytes" where
  "get_chunk_loop end linebuf [] = (linebuf, [])"
| "get_chunk_loop end linebuf (ch # file) =
     (let linebuf = linebuf @ [ch]
      in if ch = 0 \<or> end \<and> ch = 10 then (linebuf, file) else get_chunk_loop end linebuf file)"

definition bb_get_chunk_from_file :: "bool \<Rightarrow> bytes \<Rightarrow> bytes option \<times> nat \<times> bytes" where
  "bb_get_chunk_from_file end file =
     (let (linebuf, rest) = get_chunk_loop end [] file
      in (if linebuf = [] then None else Some (linebuf @ [0]), length linebuf, rest))"

definition c_string :: "bytes \<Rightarrow> bytes" where
  "c_string buf = takeWhile (\<lambda>c. c \<noteq> 0) buf"

definition xmalloc_fgetline :: "bytes \<Rightarrow> bytes option \<times> bytes" where
  "xmalloc_fgetline file =
     (let (c, i, rest) = bb_get_chunk_from_file True file
      in (map_option (\<lambda>c. c_string (if i \<noteq> 0 \<and> c ! (i - 1) = 10 then c[i - 1 := 0] else c)) c,
          rest))"

lemma get_chunk_loop_length: "length (snd (get_chunk_loop e buf f)) \<le> length f"
  by (induction e buf f rule: get_chunk_loop.induct) (auto simp: Let_def)

lemma xmalloc_fgetline_length:
  "xmalloc_fgetline f = (Some line, rest) \<Longrightarrow> length rest < length f"
proof (cases f)
  case (Cons c t)
  assume "xmalloc_fgetline f = (Some line, rest)"
  then have "rest = snd (get_chunk_loop True [] f)"
    by (auto simp: xmalloc_fgetline_def bb_get_chunk_from_file_def split: prod.splits)
  then show ?thesis
    using Cons get_chunk_loop_length [of True "[c]" t] by (simp add: Let_def)
qed (simp add: xmalloc_fgetline_def bb_get_chunk_from_file_def)

section \<open>The C library's conversions\<close>

text \<open>
  \<open>digit_val\<close> is the value of a digit or letter, 36 for any other byte. \<open>conv_digits\<close>
  reads the longest run of digits of the base. A prefix \<open>0x\<close> counts when a hexadecimal
  digit follows it.
\<close>

definition digit_val :: "u8 \<Rightarrow> nat" where
  "digit_val c =
     (if c - 48 \<le> 9 then unat (c - 48)
      else if (c OR 0x20) - 97 \<le> 25 then 10 + unat ((c OR 0x20) - 97)
      else 36)"

fun conv_digits :: "nat \<Rightarrow> nat \<Rightarrow> bytes \<Rightarrow> nat \<times> bytes" where
  "conv_digits b acc [] = (acc, [])"
| "conv_digits b acc (c # s) =
     (if digit_val c < b then conv_digits b (acc * b + digit_val c) s else (acc, c # s))"

definition conv_sign :: "bytes \<Rightarrow> bool \<times> bytes" where
  "conv_sign s =
     (if deref s = 45 then (True, tl s) else if deref s = 43 then (False, tl s) else (False, s))"

definition conv_prefix :: "nat \<Rightarrow> bytes \<Rightarrow> nat \<times> bytes" where
  "conv_prefix base s =
     (if (base = 0 \<or> base = 16) \<and> deref s = 48 \<and> deref (tl s) OR 0x20 = 120
         \<and> digit_val (deref (tl (tl s))) < 16
      then (16, tl (tl s))
      else if base = 0 then (if deref s = 48 then 8 else 10, s)
      else (base, s))"

datatype c_errno = E_OK | E_INVAL | E_RANGE

text \<open>The sign, the magnitude and the end of the conversion; \<open>None\<close> when there is none.\<close>

definition conv_number :: "nat \<Rightarrow> bytes \<Rightarrow> (bool \<times> nat \<times> bytes) option" where
  "conv_number base s =
     (let (neg, t) = conv_sign (skip_whitespace s);
          (b, t) = conv_prefix base t;
          (v, r) = conv_digits b 0 t
      in if digit_val (deref t) < b \<and> t \<noteq> [] then Some (neg, v, r) else None)"

definition strtoull :: "bytes \<Rightarrow> nat \<Rightarrow> u64 \<times> bytes \<times> c_errno" where
  "strtoull s base =
     (case conv_number base s of
        None \<Rightarrow> (0, s, E_OK)
      | Some (neg, v, r) \<Rightarrow>
          if v < 2 ^ 64 then (if neg then - of_nat v else of_nat v, r, E_OK)
          else (- 1, r, E_RANGE))"

definition strtoll :: "bytes \<Rightarrow> nat \<Rightarrow> u64 \<times> bytes \<times> c_errno" where
  "strtoll s base =
     (case conv_number base s of
        None \<Rightarrow> (0, s, E_OK)
      | Some (neg, v, r) \<Rightarrow>
          if neg then (if v \<le> 2 ^ 63 then (- of_nat v, r, E_OK) else (of_nat (2 ^ 63), r, E_RANGE))
          else (if v < 2 ^ 63 then (of_nat v, r, E_OK) else (of_nat (2 ^ 63 - 1), r, E_RANGE)))"

section \<open>The checked conversions\<close>

definition ret_ERANGE :: "u64 \<times> c_errno" where
  "ret_ERANGE = (- 1, E_RANGE)"

definition handle_errors :: "u64 \<Rightarrow> bytes \<Rightarrow> c_errno \<Rightarrow> u64 \<times> c_errno" where
  "handle_errors v endp errno =
     (let next_ch = deref endp
      in if next_ch \<noteq> 0
         then if bb_ascii_isalnum next_ch \<or> errno \<noteq> E_OK then ret_ERANGE else (v, E_INVAL)
         else (v, errno))"

text \<open>The value, \<open>*endp\<close> and \<open>errno\<close>.\<close>

definition bb_strtoull :: "bytes \<Rightarrow> nat \<Rightarrow> u64 \<times> bytes \<times> c_errno" where
  "bb_strtoull arg base =
     (if \<not> bb_ascii_isalnum (deref arg) then (let (v, e) = ret_ERANGE in (v, arg, e))
      else (let (v, endp, errno) = strtoull arg base;
                (v, errno) = handle_errors v endp errno
            in (v, endp, errno)))"

definition bb_strtoll :: "bytes \<Rightarrow> nat \<Rightarrow> u64 \<times> bytes \<times> c_errno" where
  "bb_strtoll arg base =
     (let first = (if deref arg \<noteq> 45 then deref arg else deref (tl arg))
      in if \<not> bb_ascii_isalnum first then (let (v, e) = ret_ERANGE in (v, arg, e))
         else (let (v, endp, errno) = strtoll arg base;
                   (v, errno) = handle_errors v endp errno
               in (v, endp, errno)))"



section \<open>What the checked conversions accept\<close>

definition number_value :: "nat \<Rightarrow> bytes \<Rightarrow> nat" where
  "number_value b s = foldl (\<lambda>v c. v * b + digit_val c) 0 s"

lemma digit_val_alnum: "digit_val c < 36 \<longleftrightarrow> bb_ascii_isalnum c"
proof -
  have "unat (c - 48) < 36" if "c - 48 \<le> 9" using that by (simp only: word_le_nat_alt) simp
  moreover have "unat ((c OR 0x20) - 97) < 26" if "(c OR 0x20) - 97 \<le> 25"
    using that by (simp only: word_le_nat_alt) simp
  ultimately show ?thesis
    unfolding digit_val_def bb_ascii_isalnum_def Let_def by simp
qed

lemma white_bytes: "c - 9 \<le> (13 - 9 :: u8) \<Longrightarrow> c \<in> {9, 10, 11, 12, 13}"
proof -
  assume "c - 9 \<le> 13 - 9"
  then have "unat (c - 9) \<le> 4" by (simp add: word_le_nat_alt)
  then have "unat (c - 9) \<in> {0, 1, 2, 3, 4}" by auto
  then have "c - 9 \<in> {0, 1, 2, 3, 4}" by (auto simp: word_unat_eq_iff)
  then have "c - 9 + 9 \<in> {9, 10, 11, 12, 13}" by (elim insertE) (simp_all only:, simp_all)
  then show ?thesis by simp
qed

lemma bb_ascii_isalnum_0 [simp]: "\<not> bb_ascii_isalnum 0"
  by (simp add: bb_ascii_isalnum_def)

lemma alnum_no_space: "bb_ascii_isalnum c \<Longrightarrow> skip_whitespace (c # s) = c # s"
  using white_bytes [of c] by (auto simp: bb_ascii_isalnum_def)

lemma alnum_no_sign: "bb_ascii_isalnum c \<Longrightarrow> conv_sign (c # s) = (False, c # s)"
  by (auto simp: bb_ascii_isalnum_def conv_sign_def deref_def)

lemma conv_prefix_base: "b \<noteq> 0 \<Longrightarrow> b \<noteq> 16 \<Longrightarrow> conv_prefix b s = (b, s)"
  by (simp add: conv_prefix_def)

lemma conv_digits_run:
  "conv_digits b acc s =
     (foldl (\<lambda>v c. v * b + digit_val c) acc (takeWhile (\<lambda>c. digit_val c < b) s),
      dropWhile (\<lambda>c. digit_val c < b) s)"
  by (induction s arbitrary: acc) auto

lemma conv_number_alnum:
  assumes "bb_ascii_isalnum (deref s)" "conv_prefix base s = (b, t)"
  shows "conv_number base s =
    (if digit_val (deref t) < b \<and> t \<noteq> []
     then Some (False, number_value b (takeWhile (\<lambda>c. digit_val c < b) t),
                dropWhile (\<lambda>c. digit_val c < b) t)
     else None)"
proof (cases s)
  case Nil
  then show ?thesis using assms by (simp add: deref_def)
next
  case (Cons c u)
  then have "bb_ascii_isalnum c" using assms by (simp add: deref_def)
  then have "conv_sign (skip_whitespace s) = (False, s)"
    using Cons by (simp add: alnum_no_space alnum_no_sign del: skip_whitespace.simps)
  then show ?thesis
    using assms(2) by (simp add: conv_number_def conv_digits_run number_value_def)
qed

lemma takeWhile_all_iff: "dropWhile P s = [] \<longleftrightarrow> (\<forall>c\<in>set s. P c)"
  by (simp add: dropWhile_eq_Nil_conv)

lemma deref_zero: "0 \<notin> set s \<Longrightarrow> deref s = 0 \<longleftrightarrow> s = []"
  by (cases s) (auto simp: deref_def)

lemma deref_dropWhile:
  "0 \<notin> set s \<Longrightarrow> deref (dropWhile P s) = 0 \<longleftrightarrow> dropWhile P s = []"
  by (rule deref_zero) (use set_dropWhileD in fastforce)

lemma handle_errors_ok:
  "handle_errors v endp errno = (w, E_OK) \<longleftrightarrow> deref endp = 0 \<and> errno = E_OK \<and> w = v"
  by (auto simp: handle_errors_def ret_ERANGE_def Let_def)

text \<open>Behind a sign and a prefix, which the first character rules out or the base provides.\<close>

lemma conv_prefix_cases:
  "conv_prefix base s = (b, t) \<Longrightarrow> s = t \<or> deref s = 48 \<and> t = tl (tl s) \<and> digit_val (deref t) < 16 \<and> b = 16"
  by (auto simp: conv_prefix_def split: if_splits)

lemma conv_prefix_suffix: "conv_prefix base s = (b, t) \<Longrightarrow> set t \<subseteq> set s"
  using conv_prefix_cases [of base s b t] by (cases s; cases "tl s") auto

lemma conv_prefix_range: "conv_prefix base s = (b, t) \<Longrightarrow> base = 0 \<or> 2 \<le> base \<and> base \<le> 36 \<Longrightarrow> 2 \<le> b \<and> b \<le> 36"
  by (auto simp: conv_prefix_def split: if_splits)

lemma bb_strtoull_prefix:
  assumes p: "conv_prefix base s = (b, t)" and "base = 0 \<or> 2 \<le> base \<and> base \<le> 36" "0 \<notin> set s"
  shows "bb_strtoull s base = (v, r, E_OK) \<longleftrightarrow>
    t \<noteq> [] \<and> (\<forall>c\<in>set t. digit_val c < b) \<and> number_value b t < 2 ^ 64
    \<and> v = of_nat (number_value b t) \<and> r = []"
proof (cases "bb_ascii_isalnum (deref s)")
  case False
  have "\<not> (t \<noteq> [] \<and> (\<forall>c\<in>set t. digit_val c < b))"
  proof
    assume t: "t \<noteq> [] \<and> (\<forall>c\<in>set t. digit_val c < b)"
    have "digit_val (deref s) < 36"
      using conv_prefix_cases [OF p]
    proof
      assume "s = t"
      then show ?thesis
        using t conv_prefix_range [OF p assms(2)] by (cases t) (auto simp: deref_def)
    qed (simp add: digit_val_def)
    then show False using False by (simp add: digit_val_alnum)
  qed
  then show ?thesis using False by (auto simp: bb_strtoull_def ret_ERANGE_def)
next
  case True
  have z: "0 \<notin> set t" using conv_prefix_suffix [OF p] assms(3) by blast
  let ?d = "\<lambda>c. digit_val c < b"
  have conv: "strtoull s base =
    (if digit_val (deref t) < b \<and> t \<noteq> []
     then (let v = number_value b (takeWhile ?d t)
           in if v < 2 ^ 64 then (of_nat v, dropWhile ?d t, E_OK)
              else (- 1, dropWhile ?d t, E_RANGE))
     else (0, s, E_OK))"
    using True p by (simp add: strtoull_def conv_number_alnum Let_def)
  show ?thesis
  proof (cases "t \<noteq> [] \<and> (\<forall>c\<in>set t. ?d c)")
    case all: True
    then have d: "digit_val (deref t) < b" by (cases t) (simp_all add: deref_def)
    have eqs: "takeWhile ?d t = t" "dropWhile ?d t = []" using all by simp_all
    have "strtoull s base = (if number_value b t < 2 ^ 64 then (of_nat (number_value b t), [], E_OK)
        else (- 1, [], E_RANGE))"
      unfolding conv eqs using d all by (simp add: Let_def)
    then show ?thesis
      using True all by (auto simp: bb_strtoull_def handle_errors_def deref_def)
  next
    case False
    have "deref s \<noteq> 0" using True by auto
    moreover have "deref (dropWhile ?d t) \<noteq> 0" if "t \<noteq> []"
      using False deref_dropWhile [OF z, of ?d] that by auto
    ultimately show ?thesis
      using True False
      by (auto simp: bb_strtoull_def conv handle_errors_def ret_ERANGE_def Let_def
          split: if_splits)
  qed
qed

lemma bb_strtoull_iff:
  assumes "2 \<le> b" "b \<le> 36" "b \<noteq> 16" "0 \<notin> set s"
  shows "bb_strtoull s b = (v, r, E_OK) \<longleftrightarrow>
    s \<noteq> [] \<and> (\<forall>c\<in>set s. digit_val c < b) \<and> number_value b s < 2 ^ 64
    \<and> v = of_nat (number_value b s) \<and> r = []"
  using assms by (intro bb_strtoull_prefix conv_prefix_base) simp_all

lemmas bb_strtoull_number = bb_strtoull_iff [THEN iffD2]

section \<open>Numerals of C\<close>

text \<open>
  The numerals that the C standard defines for \<open>strtoull\<close>, stated by the characters: a digit is its
  place in \<open>numeral_chars\<close>, capital letters count as small ones, \<open>ds\<close> are the digits' values. In base
  0 a leading zero makes the numeral octal; in bases 0 and 16 a prefix \<open>0x\<close> makes it hexadecimal.
\<close>

definition numeral_chars :: bytes where
  "numeral_chars = map of_char ''0123456789abcdefghijklmnopqrstuvwxyz''"

definition small_letter :: "u8 \<Rightarrow> u8" where
  "small_letter c = (if 65 \<le> c \<and> c \<le> 90 then c + 32 else c)"

definition digits_of :: "nat \<Rightarrow> bytes \<Rightarrow> nat list \<Rightarrow> bool" where
  "digits_of b t ds \<longleftrightarrow> list_all2 (\<lambda>c d. d < b \<and> small_letter c = numeral_chars ! d) t ds"

definition c_numeral :: "nat \<Rightarrow> bytes \<Rightarrow> nat \<Rightarrow> nat list \<Rightarrow> bool" where
  "c_numeral base s b ds \<longleftrightarrow> ds \<noteq> [] \<and>
     (digits_of b s ds \<and> (if base = 0 then b = (if hd s = of_char CHR ''0'' then 8 else 10) else b = base)
      \<or> (base = 0 \<or> base = 16) \<and> b = 16 \<and>
        (\<exists>x\<in>{CHR ''x'', CHR ''X''}. \<exists>t. s = of_char CHR ''0'' # of_char x # t \<and> digits_of 16 t ds))"

definition digits_value :: "nat \<Rightarrow> nat list \<Rightarrow> nat" where
  "digits_value b ds = foldl (\<lambda>v d. v * b + d) 0 ds"

lemma numeral_chars_nth:
  "d < 36 \<Longrightarrow> numeral_chars ! d = of_nat (if d < 10 then 48 + d else 87 + d)"
proof -
  have e: "numeral_chars = map (\<lambda>d. of_nat (if d < 10 then 48 + d else 87 + d)) [0..<36]"
    by (simp add: numeral_chars_def upt_rec)
  show "d < 36 \<Longrightarrow> numeral_chars ! d = of_nat (if d < 10 then 48 + d else 87 + d)"
    unfolding e by (subst nth_map) simp_all
qed

lemma byte_bound: "unat (c :: u8) < 256"
  using unsigned_less [of c, where 'a = nat] by simp

lemma or_32: "c OR 0x20 = (if odd (unat c div 32) then c else c + (32 :: u8))"
proof -
  have e: "(0x20 :: u8) = push_bit 5 1" by simp
  have "bit c 5 \<longleftrightarrow> bit (unat c) 5" by (simp add: bit_unsigned_iff)
  then have b: "bit c 5 \<longleftrightarrow> odd (unat c div 32)" by (simp add: bit_iff_odd [of "unat c"])
  have "c OR 0x20 = c" if "bit c 5"
    using that unfolding e by (intro bit_word_eqI) (auto simp: bit_simps simp del: push_bit_of_1)
  moreover have "c OR 0x20 = c + 32" if "\<not> bit c 5"
  proof -
    have "c AND 0x20 = 0"
      using that unfolding e by (intro bit_word_eqI) (auto simp: bit_simps simp del: push_bit_of_1)
    then show ?thesis by (simp add: disjunctive_add_eq_or)
  qed
  ultimately show ?thesis using b by auto
qed

lemma unat_or_32: "unat (c OR 0x20 :: u8) = (if odd (unat c div 32) then unat c else unat c + 32)"
proof (cases "odd (unat c div 32)")
  case False
  have "unat c div 32 < 8" using byte_bound [of c] by (simp add: less_mult_imp_div_less)
  moreover have "unat c div 32 \<noteq> 7" using False by (intro notI) simp
  ultimately have "unat c div 32 < 7" by linarith
  then have "unat c + 32 < 256" by (simp add: div_less_iff_less_mult)
  then show ?thesis using False by (simp add: or_32 unat_word_ariths)
qed (simp add: or_32)

lemma unat_minus_byte: "unat (c - k :: u8) = (if unat k \<le> unat c then unat c - unat k else unat c + 256 - unat k)"
  by (simp add: unat_sub_if_size word_size)

lemma letter_case:
  fixes n :: nat
  assumes "n < 256"
  defines "m \<equiv> if odd (n div 32) then n else n + 32"
  shows "97 \<le> m \<and> m \<le> 122 \<longleftrightarrow> 65 \<le> n \<and> n \<le> 90 \<or> 97 \<le> n \<and> n \<le> 122"
    and "97 \<le> m \<Longrightarrow> m \<le> 122 \<Longrightarrow> m = (if n \<le> 90 then n + 32 else n)"
proof -
  define q where "q = n div 32"
  have q: "32 * q \<le> n" "n < 32 * q + 32" "q < 8" using assms(1) by (auto simp: q_def)
  then have "q = 0 \<or> q = 1 \<or> q = 2 \<or> q = 3 \<or> q = 4 \<or> q = 5 \<or> q = 6 \<or> q = 7" by linarith
  note cases = this q(1,2)
  show "97 \<le> m \<and> m \<le> 122 \<longleftrightarrow> 65 \<le> n \<and> n \<le> 90 \<or> 97 \<le> n \<and> n \<le> 122"
    using cases unfolding m_def q_def [symmetric] by (elim disjE; simp; linarith)
  assume "97 \<le> m" "m \<le> 122"
  then show "m = (if n \<le> 90 then n + 32 else n)"
    unfolding m_def by (simp split: if_splits)
qed

lemma digit_val_unat:
  "digit_val c = (let n = unat c in
     if 48 \<le> n \<and> n \<le> 57 then n - 48
     else if 65 \<le> n \<and> n \<le> 90 then n - 55
     else if 97 \<le> n \<and> n \<le> 122 then n - 87 else 36)"
proof -
  define n where "n = unat c"
  define m where "m = unat (c OR 0x20)"
  have m: "m = (if odd (n div 32) then n else n + 32)" unfolding m_def n_def by (rule unat_or_32)
  have n: "n < 256" unfolding n_def by (rule byte_bound)
  have digit: "c - 48 \<le> 9 \<longleftrightarrow> 48 \<le> n \<and> n \<le> 57" "48 \<le> n \<Longrightarrow> unat (c - 48) = n - 48"
    using n by (auto simp: word_le_nat_alt unat_minus_byte n_def)
  have letter: "(c OR 0x20) - 97 \<le> 25 \<longleftrightarrow> 97 \<le> m \<and> m \<le> 122" "97 \<le> m \<Longrightarrow> unat ((c OR 0x20) - 97) = m - 97"
    using byte_bound [of "c OR 0x20"] by (auto simp: word_le_nat_alt unat_minus_byte m_def)
  note k = letter_case [OF n, folded m]
  show ?thesis
    unfolding digit_val_def digit(1) letter(1) Let_def n_def [symmetric]
    using digit(2) letter(2) k by auto
qed

lemma digit_val_place:
  assumes "d < 36"
  shows "small_letter c = numeral_chars ! d \<longleftrightarrow> digit_val c = d"
proof -
  define n where "n = unat c"
  have n: "n < 256" unfolding n_def by (rule byte_bound)
  have "unat (small_letter c) = (if 65 \<le> n \<and> n \<le> 90 then n + 32 else n)"
    by (auto simp: small_letter_def word_le_nat_alt n_def unat_word_ariths)
  moreover have "unat (numeral_chars ! d) = (if d < 10 then 48 + d else 87 + d)"
    using assms unfolding numeral_chars_nth [OF assms]
    by (subst unat_of_nat) (simp add: take_bit_eq_mod)
  ultimately have "small_letter c = numeral_chars ! d \<longleftrightarrow>
      (if 65 \<le> n \<and> n \<le> 90 then n + 32 else n) = (if d < 10 then 48 + d else 87 + d)"
    by (simp add: word_unat_eq_iff)
  then show ?thesis using assms n unfolding digit_val_unat Let_def n_def [symmetric] by auto
qed

lemma digits_of_digit_val:
  "b \<le> 36 \<Longrightarrow> digits_of b t ds \<longleftrightarrow> (\<forall>c\<in>set t. digit_val c < b) \<and> ds = map digit_val t"
proof (induction t arbitrary: ds)
  case (Cons c t)
  then show ?case
    by (cases ds) (auto simp: digits_of_def digit_val_place)
qed (auto simp: digits_of_def)

lemma digits_value_map: "digits_value b (map digit_val t) = number_value b t"
  by (simp add: digits_value_def number_value_def foldl_map)

lemma x_or_X: "c OR 0x20 = (120 :: u8) \<longleftrightarrow> c = 120 \<or> c = 88"
proof -
  have "c OR 0x20 = 120 \<longleftrightarrow> (if odd (unat c div 32) then unat c else unat c + 32) = 120"
    by (simp only: word_unat_eq_iff unat_or_32) simp
  also have "\<dots> \<longleftrightarrow> unat c = 120 \<or> unat c = 88"
    by (cases "odd (unat c div 32)") auto
  finally show ?thesis by (simp add: word_unat_eq_iff)
qed

lemma x_chars: "of_char CHR ''0'' = (48 :: u8)" "of_char CHR ''x'' = (120 :: u8)" "of_char CHR ''X'' = (88 :: u8)"
  by simp_all

lemma digit_val_x: "digit_val 120 = 33" "digit_val 88 = 33"
  by (simp_all add: digit_val_unat)

lemma conv_prefix_numeral:
  assumes "conv_prefix base s = (b, t)" "base = 0 \<or> 2 \<le> base \<and> base \<le> 36"
  shows "c_numeral base s b' ds \<longleftrightarrow>
    b' = b \<and> t \<noteq> [] \<and> (\<forall>c\<in>set t. digit_val c < b) \<and> ds = map digit_val t"
proof (cases "(base = 0 \<or> base = 16) \<and> deref s = 48 \<and> deref (tl s) OR 0x20 = 120 \<and> digit_val (deref (tl (tl s))) < 16")
  case True
  then have bt: "b = 16" "t = tl (tl s)" using assms(1) by (simp_all add: conv_prefix_def)
  obtain x where s: "s = 48 # x # t" "x = 120 \<or> x = 88"
    using True bt(2) unfolding x_or_X by (cases s; cases "tl s") (auto simp: deref_def)
  have "\<not> digits_of k s ds" if "k = (if base = 0 then 8 else base)" for k
  proof -
    have "k \<le> 16" using that True by auto
    then show ?thesis using s digit_val_x digits_of_digit_val [of k s ds] by auto
  qed
  then show ?thesis
    using True s bt(1) digits_of_digit_val [of 16 t ds]
    by (auto simp: c_numeral_def x_chars)
next
  case False
  then have bt: "t = s" "b = (if base = 0 then if deref s = 48 then 8 else 10 else base)"
    using assms(1) by (auto simp: conv_prefix_def split: if_splits)
  have "\<not> digits_of 16 u ds" if "base = 0 \<or> base = 16" "x = 120 \<or> x = 88" "s = 48 # x # u" "ds \<noteq> []" for x u
  proof
    assume "digits_of 16 u ds"
    then have "u \<noteq> []" "digit_val (deref u) < 16"
      using that(4) digits_of_digit_val [of 16 u ds] by (auto simp: deref_def split: list.splits)
    then show False using False that by (auto simp: x_or_X deref_def)
  qed
  then have "\<not> ((base = 0 \<or> base = 16) \<and> b' = 16 \<and>
      (\<exists>x\<in>{CHR ''x'', CHR ''X''}. \<exists>t. s = of_char CHR ''0'' # of_char x # t \<and> digits_of 16 t ds))" if "ds \<noteq> []"
    unfolding bex_simps x_chars using that by (metis empty_iff insert_iff x_chars)
  then have c: "c_numeral base s b' ds \<longleftrightarrow> ds \<noteq> [] \<and> digits_of b' s ds
      \<and> (if base = 0 then b' = (if hd s = 48 then 8 else 10) else b' = base)"
    unfolding c_numeral_def by (cases "ds = []") (simp_all only: simp_thms x_chars)
  have le: "b \<le> 36" using bt(2) assms(2) by auto
  show ?thesis
  proof (cases s)
    case Nil
    then show ?thesis unfolding c using bt(1) by (simp add: digits_of_def)
  next
    case (Cons a u)
    then have "hd s = deref s" by (simp add: deref_def)
    then have "(if base = 0 then b' = (if hd s = 48 then 8 else 10) else b' = base) \<longleftrightarrow> b' = b"
      unfolding bt(2) by simp
    then show ?thesis
      unfolding c using digits_of_digit_val [OF le, of s ds] bt(1) Cons by auto
  qed
qed

text \<open>
  Property C38. For base 0 and every base from 2 to 36, \<open>bb_strtoull\<close> reports no error exactly when the
  C string is, from its first to its last character, an unsigned numeral of the base whose value
  fits in 64 bits; then it returns that value and points to the end of the string. Bases 0 and 16
  take a prefix \<open>0x\<close>, base 0 an octal numeral with a leading zero.
\<close>

theorem bb_strtoull_accepts:
  assumes "base = 0 \<or> 2 \<le> base \<and> base \<le> 36" "0 \<notin> set s"
  shows "bb_strtoull s base = (v, r, E_OK) \<longleftrightarrow>
    (\<exists>b ds. c_numeral base s b ds \<and> digits_value b ds < 2 ^ 64
      \<and> v = of_nat (digits_value b ds) \<and> r = [])"
proof -
  obtain b t where p: "conv_prefix base s = (b, t)" by (cases "conv_prefix base s")
  show ?thesis
    unfolding bb_strtoull_prefix [OF p assms] conv_prefix_numeral [OF p assms(1)]
    by (auto simp: digits_value_map)
qed

lemma bb_strtoull_accepts_witness:
  "bb_strtoull [48, 88, 49, 102] 0 = (31, [], E_OK)"
proof -
  have "digits_of 16 [49, 102] [1, 15]"
    unfolding digits_of_def numeral_chars_def small_letter_def by simp
  then have "c_numeral 0 [48, 88, 49, 102] 16 [1, 15]"
    by (simp add: c_numeral_def)
  moreover have "digits_value 16 [1, 15] = 31" by (simp add: digits_value_def)
  ultimately show ?thesis
    using bb_strtoull_accepts [of 0 "[48, 88, 49, 102]" 31 "[]"] by force
qed

text \<open>
  A string that begins with a minus sign is refused by \<open>bb_strtoull\<close> with
  \<open>ERANGE\<close> and all ones, even \<open>-0\<close>, and the end pointer stays at its start.
\<close>

lemma bb_strtoull_minus:
  "bb_strtoull (45 # s) b = (- 1, 45 # s, E_RANGE)"
  by (simp add: bb_strtoull_def deref_def bb_ascii_isalnum_def ret_ERANGE_def)

end
