(* ===== verification/Factor.thy ===== *)
theory Factor
  imports Isqrt Strtonum
begin

text \<open>
  The \<open>factor\<close> applet (\<open>coreutils/factor.c\<close>): the packed wheel of trial divisors,
  the factorisation loop with its detection of perfect squares, and the reading of the numbers.
\<close>

type_synonym wide_t = u64
type_synonym half_t = u32

section \<open>The wheel of trial divisors\<close>

definition wheel_R :: "nat list \<Rightarrow> u64" where
  "wheel_R xs =
     push_bit 1 (foldl (\<lambda>v i. v OR push_bit (3*i) (of_nat (xs ! i))) 0 [0..<10])
     OR push_bit 31 (foldl (\<lambda>v i. v OR push_bit (3*i) (of_nat (xs ! (10 + i)))) 0 [0..<10])"

definition wheel_P :: "nat list \<Rightarrow> u64" where
  "wheel_P xs = wheel_R (map (\<lambda>x. x div 2) xs)"

definition wheel_rows :: "nat list list" where
  "wheel_rows = [
    [4, 2, 4, 6, 2, 6, 4, 2, 4, 6, 6, 2, 6, 4, 2, 6, 4, 6, 8, 4],
    [2, 4, 2, 4, 14, 4, 6, 2, 10, 2, 6, 6, 4, 2, 4, 6, 2, 10, 2, 4],
    [2, 12, 10, 2, 4, 2, 4, 6, 2, 6, 4, 6, 6, 6, 2, 6, 4, 2, 6, 4],
    [6, 8, 4, 2, 4, 6, 8, 6, 10, 2, 4, 6, 2, 6, 6, 4, 2, 4, 6, 2],
    [6, 4, 2, 6, 10, 2, 10, 2, 4, 2, 4, 6, 8, 4, 2, 4, 12, 2, 6, 4],
    [2, 6, 4, 6, 12, 2, 4, 2, 4, 8, 6, 4, 6, 2, 4, 6, 2, 6, 10, 2],
    [4, 6, 2, 6, 4, 2, 4, 2, 10, 2, 10, 2, 4, 6, 6, 2, 6, 6, 4, 6],
    [6, 2, 6, 4, 2, 6, 4, 6, 8, 4, 2, 6, 4, 8, 6, 4, 6, 2, 4, 6],
    [8, 6, 4, 2, 10, 2, 6, 4, 2, 4, 2, 10, 2, 10, 2, 4, 2, 4, 8, 6],
    [4, 2, 4, 6, 6, 2, 6, 4, 8, 4, 6, 8, 4, 2, 4, 2, 4, 8, 6, 4],
    [6, 6, 6, 2, 6, 6, 4, 2, 4, 6, 2, 6, 4, 2, 4, 2, 10, 2, 10, 2],
    [6, 4, 6, 2, 6, 4, 2, 4, 6, 6, 8, 4, 2, 6, 10, 8, 4, 2, 4, 2],
    [4, 8, 10, 6, 2, 4, 8, 6, 6, 4, 2, 4, 6, 2, 6, 4, 6, 2, 10, 2],
    [10, 2, 4, 2, 4, 6, 2, 6, 4, 2, 4, 6, 6, 2, 6, 6, 6, 4, 6, 8],
    [4, 2, 4, 2, 4, 8, 6, 4, 8, 4, 6, 2, 6, 6, 4, 2, 4, 6, 8, 4],
    [2, 4, 2, 10, 2, 10, 2, 4, 2, 4, 6, 2, 10, 2, 4, 6, 8, 6, 4, 2],
    [6, 4, 6, 8, 4, 6, 2, 4, 8, 6, 4, 6, 2, 4, 6, 2, 6, 6, 4, 6],
    [6, 2, 6, 6, 4, 2, 10, 2, 10, 2, 4, 2, 4, 6, 2, 6, 4, 2, 10, 6],
    [2, 6, 4, 2, 6, 4, 6, 8, 4, 2, 4, 2, 12, 6, 4, 6, 2, 4, 6, 2],
    [12, 4, 2, 4, 8, 6, 4, 2, 4, 2, 10, 2, 10, 6, 2, 4, 6, 2, 6, 4],
    [2, 4, 6, 6, 2, 6, 4, 2, 10, 6, 8, 6, 4, 2, 4, 8, 6, 4, 6, 2],
    [4, 6, 2, 6, 6, 6, 4, 6, 2, 6, 4, 2, 4, 2, 10, 12, 2, 4, 2, 10],
    [2, 6, 4, 2, 4, 6, 6, 2, 10, 2, 6, 4, 14, 4, 2, 4, 2, 4, 8, 6],
    [4, 6, 2, 4, 6, 2, 6, 6, 4, 2, 4, 6, 2, 6, 4, 2, 4, 12, 2, 12]]"


definition packed_wheel :: "u64 list" where
  "packed_wheel = map wheel_P wheel_rows"

definition WHEEL_START :: nat where "WHEEL_START = 5"
definition WHEEL_SIZE :: nat where "WHEEL_SIZE = 5 + 24 * 20"

text \<open>
  The inner loop of \<open>unpack_wheel\<close> ends when the packed value runs out of fields; the
  bytes it writes are appended to the table.
\<close>

function unpack_row :: "u64 \<Rightarrow> u8 list \<Rightarrow> u8 list" where
  "unpack_row v p =
     (if v AND 0xe \<noteq> 0 then unpack_row (drop_bit 3 v) (p @ [ucast (v AND 0xe)]) else p)"
  by pat_completeness auto
termination
proof (relation "measure (\<lambda>(v, p). unat v)")
  fix v :: u64 and p :: "u8 list"
  assume "v AND 0xe \<noteq> 0"
  then have "0 < unat v" by (metis unat_gt_0 and_zero_eq word_bw_comms(1))
  moreover have "unat (drop_bit 3 v) = unat v div 8"
    using unsigned_drop_bit_eq [of 3 v] by (simp only: drop_bit_eq_div) (simp add: unat_div)
  ultimately show "((drop_bit 3 v, p @ [ucast (v AND 0xe)]), v, p) \<in> measure (\<lambda>(v, p). unat v)"
    by simp
qed simp

declare unpack_row.simps [simp del]

definition unpack_wheel :: "u8 list" where
  "unpack_wheel = foldl (\<lambda>p v. unpack_row v p) [1, 2, 2, 4, 2] packed_wheel"

section \<open>The factorisation\<close>

text \<open>
  What is printed: \<open>%llu:\<close>, a number after a blank, and the end of the line.
\<close>

datatype printed = Label wide_t | Number wide_t | Newline

record factor_state =
  square_count :: u8
  wheel_tab :: "u8 list"
  outp :: "printed list"

definition put :: "printed \<Rightarrow> factor_state \<Rightarrow> factor_state" where
  "put x st = st\<lparr>outp := outp st @ [x]\<rparr>"

text \<open>\<open>do ... while (--rep != 0)\<close> on an unsigned counter.\<close>

function print_w_loop :: "u32 \<Rightarrow> wide_t \<Rightarrow> factor_state \<Rightarrow> factor_state" where
  "print_w_loop rep n st =
     (let st = put (Number n) st; rep = rep - 1
      in if rep \<noteq> 0 then print_w_loop rep n st else st)"
  by pat_completeness auto
termination
proof (relation "measure (\<lambda>(rep, n, st). unat (rep - 1))")
  fix rep rep' :: u32 and n and st st' :: factor_state
  assume e: "rep' = rep - 1" and n: "rep' \<noteq> 0"
  have "unat (rep' - 1) < unat rep'"
    using n unat_minus_one [of rep'] by (simp add: unat_gt_0)
  then show "((rep', n, st'), rep, n, st) \<in> measure (\<lambda>(rep, n, st). unat (rep - 1))"
    unfolding in_measure prod.case e by (simp only:)
qed simp

declare print_w_loop.simps [simp del]

definition print_w :: "wide_t \<Rightarrow> factor_state \<Rightarrow> factor_state" where
  "print_w n st = print_w_loop (ucast (square_count st)) n st"

definition print_h :: "half_t \<Rightarrow> factor_state \<Rightarrow> factor_state" where
  "print_h n st = print_w (ucast n) st"

definition factor_end :: "wide_t \<Rightarrow> factor_state \<Rightarrow> factor_state" where
  "factor_end N st = put Newline (if N > 1 then print_w N st else st)"

text \<open>
  \<open>factorize\<close> and \<open>isqrt_odd\<close> call each other; \<open>trial\<close> is the endless loop
  of \<open>factorize\<close> and \<open>divide\<close> the loop in it that takes out one divisor. The fuel
  bounds the calls and iterations together; \<open>None\<close> is fuel that has run out. A zero from
  \<open>isqrt_odd\<close> says that the square root has been factorised, and the caller returns:
  \<open>divide\<close> tells its caller so by \<open>Inl\<close>.
\<close>

fun factorize :: "nat \<Rightarrow> wide_t \<Rightarrow> factor_state \<Rightarrow> factor_state option"
  and isqrt_odd :: "nat \<Rightarrow> wide_t \<Rightarrow> factor_state \<Rightarrow> (half_t \<times> factor_state) option"
  and trial :: "nat \<Rightarrow> wide_t \<Rightarrow> nat \<Rightarrow> half_t \<Rightarrow> half_t \<Rightarrow> factor_state \<Rightarrow> factor_state option"
  and divide :: "nat \<Rightarrow> wide_t \<Rightarrow> half_t \<Rightarrow> half_t \<Rightarrow> factor_state \<Rightarrow>
    (factor_state + wide_t \<times> half_t \<times> factor_state) option"
where
  "factorize 0 N st = None"
| "factorize (Suc k) N st =
     (if N < 4 then Some (factor_end N st)
      else (case isqrt_odd k N st of
              None \<Rightarrow> None
            | Some (max_factor, st) \<Rightarrow>
                if max_factor = 0 then Some st else trial k N 0 2 max_factor st))"
| "isqrt_odd 0 N st = None"
| "isqrt_odd (Suc k) N st =
     (let s = ucast (isqrt N) :: half_t
      in if ucast s * ucast s = N
         then map_option (\<lambda>st. (0, st))
                (factorize k (ucast s) (st\<lparr>square_count := square_count st * 2\<rparr>))
         else Some ((s - 1) OR 1, st))"
| "trial 0 N w factor max_factor st = None"
| "trial (Suc k) N w factor max_factor st =
     (case divide k N factor max_factor st of
        None \<Rightarrow> None
      | Some (Inl st) \<Rightarrow> Some st
      | Some (Inr (N, max_factor, st)) \<Rightarrow>
          if factor \<ge> max_factor then Some (factor_end N st)
          else (let fw = factor + ucast (wheel_tab st ! w)
                in if fw < factor then Some (factor_end N st)
                   else (let w = w + 1
                         in trial k N (if w < WHEEL_SIZE then w else WHEEL_START)
                              fw max_factor st)))"
| "divide 0 N factor max_factor st = None"
| "divide (Suc k) N factor max_factor st =
     (if N mod ucast factor = 0
      then (let N = N div ucast factor
            in case isqrt_odd k N (print_h factor st) of
                 None \<Rightarrow> None
               | Some (max_factor, st) \<Rightarrow>
                   if max_factor = 0 then Some (Inl st) else divide k N factor max_factor st)
      else Some (Inr (N, max_factor, st)))"

section \<open>The numbers to factorise\<close>

text \<open>
  \<open>factorize_numstr\<close> ends the program with the usage message when the string is not a
  number (\<open>None\<close>); the first argument of \<open>factorize\<close> is the fuel of each number.
\<close>

datatype factor_exit = Exit_success factor_state | Show_usage factor_state | Out_of_fuel

definition factorize_numstr :: "nat \<Rightarrow> bytes \<Rightarrow> factor_state \<Rightarrow> factor_exit" where
  "factorize_numstr k numstr st =
     (let numstr = (if deref numstr = 43 then tl numstr else numstr);
          (N, endp, errno) = bb_strtoull numstr 10
      in if errno \<noteq> E_OK then Show_usage st
         else (let st = (put (Label N) st)\<lparr>square_count := 1\<rparr>
               in case factorize k N st of
                    None \<Rightarrow> Out_of_fuel
                  | Some st \<Rightarrow> Exit_success st))"

text \<open>
  The words of one line of input: the line is cut in place at the first white byte after the
  word (\<open>*end++ = 0\<close>), so the next round begins after it.
\<close>

function factor_line :: "nat \<Rightarrow> bytes \<Rightarrow> factor_state \<Rightarrow> factor_exit" where
  "factor_line k numstr st =
     (let numstr = skip_whitespace numstr
      in if deref numstr = 0 then Exit_success st
         else (let e = skip_non_whitespace numstr;
                   word = take (length numstr - length e) numstr
               in case factorize_numstr k word st of
                    Exit_success st \<Rightarrow> factor_line k (tl e) st
                  | r \<Rightarrow> r))"
  by pat_completeness auto

termination
proof (relation "measure (\<lambda>(k, numstr, st). length numstr)")
  fix k numstr numstr' e st st' and word :: bytes
  assume s: "numstr' = skip_whitespace numstr" "deref numstr' \<noteq> 0" "e = skip_non_whitespace numstr'"
  have "numstr' \<noteq> []" using s(2) by (auto simp: deref_def)
  then have "length (tl e) < length numstr'"
    using length_skip_non_whitespace [of numstr'] s(3) by (cases numstr') (auto simp: less_Suc_eq_le)
  then show "((k, tl e, st'), k, numstr, st) \<in> measure (\<lambda>(k, numstr, st). length numstr)"
    using length_skip_whitespace [of numstr] s(1) by simp
qed simp

declare factor_line.simps [simp del]

function factor_stdin :: "nat \<Rightarrow> bytes \<Rightarrow> factor_state \<Rightarrow> factor_exit" where
  "factor_stdin k stdin st =
     (case xmalloc_fgetline stdin of
        (None, _) \<Rightarrow> Exit_success st
      | (Some line, stdin) \<Rightarrow>
          (case factor_line k line st of
             Exit_success st \<Rightarrow> factor_stdin k stdin st
           | r \<Rightarrow> r))"
  by pat_completeness auto
termination
  by (relation "measure (\<lambda>(k, stdin, st). length stdin)") (auto dest: xmalloc_fgetline_length [OF sym])

declare factor_stdin.simps [simp del]

fun factor_args :: "nat \<Rightarrow> bytes list \<Rightarrow> factor_state \<Rightarrow> factor_exit" where
  "factor_args k [] st = Exit_success st"
| "factor_args k (arg # argv) st =
     (case factorize_numstr k (skip_whitespace arg) st of
        Exit_success st \<Rightarrow> factor_args k argv st
      | r \<Rightarrow> r)"

definition factor_main :: "nat \<Rightarrow> bytes list \<Rightarrow> bytes \<Rightarrow> factor_exit" where
  "factor_main k argv stdin =
     (let st = \<lparr>square_count = 0, wheel_tab = unpack_wheel, outp = []\<rparr>
      in if argv = [] then factor_stdin k stdin st else factor_args k argv st)"

end
