(* ===== verification/Factor_Wheel.thy ===== *)
theory Factor_Wheel
  imports Factor
begin

text \<open>
  The wheel of the \<open>factor\<close> applet: the packed table unpacks to the gaps it was packed
  from, and the wheel passes over no number without a divisor among 2, 3, 5, 7 and 11.
\<close>

section \<open>The packed wheel\<close>

text \<open>The fields of a row as one word, three bits each, the first field lowest.\<close>

definition fields :: "nat list \<Rightarrow> u64" where
  "fields ys = foldr (\<lambda>y v. of_nat y OR push_bit 3 v) ys 0"

lemma fields_simps [simp]:
  "fields [] = 0" "fields (y # ys) = of_nat y OR push_bit 3 (fields ys)"
  by (simp_all add: fields_def)

lemma bit_field: "y < 8 \<Longrightarrow> bit (y::nat) n \<Longrightarrow> n < 3"
proof (rule ccontr)
  assume y: "y < 8" and b: "bit y n" and n: "\<not> n < 3"
  have "y < 2 ^ n" using y power_increasing [of 3 n "2::nat"] n by simp
  then show False using b by (simp add: bit_iff_odd)
qed

lemma bit_fields: "\<forall>y\<in>set ys. y < 8 \<Longrightarrow> bit (fields ys) n \<Longrightarrow> n < 3 * length ys"
  by (induction ys arbitrary: n) (fastforce simp: bit_simps dest: bit_field)+

lemma bit_field_mask: "bit (v AND 0xe) n \<longleftrightarrow> bit (v::u64) n \<and> 1 \<le> n \<and> n \<le> 3"
proof -
  have m: "(0xe::u64) = push_bit 1 (mask 3)" by (simp add: mask_eq_exp_minus_1)
  show ?thesis
    unfolding m bit_and_iff bit_push_bit_iff bit_mask_iff possible_bit_word
    by (auto dest: bit_imp_le_length)
qed

lemma unpack_fields:
  assumes "\<forall>y\<in>set ys. 0 < y \<and> y < 8" "3 * length ys < 64" "\<And>n. bit j n \<Longrightarrow> n = 0"
  shows "unpack_row (j OR push_bit 1 (fields ys)) p = p @ map (\<lambda>y. of_nat (2 * y)) ys"
  using assms
proof (induction ys arbitrary: j p)
  case Nil
  have "j AND 0xe = 0"
    by (rule bit_word_eqI) (simp only: bit_field_mask, use Nil in \<open>auto simp: bit_simps\<close>)
  then show ?case by (simp add: unpack_row.simps)
next
  case (Cons y ys)
  let ?v = "j OR push_bit 1 (fields (y # ys))"
  define j' :: u64 where "j' = (if bit y 2 then 1 else 0)"
  have y: "0 < y" "y < 8" using Cons.prems by auto
  have low: "?v AND 0xe = push_bit 1 (of_nat y)"
  proof (rule bit_word_eqI)
    fix n assume "n < LENGTH(64)"
    then show "bit (?v AND 0xe) n = bit (push_bit 1 (of_nat y) :: u64) n"
      unfolding bit_field_mask bit_or_iff bit_push_bit_iff bit_of_nat_iff possible_bit_word
        fields_simps
      using Cons.prems(3) [of n] bit_field [OF y(2), of "n - 1"] by auto
  qed
  have bound: "\<And>n. bit (fields ys) n \<Longrightarrow> n < 60"
    using bit_fields [of ys] Cons.prems(1,2) by fastforce
  have rest: "drop_bit 3 ?v = j' OR push_bit 1 (fields ys)"
  proof (rule bit_word_eqI)
    fix n assume "n < LENGTH(64)"
    have j': "bit j' n \<longleftrightarrow> n = 0 \<and> bit y 2" by (auto simp: j'_def bit_simps)
    show "bit (drop_bit 3 ?v) n = bit (j' OR push_bit 1 (fields ys)) n"
      unfolding bit_or_iff bit_push_bit_iff bit_drop_bit_eq comp_def bit_of_nat_iff
        possible_bit_word fields_simps j'
      using Cons.prems(3) [of "3 + n"] bit_field [OF y(2), of "2 + n"] bound [of "n - 1"]
        \<open>n < LENGTH(64)\<close>
      by (cases "n = 0") auto
  qed
  have two: "(push_bit 1 (of_nat y) :: u64) = of_nat (2 * y)" by (simp add: push_bit_eq_mult)
  have cases: "y \<in> {1, 2, 3, 4, 5, 6, 7}" using y by auto
  then have nz: "(of_nat (2 * y) :: u64) \<noteq> 0" by auto
  have byte: "(ucast (of_nat (2 * y) :: u64) :: u8) = of_nat (2 * y)"
    using cases by auto
  have "unpack_row (j' OR push_bit 1 (fields ys)) (p @ [of_nat (2 * y)])
      = (p @ [of_nat (2 * y)]) @ map (\<lambda>y. of_nat (2 * y)) ys"
    using Cons.prems by (intro Cons.IH) (auto simp: j'_def bit_simps split: if_splits)
  then show ?case
    by (subst unpack_row.simps) (simp only: low rest two nz byte if_True not_False_eq_True simp_thms
        append_assoc append.simps list.map)
qed

lemma list20:
  assumes "length xs = 20"
  shows "xs = [xs!0, xs!1, xs!2, xs!3, xs!4, xs!5, xs!6, xs!7, xs!8, xs!9] @
    [xs!10, xs!11, xs!12, xs!13, xs!14, xs!15, xs!16, xs!17, xs!18, xs!19]"
  using assms by (intro nth_equalityI) (simp_all add: less_Suc_eq numeral_eq_Suc, auto)

lemma upt_0_10: "[0..<10::nat] = [0, 1, 2, 3, 4, 5, 6, 7, 8, 9]"
  by code_simp

lemma wheel_R_fields:
  assumes "length xs = 20"
  shows "wheel_R xs = push_bit 1 (fields xs)"
proof -
  have "push_bit 1 (fields xs) = push_bit 1 (fields ([xs!0, xs!1, xs!2, xs!3, xs!4, xs!5, xs!6,
      xs!7, xs!8, xs!9] @ [xs!10, xs!11, xs!12, xs!13, xs!14, xs!15, xs!16, xs!17, xs!18, xs!19]))"
    using list20 [OF assms] by metis
  also have "\<dots> = wheel_R xs"
    by (simp add: wheel_R_def upt_0_10 push_bit_or push_bit_push_bit or.assoc)
  finally show ?thesis by simp
qed


definition wheel_row_ok :: "nat list \<Rightarrow> bool" where
  "wheel_row_ok xs \<longleftrightarrow> length xs = 20 \<and> (\<forall>x\<in>set xs. even x \<and> 0 < x \<and> x < 16)"

lemma unpack_row_wheel:
  assumes "wheel_row_ok xs"
  shows "unpack_row (wheel_P xs) p = p @ map of_nat xs"
proof -
  let ?ys = "map (\<lambda>x. x div 2) xs"
  have e: "2 * (x div 2) = x" if "x \<in> set xs" for x
    using assms that by (simp add: wheel_row_ok_def)
  have "unpack_row (0 OR push_bit 1 (fields ?ys)) p = p @ map (\<lambda>y. of_nat (2 * y)) ?ys"
    using assms e by (intro unpack_fields) (fastforce simp: wheel_row_ok_def)+
  also have "map (\<lambda>y. of_nat (2 * y)) ?ys = map (of_nat :: nat \<Rightarrow> u8) xs"
    using e by (simp del: of_nat_mult)
  finally show ?thesis
    using assms by (simp add: wheel_P_def wheel_R_fields wheel_row_ok_def)
qed

definition wheel_gaps :: "nat list" where
  "wheel_gaps = [1, 2, 2, 4, 2] @ concat wheel_rows"

lemma wheel_rows_ok: "\<forall>xs\<in>set wheel_rows. wheel_row_ok xs"
  by (simp add: wheel_rows_def wheel_row_ok_def)

lemma unpack_wheel_gaps: "unpack_wheel = map of_nat wheel_gaps"
proof -
  have "foldl (\<lambda>p v. unpack_row v p) p (map wheel_P xss) = p @ map of_nat (concat xss)"
    if "\<forall>xs\<in>set xss. wheel_row_ok xs" for p xss
    using that by (induction xss arbitrary: p) (simp_all add: unpack_row_wheel)
  then show ?thesis
    using wheel_rows_ok by (simp add: unpack_wheel_def packed_wheel_def wheel_gaps_def)
qed


section \<open>The wheel passes over no prime\<close>

definition small_divisor :: "nat \<Rightarrow> bool" where
  "small_divisor n \<longleftrightarrow>
     (if 2 dvd n then True else if 3 dvd n then True else if 5 dvd n then True
      else if 7 dvd n then True else 11 dvd n)"

text \<open>The numbers a list of gaps leads to, and the check that the ones in between are sieved.\<close>

fun gaps_ok :: "nat \<Rightarrow> nat list \<Rightarrow> bool" where
  "gaps_ok p [] = True"
| "gaps_ok p (g # gs) \<longleftrightarrow>
     0 < g \<and> list_all small_divisor [p + 1..<p + g] \<and> gaps_ok (p + g) gs"

lemma wheel_gaps_list: "length wheel_gaps = 485" "sum_list wheel_gaps = 11 + 2310"
  by (simp_all add: wheel_gaps_def wheel_rows_def)

lemma gaps_ok_wheel: "gaps_ok 2 wheel_gaps"
  by (simp add: wheel_gaps_def wheel_rows_def small_divisor_def)


lemma gaps_ok_nth:
  assumes "gaps_ok p gs" "w < length gs"
  shows "0 < gs ! w \<and> (\<forall>d. p + sum_list (take w gs) < d \<and> d < p + sum_list (take w gs) + gs ! w
    \<longrightarrow> small_divisor d)"
  using assms
proof (induction p gs arbitrary: w rule: gaps_ok.induct)
  case (2 p g gs)
  show ?case
  proof (cases w)
    case 0
    then show ?thesis using 2(2) by (auto simp: list_all_iff)
  next
    case (Suc v)
    have "gaps_ok (p + g) gs" using 2(2) by simp
    then show ?thesis using 2(1) [of v] 2(3) Suc by (simp add: add.assoc)
  qed
qed simp

text \<open>Index \<open>w\<close> of the table stands at the number \<open>wheel_pos w\<close>, and at its
  images by multiples of 2310 once the wheel turns.\<close>

definition wheel_pos :: "nat \<Rightarrow> nat" where
  "wheel_pos w = 2 + sum_list (take w wheel_gaps)"

definition at_wheel :: "nat \<Rightarrow> nat \<Rightarrow> bool" where
  "at_wheel w f \<longleftrightarrow> w < WHEEL_SIZE \<and> wheel_pos w \<le> f \<and> f mod 2310 = wheel_pos w mod 2310
     \<and> (w < WHEEL_START \<longrightarrow> f = wheel_pos w)"

lemma wheel_pos_start: "at_wheel 0 2"
  by (simp add: at_wheel_def wheel_pos_def WHEEL_SIZE_def)

lemma wheel_pos_early:
  "wheel_pos 0 = 2" "wheel_pos (Suc 0) = 3" "wheel_pos 2 = 5" "wheel_pos 3 = 7" "wheel_pos 4 = 11"
  "wheel_pos 5 = 13"
  by (simp_all add: wheel_pos_def wheel_gaps_def)

lemma wheel_pos_Suc: "w < 485 \<Longrightarrow> wheel_pos (Suc w) = wheel_pos w + wheel_gaps ! w"
  by (simp add: wheel_pos_def wheel_gaps_list take_Suc_conv_app_nth)

lemma wheel_pos_mono: "w \<le> v \<Longrightarrow> v \<le> 485 \<Longrightarrow> wheel_pos w \<le> wheel_pos v"
proof (induction v)
  case (Suc v)
  then show ?case by (cases "w = Suc v") (auto simp: wheel_pos_Suc)
qed simp

lemma wheel_pos_last: "wheel_pos 485 = 13 + 2310"
  by (simp add: wheel_pos_def wheel_gaps_list(2) flip: wheel_gaps_list(1))

lemma at_wheel_next:
  assumes "at_wheel w f"
  shows "at_wheel (if w + 1 < WHEEL_SIZE then w + 1 else WHEEL_START) (f + wheel_gaps ! w)"
proof -
  have w: "w < 485" "wheel_pos w \<le> f" "f mod 2310 = wheel_pos w mod 2310"
    "w < 5 \<Longrightarrow> f = wheel_pos w"
    using assms by (simp_all add: at_wheel_def WHEEL_SIZE_def WHEEL_START_def)
  have m: "(f + wheel_gaps ! w) mod 2310 = wheel_pos (Suc w) mod 2310"
    using w by (metis mod_add_left_eq wheel_pos_Suc)
  show ?thesis
  proof (cases "w = 484")
    case True
    then have "wheel_pos (Suc w) = 13 + 2310" using wheel_pos_last by simp
    then show ?thesis
      using True m w wheel_pos_Suc [of w]
      by (simp add: at_wheel_def WHEEL_SIZE_def WHEEL_START_def wheel_pos_early)
  next
    case False
    then show ?thesis
      using m w wheel_pos_Suc [of w] by (simp add: at_wheel_def WHEEL_SIZE_def WHEEL_START_def)
  qed
qed

lemma small_divisor_iff: "small_divisor n \<longleftrightarrow> (\<exists>q\<in>{2, 3, 5, 7, 11}. q dvd n)"
  by (simp add: small_divisor_def)

lemma wheel_gap_positive: "w < 485 \<Longrightarrow> 0 < wheel_gaps ! w"
  using gaps_ok_nth [OF gaps_ok_wheel] by (simp add: wheel_gaps_list)

lemma wheel_between:
  assumes "at_wheel w f" "f < d" "d < f + wheel_gaps ! w"
  shows "\<exists>q. 2 \<le> q \<and> q \<le> f \<and> q dvd d"
proof -
  have w: "w < 485" "wheel_pos w \<le> f" "f mod 2310 = wheel_pos w mod 2310"
    "w < 5 \<Longrightarrow> f = wheel_pos w"
    using assms(1) by (simp_all add: at_wheel_def WHEEL_SIZE_def WHEEL_START_def)
  define e where "e = d - f + wheel_pos w"
  have "\<forall>d. wheel_pos w < d \<and> d < wheel_pos w + wheel_gaps ! w \<longrightarrow> small_divisor d"
    using gaps_ok_nth [OF gaps_ok_wheel, of w] w(1)
    unfolding wheel_gaps_list wheel_pos_def by blast
  moreover have "wheel_pos w < e \<and> e < wheel_pos w + wheel_gaps ! w"
    using assms(2,3) e_def by linarith
  ultimately have "small_divisor e" by blast
  then obtain q where q: "q \<in> {2, 3, 5, 7, 11}" "q dvd e" unfolding small_divisor_iff by blast
  have "q dvd 2310" using q(1) by auto
  then have "f mod q = wheel_pos w mod q" using w(3) by (metis mod_mod_cancel)
  then have "(d - f + f) mod q = e mod q" unfolding e_def by (metis mod_add_right_eq)
  then have qd: "q dvd d" using q(2) assms(2) by (simp add: dvd_eq_mod_eq_0)
  show ?thesis
  proof (cases "w < 4")
    case True
    then have c: "w \<in> {0, 1, 2, 3}" by auto
    then have f: "f = wheel_pos w" using w(4) by auto
    have "wheel_gaps ! 0 = 1" "wheel_gaps ! 1 = 2" "wheel_gaps ! 2 = 2" "wheel_gaps ! 3 = 4"
      by (simp_all add: wheel_gaps_def)
    then have "(f = 3 \<and> d = 4) \<or> (f = 5 \<and> d = 6) \<or> (f = 7 \<and> d \<in> {8, 9, 10})"
      using c f assms(2,3) by (auto simp: wheel_pos_early)
    then show ?thesis by (elim disjE conjE) (force intro: exI [of _ 2] exI [of _ 3])+
  next
    case False
    then have "11 \<le> f" using wheel_pos_mono [of 4 w] w by (simp add: wheel_pos_early)
    then show ?thesis using q(1) qd by (intro exI [of _ q]) auto
  qed
qed


lemma unpack_wheel_nth:
  assumes "w < 485"
  shows "unat (unpack_wheel ! w) = wheel_gaps ! w"
proof -
  have "\<forall>g\<in>set wheel_gaps. g < 16"
    using wheel_rows_ok by (auto simp: wheel_gaps_def wheel_row_ok_def)
  moreover have "wheel_gaps ! w \<in> set wheel_gaps" using assms by (simp add: wheel_gaps_list)
  ultimately have "wheel_gaps ! w < 16" by blast
  then show ?thesis using assms by (simp add: unpack_wheel_gaps wheel_gaps_list unat_of_nat)
qed

text \<open>
  Property C36. The packed table unpacks to exactly \<open>WHEEL_SIZE\<close> gaps, which fit in the
  common buffer behind \<open>square_count\<close>, every gap is positive, and the numbers passed over
  between two successive trial divisors all have a divisor among 2, 3, 5, 7 and 11 that is not
  larger than the current trial divisor.
\<close>

theorem wheel_skips_only_composites:
  "length unpack_wheel = WHEEL_SIZE \<and> 1 + WHEEL_SIZE \<le> 1024 \<and>
   (\<forall>w f d. at_wheel w f \<and> f < d \<and> d < f + unat (unpack_wheel ! w)
     \<longrightarrow> (\<exists>q. 2 \<le> q \<and> q \<le> f \<and> q dvd d))"
proof (intro conjI allI impI)
  show "length unpack_wheel = WHEEL_SIZE" "1 + WHEEL_SIZE \<le> 1024"
    by (simp_all add: unpack_wheel_gaps wheel_gaps_list WHEEL_SIZE_def)
  fix w f d assume a: "at_wheel w f \<and> f < d \<and> d < f + unat (unpack_wheel ! w)"
  then have "w < 485" by (simp add: at_wheel_def WHEEL_SIZE_def)
  then have "at_wheel w f" "f < d" "d < f + wheel_gaps ! w"
    using a by (simp_all add: unpack_wheel_nth)
  then show "\<exists>q. 2 \<le> q \<and> q \<le> f \<and> q dvd d" by (rule wheel_between)
qed

lemma wheel_skips_only_composites_witness:
  "\<exists>q. 2 \<le> q \<and> q \<le> (11::nat) \<and> q dvd 12"
proof -
  have "at_wheel 4 11"
    by (simp add: at_wheel_def wheel_pos_early WHEEL_SIZE_def WHEEL_START_def)
  moreover have "wheel_gaps ! 4 = 2" by (simp add: wheel_gaps_def)
  then have "12 < 11 + unat (unpack_wheel ! 4)" by (simp add: unpack_wheel_nth)
  ultimately show ?thesis
    using wheel_skips_only_composites [THEN conjunct2, THEN conjunct2, rule_format, of 4 11 12]
    by simp
qed

end
