(* ===== verification/Factor_Correct.thy ===== *)
theory Factor_Correct
  imports Factor_Wheel
begin

text \<open>
  The correctness of the \<open>factor\<close> applet: for a fuel that bounds the iterations,
  \<open>factorize\<close> returns and has printed the prime factorisation of its argument in ascending
  order. The multiplicity \<open>square_count\<close> of the printed factors never wraps around, since the
  number still to be factorised, raised to it, stays below \<open>2 ^ 64\<close>.
\<close>

section \<open>Divisors\<close>

definition is_prime :: "nat \<Rightarrow> bool" where
  "is_prime p \<longleftrightarrow> 2 \<le> p \<and> (\<forall>d\<in>{2..<p}. \<not> d dvd p)"

definition no_divisor :: "nat \<Rightarrow> nat \<Rightarrow> bool" where
  "no_divisor N f \<longleftrightarrow> (\<forall>d. 2 \<le> d \<and> d < f \<longrightarrow> \<not> d dvd N)"

lemma no_divisor_2 [simp]: "no_divisor N 2"
  unfolding no_divisor_def by linarith

lemma no_divisor_dvd: "no_divisor N f \<Longrightarrow> M dvd N \<Longrightarrow> no_divisor M f"
  unfolding no_divisor_def by (metis dvd_trans)

lemma no_divisor_next: "no_divisor N f \<Longrightarrow> \<not> f dvd N \<Longrightarrow> no_divisor N (Suc f)"
  by (auto simp: no_divisor_def less_Suc_eq)

lemma least_divisor_prime: "no_divisor N f \<Longrightarrow> f dvd N \<Longrightarrow> 2 \<le> f \<Longrightarrow> is_prime f"
  unfolding no_divisor_def is_prime_def by (metis atLeastLessThan_iff dvd_trans)

lemma prime_by_bound:
  assumes "no_divisor N k" "N < k * k" "2 \<le> N"
  shows "is_prime N"
  unfolding is_prime_def
proof (intro conjI ballI notI)
  fix d assume d: "d \<in> {2..<N}" "d dvd N"
  then obtain e where e: "N = d * e" by (elim dvdE)
  have "k \<le> d" using assms(1) d by (fastforce simp: no_divisor_def)
  moreover have "2 \<le> e"
  proof (rule ccontr)
    assume "\<not> 2 \<le> e"
    then have "e = 0 \<or> e = 1" by auto
    then show False using d e assms(3) by auto
  qed
  then have "k \<le> e" using assms(1) e by (fastforce simp: no_divisor_def)
  ultimately have "k * k \<le> d * e" by (rule mult_le_mono)
  then show False using assms(2) e by simp
qed (use assms in simp)

lemma wheel_advance:
  assumes "at_wheel w f" "no_divisor N (Suc f)"
  shows "no_divisor N (f + wheel_gaps ! w)"
  unfolding no_divisor_def
proof (intro allI impI notI)
  fix d assume d: "2 \<le> d \<and> d < f + wheel_gaps ! w" "d dvd N"
  show False
  proof (cases "f < d")
    case True
    then obtain q where "2 \<le> q" "q \<le> f" "q dvd d" using wheel_between assms(1) d by blast
    then show False using assms(2) d(2) unfolding no_divisor_def by (metis dvd_trans le_imp_less_Suc)
  next
    case False
    then show False using assms(2) d by (simp add: no_divisor_def)
  qed
qed

section \<open>The bound of the trial divisors\<close>

text \<open>\<open>m\<close> is what \<open>isqrt_odd\<close> returns for a number that is no square.\<close>

definition trial_bound :: "nat \<Rightarrow> nat \<Rightarrow> bool" where
  "trial_bound N m \<longleftrightarrow> odd m \<and> N < (m + 2) * (m + 2)"

lemma trial_bound_prime:
  assumes "trial_bound N m" "no_divisor N (Suc f)" "m \<le> f" "2 \<le> f" "2 \<le> N"
  shows "is_prime N"
proof -
  have "no_divisor N (m + 2)"
    unfolding no_divisor_def
  proof (intro allI impI notI)
    fix d assume d: "2 \<le> d \<and> d < m + 2" "d dvd N"
    have odd2: "\<not> 2 dvd N" using assms(2,4) by (simp add: no_divisor_def)
    have "d = Suc m"
      using d assms(2,3) by (cases "d \<le> f") (auto simp: no_divisor_def)
    then have "2 dvd d" using assms(1) by (simp add: trial_bound_def)
    then show False using odd2 d(2) dvd_trans by blast
  qed
  then show ?thesis using assms by (intro prime_by_bound [of N "m + 2"]) (auto simp: trial_bound_def)
qed

lemma odd_floor:
  assumes "s \<noteq> 0"
  shows "odd (unat ((s - 1) OR 1 :: u32)) \<and> unat s \<le> unat ((s - 1) OR 1) + 1
    \<and> (s - 1) OR 1 \<noteq> 0"
proof -
  have u: "unat (s - 1) = unat s - 1" using assms by (simp add: unat_minus_one)
  have "odd ((s - 1) OR 1)" by (simp add: bit_simps flip: bit_0)
  then have o: "odd (unat ((s - 1) OR 1))"
    by (simp add: bit_simps flip: bit_0)
  have "s - 1 \<le> (s - 1) OR 1" by (rule le_word_or2)
  then have "unat s - 1 \<le> unat ((s - 1) OR 1)" using u by (simp add: word_le_nat_alt)
  then show ?thesis using o by (auto simp: odd_pos)
qed


section \<open>What is printed\<close>

definition numbers :: "nat list \<Rightarrow> printed list" where
  "numbers ps = map (\<lambda>p. Number (of_nat p)) ps"

lemma numbers_simps [simp]:
  "numbers [] = []" "numbers (ps @ qs) = numbers ps @ numbers qs"
  by (simp_all add: numbers_def)

lemma print_w_loop_output:
  "rep \<noteq> 0 \<Longrightarrow> print_w_loop rep n st = st\<lparr>outp := outp st @ replicate (unat rep) (Number n)\<rparr>"
proof (induction rep n st rule: print_w_loop.induct)
  case (1 rep n st)
  have u: "unat rep = Suc (unat (rep - 1))"
    using 1(2) by (simp add: unat_minus_one unat_gt_0)
  show ?case
  proof (cases "rep - 1 = 0")
    case True
    then show ?thesis by (subst print_w_loop.simps) (simp add: put_def u)
  next
    case False
    then show ?thesis
      using 1(1) [OF refl refl False] False
      by (subst print_w_loop.simps) (simp add: put_def u Let_def)
  qed
qed

lemma print_w_output:
  assumes "square_count st \<noteq> 0"
  shows "print_w N st =
    st\<lparr>outp := outp st @ numbers (replicate (unat (square_count st)) (unat N))\<rparr>"
proof -
  have "unat (ucast (square_count st) :: u32) = unat (square_count st)"
    by (rule unat_ucast_up) simp
  moreover have "(ucast (square_count st) :: u32) \<noteq> 0"
    using assms calculation by (metis unat_eq_zero)
  ultimately show ?thesis
    by (simp add: print_w_def print_w_loop_output numbers_def)
qed

text \<open>
  The factors printed for \<open>N\<close> with multiplicity \<open>sc\<close>.
\<close>

definition factors_of :: "nat \<Rightarrow> nat \<Rightarrow> nat list \<Rightarrow> bool" where
  "factors_of N sc ps \<longleftrightarrow>
     (\<forall>p\<in>set ps. is_prime p \<and> p dvd N) \<and> sorted ps \<and> prod_list ps = N ^ sc"

lemma factors_of_prime:
  "is_prime N \<Longrightarrow> factors_of N sc (replicate sc N)"
  by (auto simp: factors_of_def)

lemma factors_of_1: "factors_of 1 sc []"
  by (simp add: factors_of_def)

lemma factors_of_square:
  assumes "factors_of s (2 * sc) ps" "N = s * s"
  shows "factors_of N sc ps"
  using assms by (auto simp: factors_of_def power_mult power2_eq_square)

lemma factors_of_append:
  assumes "factors_of N' sc ps" "N' dvd N" "set qs \<subseteq> {f}" "qs \<noteq> [] \<Longrightarrow> f dvd N"
    and "prod_list qs * N' ^ sc = N ^ sc" "no_divisor N f" "2 \<le> f"
  shows "factors_of N sc (qs @ ps)"
proof -
  have f: "is_prime f \<and> f dvd N" if "qs \<noteq> []"
    using least_divisor_prime assms(4,6,7) that by blast
  have ps: "f \<le> p \<and> is_prime p \<and> p dvd N" if "p \<in> set ps" for p
  proof -
    have "is_prime p" "p dvd N" using assms(1,2) that by (auto simp: factors_of_def)
    then show ?thesis using assms(6) by (fastforce simp: no_divisor_def is_prime_def)
  qed
  have "sorted qs" using assms(3) by (induction qs) auto
  then show ?thesis
    using assms(1,3,5) f ps unfolding factors_of_def
    by (fastforce simp: sorted_append)
qed


text \<open>The state after the factors of \<open>N\<close> and the end of the line have been printed.\<close>

definition printed_factors :: "nat \<Rightarrow> factor_state \<Rightarrow> factor_state \<Rightarrow> bool" where
  "printed_factors N st st' \<longleftrightarrow>
     (\<exists>ps c. factors_of N (unat (square_count st)) ps
        \<and> st' = st\<lparr>square_count := c, outp := outp st @ numbers ps @ [Newline]\<rparr>)"

lemma factor_end_prime:
  assumes "is_prime (unat N)" "square_count st \<noteq> 0"
  shows "printed_factors (unat N) st (factor_end N st)"
proof -
  have "N > 1" using assms(1) by (simp add: is_prime_def word_less_nat_alt)
  then have "factor_end N st = st\<lparr>square_count := square_count st,
      outp := outp st @ numbers (replicate (unat (square_count st)) (unat N)) @ [Newline]\<rparr>"
    using assms(2) by (simp add: factor_end_def print_w_output put_def)
  then show ?thesis
    using factors_of_prime [OF assms(1)] unfolding printed_factors_def by blast
qed

lemma factor_end_1:
  assumes "unat N = 1"
  shows "printed_factors (unat N) st (factor_end N st)"
proof -
  have "factor_end N st = st\<lparr>square_count := square_count st, outp := outp st @ numbers [] @ [Newline]\<rparr>"
    using assms by (simp add: factor_end_def word_less_nat_alt put_def)
  then show ?thesis
    using factors_of_1 assms unfolding printed_factors_def by metis
qed

lemma printed_factors_append:
  assumes "printed_factors N' (st\<lparr>outp := outp st @ numbers qs\<rparr>) st'" "N' dvd N"
    and "set qs \<subseteq> {f}" "qs \<noteq> [] \<Longrightarrow> f dvd N"
    and "prod_list qs * N' ^ unat (square_count st) = N ^ unat (square_count st)"
    and "no_divisor N f" "2 \<le> f"
  shows "printed_factors N st st'"
proof -
  obtain ps c where p: "factors_of N' (unat (square_count st)) ps"
    "st' = st\<lparr>square_count := c, outp := outp st @ numbers (qs @ ps) @ [Newline]\<rparr>"
    using assms(1) by (auto simp: printed_factors_def)
  then have "factors_of N (unat (square_count st)) (qs @ ps)"
    using assms by (intro factors_of_append)
  then show ?thesis using p(2) unfolding printed_factors_def by blast
qed

section \<open>The invariant of the printed multiplicity\<close>

definition count_ok :: "nat \<Rightarrow> factor_state \<Rightarrow> bool" where
  "count_ok N st \<longleftrightarrow> wheel_tab st = unpack_wheel \<and> 1 \<le> N \<and> square_count st \<noteq> 0
     \<and> N ^ unat (square_count st) < 2 ^ 64"

lemma count_ok_64: "count_ok N st \<Longrightarrow> 2 \<le> N \<Longrightarrow> unat (square_count st) < 64"
proof (rule ccontr)
  assume c: "count_ok N st" "2 \<le> N" and n: "\<not> unat (square_count st) < 64"
  have "2 ^ 64 \<le> (2::nat) ^ unat (square_count st)" using n by (intro power_increasing) auto
  also have "\<dots> \<le> N ^ unat (square_count st)" using c(2) by (intro power_mono) auto
  finally show False using c(1) by (simp add: count_ok_def)
qed

lemma count_ok_twice:
  assumes "count_ok N st" "unat (square_count st) < 128" "N = s * s"
  shows "unat (square_count st * 2) = 2 * unat (square_count st)"
    and "count_ok s (st\<lparr>square_count := square_count st * 2\<rparr>)"
proof -
  show u: "unat (square_count st * 2) = 2 * unat (square_count st)"
    using assms(2) by (simp add: unat_word_ariths)
  then have "square_count st * 2 \<noteq> 0"
    using assms(1) by (metis count_ok_def mult_eq_0_iff unat_eq_zero zero_neq_numeral)
  moreover have "s ^ (2 * unat (square_count st)) = N ^ unat (square_count st)"
    using assms(3) by (simp add: power_mult power2_eq_square)
  moreover have "1 \<le> s" using assms(1,3) by (cases s) (auto simp: count_ok_def)
  ultimately show "count_ok s (st\<lparr>square_count := square_count st * 2\<rparr>)"
    using assms(1) u by (simp add: count_ok_def)
qed

lemma count_ok_dvd:
  assumes "count_ok N st" "M \<le> N" "1 \<le> M"
  shows "count_ok M (st\<lparr>outp := out\<rparr>)"
proof -
  have "M ^ unat (square_count st) \<le> N ^ unat (square_count st)"
    using assms(2) by (intro power_mono) auto
  then show ?thesis using assms by (simp add: count_ok_def)
qed


section \<open>Enough fuel\<close>

definition factor_fuel :: "nat \<Rightarrow> nat" where
  "factor_fuel n = 2 ^ 33 + n * 2 ^ 34"

definition factorizes :: "nat \<Rightarrow> bool" where
  "factorizes k \<longleftrightarrow> (\<forall>N st. count_ok (unat N) st \<and> factor_fuel (unat N) \<le> k
     \<longrightarrow> (\<exists>st'. factorize k N st = Some st' \<and> printed_factors (unat N) st st'))"

lemma isqrt_odd_result:
  assumes fk: "factorizes k" "\<And>s. s * s = unat N \<Longrightarrow> factor_fuel s \<le> k"
    and st: "count_ok (unat N) st" "unat (square_count st) < 128"
  obtains (square) st' where "isqrt_odd (Suc k) N st = Some (0, st')"
      "printed_factors (unat N) st st'"
    | (bound) m where "isqrt_odd (Suc k) N st = Some (m, st)" "m \<noteq> 0"
      "trial_bound (unat N) (unat m)" "2 \<le> unat N"
proof -
  let ?s = "ucast (isqrt N) :: u32"
  have root: "unat (isqrt N) < 2 ^ 32" "floor_sqrt (unat N) (unat (isqrt N))"
    using isqrt_floor [of N] floor_sqrt_bound [OF isqrt_floor, of N "2 ^ 32"] u64_less [of N]
    by simp_all
  have s: "unat ?s = unat (isqrt N)"
    using root(1) by (simp add: unsigned_ucast_eq take_bit_nat_eq_self)
  have s64: "unat (ucast ?s :: u64) = unat ?s" by (rule unat_ucast_up) simp
  then have "unat (ucast ?s * ucast ?s :: u64) = unat ?s * unat ?s"
    using unat_square [of "ucast ?s"] root(1) s by simp
  then have sq: "ucast ?s * ucast ?s = N \<longleftrightarrow> unat ?s * unat ?s = unat N"
    by (simp only: word_unat_eq_iff)
  show ?thesis
  proof (cases "unat ?s * unat ?s = unat N")
    case True
    let ?st = "st\<lparr>square_count := square_count st * 2\<rparr>"
    have "count_ok (unat ?s) ?st" using st True by (intro count_ok_twice(2)) auto
    then obtain st' where st': "factorize k (ucast ?s) ?st = Some st'"
      "printed_factors (unat ?s) ?st st'"
      using fk(1) fk(2) [OF True] s64 unfolding factorizes_def by metis
    then have "printed_factors (unat N) st st'"
      using count_ok_twice(1) [OF st True [symmetric]] factors_of_square [OF _ True [symmetric]]
      by (fastforce simp: printed_factors_def)
    moreover have "isqrt_odd (Suc k) N st = Some (0, st')"
      using True sq st' by (simp add: Let_def)
    ultimately show ?thesis by (rule square [rotated])
  next
    case False
    have "1 \<le> unat N" using st(1) by (simp add: count_ok_def)
    then have s0: "?s \<noteq> 0" using root(2) s by (auto simp: floor_sqrt_def)
    let ?m = "(?s - 1) OR 1"
    have m: "odd (unat ?m)" "unat ?s \<le> unat ?m + 1" "?m \<noteq> 0"
      using odd_floor [OF s0] by auto
    have "unat N < (unat ?s + 1) * (unat ?s + 1)"
      using root(2) s by (simp only: floor_sqrt_def)
    also have "\<dots> \<le> (unat ?m + 2) * (unat ?m + 2)"
      using m(2) by (intro mult_le_mono) auto
    finally have tb: "trial_bound (unat N) (unat ?m)" using m(1) unfolding trial_bound_def by blast
    have "unat N \<noteq> 1"
    proof
      assume n: "unat N = 1"
      then have "unat ?s < 2" using root(2) s floor_sqrt_bound [of 1 "unat ?s" 2] by simp
      then show False using s0 n False by (metis less_2_cases mult_1 unat_eq_zero One_nat_def)
    qed
    then have "2 \<le> unat N" using \<open>1 \<le> unat N\<close> by simp
    moreover have "isqrt_odd (Suc k) N st = Some (?m, st)"
      using False sq by (simp add: Let_def)
    ultimately show ?thesis using m(3) tb bound by blast
  qed
qed


text \<open>What \<open>divide\<close> leaves: the factors \<open>qs\<close> printed and the number without them.\<close>

definition divided :: "nat \<Rightarrow> nat \<Rightarrow> nat \<Rightarrow> nat \<Rightarrow> nat \<Rightarrow> nat list \<Rightarrow> bool" where
  "divided N f sc N' m' qs \<longleftrightarrow> N' dvd N \<and> 2 \<le> N' \<and> \<not> f dvd N' \<and> trial_bound N' m'
     \<and> set qs \<subseteq> {f} \<and> (qs \<noteq> [] \<longrightarrow> f dvd N) \<and> prod_list qs * N' ^ sc = N ^ sc"

lemma print_h_output:
  assumes "square_count st \<noteq> 0"
  shows "print_h f st =
    st\<lparr>outp := outp st @ numbers (replicate (unat (square_count st)) (unat f))\<rparr>"
  using assms unat_ucast_up [of f, where 'b=64] by (simp add: print_h_def print_w_output)

lemma divide_result:
  assumes "\<And>k'. k' < k \<Longrightarrow> factorizes k'"
    and "count_ok (unat N) st" "2 \<le> unat N" "2 \<le> unat f" "no_divisor (unat N) (unat f)"
    and "2 ^ 31 + unat N * 2 ^ 34 \<le> k" "trial_bound (unat N) (unat m)"
  shows "(\<exists>st'. divide k N f m st = Some (Inl st') \<and> printed_factors (unat N) st st') \<or>
    (\<exists>N' m' qs. divide k N f m st = Some (Inr (N', m', st\<lparr>outp := outp st @ numbers qs\<rparr>))
      \<and> divided (unat N) (unat f) (unat (square_count st)) (unat N') (unat m') qs)"
  using assms
proof (induction k arbitrary: N m st)
  case (Suc k)
  let ?sc = "unat (square_count st)"
  have uf: "unat (ucast f :: u64) = unat f" by (rule unat_ucast_up) simp
  have dvd: "N mod ucast f = 0 \<longleftrightarrow> unat f dvd unat N"
    by (simp add: word_unat_eq_iff unat_mod uf dvd_eq_mod_eq_0)
  show ?case
  proof (cases "unat f dvd unat N")
    case False
    then have "divide (Suc k) N f m st = Some (Inr (N, m, st\<lparr>outp := outp st @ numbers []\<rparr>))"
      using dvd by simp
    moreover have "divided (unat N) (unat f) ?sc (unat N) (unat m) []"
      using Suc.prems False by (simp add: divided_def)
    ultimately show ?thesis by blast
  next
    case True
    define N1 where "N1 = N div ucast f"
    let ?qs = "replicate ?sc (unat f)"
    let ?st = "st\<lparr>outp := outp st @ numbers ?qs\<rparr>"
    have N1: "unat N = unat f * unat N1" using True by (simp add: N1_def unat_div uf)
    have "1 \<le> unat N1" using N1 Suc.prems(3) by (cases "unat N1") auto
    have half: "2 * unat N1 \<le> unat N" using N1 Suc.prems(4) by simp
    have sc: "?sc < 64" "square_count st \<noteq> 0"
      using count_ok_64 Suc.prems(2,3) by (auto simp: count_ok_def)
    have ok: "count_ok (unat N1) ?st"
      using Suc.prems(2) half \<open>1 \<le> unat N1\<close> by (intro count_ok_dvd) auto
    obtain k' where k: "k = Suc k'"
      using Suc.prems(6) by (cases k) auto
    have pw: "unat f ^ ?sc * unat N1 ^ ?sc = unat N ^ ?sc" by (simp only: N1 power_mult_distrib)
    have ap: "printed_factors (unat N) st st'"
      if "printed_factors (unat N1) ?st st'" for st'
    proof (rule printed_factors_append [OF that])
      show "unat N1 dvd unat N" using N1 by simp
      show "set ?qs \<subseteq> {unat f}" by auto
      show "prod_list ?qs * unat N1 ^ ?sc = unat N ^ ?sc" using pw by (simp add: prod_list_replicate)
    qed (use True Suc.prems(4,5) in auto)
    have step: "divide (Suc k) N f m st = (case isqrt_odd k N1 ?st of None \<Rightarrow> None
        | Some (mf, st) \<Rightarrow> if mf = 0 then Some (Inl st) else divide k N1 f mf st)"
      using dvd True sc(2) by (simp add: print_h_output Let_def flip: N1_def)
    have fuel: "factor_fuel s \<le> k'" if "s * s = unat N1" for s
    proof -
      have "s \<le> unat N1" using that by (metis le_square)
      then show ?thesis using half Suc.prems(3,6) k \<open>1 \<le> unat N1\<close> by (simp add: factor_fuel_def)
    qed
    have fk: "factorizes k'" using Suc.prems(1) k by simp
    show ?thesis
    proof (rule isqrt_odd_result [OF fk fuel ok])
      show "unat (square_count ?st) < 128" using sc(1) by simp
    next
      fix st' assume "isqrt_odd (Suc k') N1 ?st = Some (0, st')" "printed_factors (unat N1) ?st st'"
      then show ?thesis using ap step k by simp
    next
      fix m' assume m': "isqrt_odd (Suc k') N1 ?st = Some (m', ?st)" "m' \<noteq> 0"
        "trial_bound (unat N1) (unat m')" "2 \<le> unat N1"
      have "no_divisor (unat N1) (unat f)"
        using no_divisor_dvd [OF Suc.prems(5)] N1 by simp
      moreover have "2 ^ 31 + unat N1 * 2 ^ 34 \<le> k"
        using half Suc.prems(3,6) \<open>1 \<le> unat N1\<close> by simp
      ultimately have ih: "(\<exists>st'. divide k N1 f m' ?st = Some (Inl st')
            \<and> printed_factors (unat N1) ?st st') \<or>
          (\<exists>N' m'' qs. divide k N1 f m' ?st
              = Some (Inr (N', m'', ?st\<lparr>outp := outp ?st @ numbers qs\<rparr>))
            \<and> divided (unat N1) (unat f) (unat (square_count ?st)) (unat N') (unat m'') qs)"
        using Suc.prems(1,4) ok m'(3,4) by (intro Suc.IH) auto
      then show ?thesis
      proof (elim disjE exE conjE)
        fix st' assume "divide k N1 f m' ?st = Some (Inl st')" "printed_factors (unat N1) ?st st'"
        then show ?thesis using ap step m' k by simp
      next
        fix N' m'' qs
        assume d: "divide k N1 f m' ?st = Some (Inr (N', m'', ?st\<lparr>outp := outp ?st @ numbers qs\<rparr>))"
          "divided (unat N1) (unat f) (unat (square_count ?st)) (unat N') (unat m'') qs"
        have "divided (unat N) (unat f) ?sc (unat N') (unat m'') (?qs @ qs)"
          using d(2) True dvd_trans [of "unat N'" "unat N1" "unat N"] pw
          by (auto simp: divided_def prod_list_replicate mult.assoc N1)
        moreover have "divide (Suc k) N f m st
            = Some (Inr (N', m'', st\<lparr>outp := outp st @ numbers (?qs @ qs)\<rparr>))"
          using step m' k d(1) by simp
        ultimately show ?thesis by blast
      qed
    qed
  qed
qed simp


lemma trial_result:
  assumes "\<And>k'. k' < k \<Longrightarrow> factorizes k'"
    and "count_ok (unat N) st" "2 \<le> unat N" "at_wheel w (unat f)" "no_divisor (unat N) (unat f)"
    and "2 ^ 33 - unat f + unat N * 2 ^ 34 \<le> k" "trial_bound (unat N) (unat m)"
  shows "\<exists>st'. trial k N w f m st = Some st' \<and> printed_factors (unat N) st st'"
  using assms
proof (induction k arbitrary: N w f m st)
  case 0
  have "unat f < 2 ^ LENGTH(32)" by (rule unsigned_less)
  then show ?case using 0 by simp
next
  case (Suc k)
  have f32: "unat f < 2 ^ 32" using unsigned_less [of f] by simp
  have w: "w < 485" "wheel_pos w \<le> unat f"
    using Suc.prems(4) by (simp_all add: at_wheel_def WHEEL_SIZE_def)
  have f2: "2 \<le> unat f" using w(2) by (simp add: wheel_pos_def)
  have "2 ^ 31 + unat N * 2 ^ 34 \<le> k" using Suc.prems(6) f32 by simp
  then have "(\<exists>st'. divide k N f m st = Some (Inl st') \<and> printed_factors (unat N) st st') \<or>
    (\<exists>N' m' qs. divide k N f m st = Some (Inr (N', m', st\<lparr>outp := outp st @ numbers qs\<rparr>))
      \<and> divided (unat N) (unat f) (unat (square_count st)) (unat N') (unat m') qs)"
    using Suc.prems f2 by (intro divide_result) auto
  then show ?case
  proof (elim disjE exE conjE)
    fix st' assume "divide k N f m st = Some (Inl st')" "printed_factors (unat N) st st'"
    then show ?thesis by simp
  next
    fix N' m' qs
    let ?st = "st\<lparr>outp := outp st @ numbers qs\<rparr>"
    assume dv: "divide k N f m st = Some (Inr (N', m', ?st))"
      and d: "divided (unat N) (unat f) (unat (square_count st)) (unat N') (unat m') qs"
    have N': "unat N' dvd unat N" "2 \<le> unat N'" "\<not> unat f dvd unat N'"
      "trial_bound (unat N') (unat m')"
      using d by (simp_all add: divided_def)
    have le: "unat N' \<le> unat N" using N'(1) Suc.prems(3) by (intro dvd_imp_le) auto
    have nd: "no_divisor (unat N') (Suc (unat f))"
      using no_divisor_next [OF no_divisor_dvd [OF Suc.prems(5) N'(1)] N'(3)] .
    have ok: "count_ok (unat N') ?st"
      using Suc.prems(2) le N'(2) by (intro count_ok_dvd) auto
    have ap: "printed_factors (unat N) st st'" if "printed_factors (unat N') ?st st'" for st'
      using d Suc.prems(5) f2
      by (intro printed_factors_append [OF that, where f = "unat f"]) (auto simp: divided_def)
    have fin: "printed_factors (unat N) st (factor_end N' ?st)" if "is_prime (unat N')"
      using ap factor_end_prime [OF that, of ?st] Suc.prems(2) by (simp add: count_ok_def)
    let ?g = "ucast (wheel_tab ?st ! w) :: u32"
    have g32: "unat ?g < 2 ^ LENGTH(32)" by (rule unsigned_less)
    have g: "unat ?g = wheel_gaps ! w"
      using Suc.prems(2) unpack_wheel_nth [OF w(1)] unat_ucast_up [of "unpack_wheel ! w", where 'b=32]
      by (simp add: count_ok_def)
    have adv: "no_divisor (unat N') (unat f + wheel_gaps ! w)"
      using Suc.prems(4) nd by (rule wheel_advance)
    let ?w = "if w + 1 < WHEEL_SIZE then w + 1 else WHEEL_START"
    have tr: "trial (Suc k) N w f m st =
      (if m' \<le> f \<or> f + ?g < f then Some (factor_end N' ?st)
       else trial k N' ?w (f + ?g) m' ?st)"
      using dv by (simp add: Let_def)
    show ?thesis
    proof (cases "m' \<le> f")
      case True
      then have "is_prime (unat N')"
        using trial_bound_prime [OF N'(4) nd _ f2 N'(2)] by (simp add: word_le_nat_alt)
      then show ?thesis using tr True fin by simp
    next
      case m: False
      show ?thesis
      proof (cases "unat f + wheel_gaps ! w < 2 ^ 32")
        case True
        then have u: "unat (f + ?g) = unat f + wheel_gaps ! w"
          using g by (simp add: unat_word_ariths)
        have pos: "0 < wheel_gaps ! w" using w(1) by (rule wheel_gap_positive)
        have "2 ^ 33 - unat (f + ?g) + unat N' * 2 ^ 34 \<le> k"
          using u pos Suc.prems(6) le f32 True by simp
        then have "\<exists>st'. trial k N' ?w (f + ?g) m' ?st = Some st'
            \<and> printed_factors (unat N') ?st st'"
          using Suc.prems(1) ok N'(2,4) at_wheel_next [OF Suc.prems(4)] adv u
          by (intro Suc.IH) auto
        moreover have "\<not> f + ?g < f" using u by (simp add: word_less_nat_alt)
        ultimately show ?thesis using tr m ap by auto
      next
        case False
        have "wheel_gaps ! w < 2 ^ 32" using g g32 by simp
        then have "f + ?g < f"
          using False f32 g by (simp add: word_less_nat_alt unat_word_ariths mod_if) linarith
        moreover have "no_divisor (unat N') (2 ^ 32)"
          using adv False by (auto simp: no_divisor_def)
        then have "is_prime (unat N')"
          using N'(2) u64_less [of N'] by (intro prime_by_bound [of _ "2 ^ 32"]) auto
        ultimately show ?thesis using tr m fin by simp
      qed
    qed
  qed
qed

lemma small_prime: "2 \<le> N \<Longrightarrow> N < 4 \<Longrightarrow> is_prime N"
  by (rule prime_by_bound [of _ 2]) auto

lemma factorizes_all: "factorizes k"
proof (induction k rule: less_induct)
  case (less k)
  show ?case
    unfolding factorizes_def
  proof (intro allI impI)
    fix N :: wide_t and st assume a: "count_ok (unat N) st \<and> factor_fuel (unat N) \<le> k"
    then obtain k1 where k: "k = Suc k1" by (cases k) (auto simp: factor_fuel_def)
    show "\<exists>st'. factorize k N st = Some st' \<and> printed_factors (unat N) st st'"
    proof (cases "N < 4")
      case True
      then have "unat N < 4" by (simp add: word_less_nat_alt)
      then have "printed_factors (unat N) st (factor_end N st)"
        using a small_prime [of "unat N"] factor_end_prime [of N st] factor_end_1 [of N st]
        by (cases "unat N = 1") (auto simp: count_ok_def)
      then show ?thesis using True k by simp
    next
      case False
      then have n4: "4 \<le> unat N" by (simp add: word_less_nat_alt)
      obtain k2 where k2: "k1 = Suc k2" using a k by (cases k1) (auto simp: factor_fuel_def)
      have fuel: "factor_fuel s \<le> k2" if s: "s * s = unat N" for s
      proof -
        have "2 \<le> s" using s n4 by (cases "s < 2") (auto simp: less_2_cases_iff)
        then have "2 * s \<le> unat N" using s mult_le_mono1 [of 2 s s] by simp
        then show ?thesis using a k k2 n4 by (simp add: factor_fuel_def)
      qed
      have fk: "factorizes k2" using less k k2 by simp
      show ?thesis
      proof (rule isqrt_odd_result [OF fk fuel])
        show "count_ok (unat N) st" using a by simp
        then show "unat (square_count st) < 128" using count_ok_64 [of "unat N" st] n4 by simp
      next
        fix st' assume "isqrt_odd (Suc k2) N st = Some (0, st')" "printed_factors (unat N) st st'"
        then show ?thesis using k k2 False by simp
      next
        fix m assume m: "isqrt_odd (Suc k2) N st = Some (m, st)" "m \<noteq> 0"
          "trial_bound (unat N) (unat m)"
        have "\<exists>st'. trial k1 N 0 2 m st = Some st' \<and> printed_factors (unat N) st st'"
          using less k a n4 m(3) wheel_pos_start
          by (intro trial_result) (auto simp: factor_fuel_def)
        then show ?thesis using k k2 False m by auto
      qed auto
    qed
  qed
qed


text \<open>
  Property C25. \<open>factorize\<close> returns for every non-zero 64-bit number, with a fuel linear in
  the number, and what it has printed are the prime factors of the number in ascending order,
  each as often as it divides the number, and the end of the line.
\<close>

theorem factorize_prime_factors:
  assumes "N \<noteq> 0" "wheel_tab st = unpack_wheel" "square_count st = 1"
    and "2 ^ 33 + unat N * 2 ^ 34 \<le> k"
  shows "\<exists>ps c. factorize k N st =
      Some (st\<lparr>square_count := c, outp := outp st @ map (\<lambda>p. Number (of_nat p)) ps @ [Newline]\<rparr>)
    \<and> (\<forall>p\<in>set ps. is_prime p) \<and> sorted ps \<and> prod_list ps = unat N"
proof -
  have "count_ok (unat N) st"
    using assms(1-3) u64_less [of N] by (simp add: count_ok_def Suc_le_eq unat_gt_0)
  then obtain st' where "factorize k N st = Some st'" "printed_factors (unat N) st st'"
    using factorizes_all assms(4) unfolding factorizes_def factor_fuel_def by blast
  then show ?thesis
    using assms(3) by (auto simp: printed_factors_def factors_of_def numbers_def)
qed

lemma factorize_prime_factors_witness:
  "\<exists>ps c. factorize (2 ^ 33 + 12 * 2 ^ 34) 12 \<lparr>square_count = 1, wheel_tab = unpack_wheel, outp = []\<rparr>
     = Some \<lparr>square_count = c, wheel_tab = unpack_wheel,
         outp = map (\<lambda>p. Number (of_nat p)) ps @ [Newline]\<rparr>
   \<and> (\<forall>p\<in>set ps. is_prime p) \<and> sorted ps \<and> prod_list ps = 12"
  using factorize_prime_factors [of 12 "\<lparr>square_count = 1, wheel_tab = unpack_wheel, outp = []\<rparr>"
      "2 ^ 33 + 12 * 2 ^ 34"]
  by simp

section \<open>The numbers of the command line\<close>

text \<open>A C string the applet takes as the number \<open>N\<close>, and the factors its line shows.\<close>

definition decimal_arg :: "bytes \<Rightarrow> nat \<Rightarrow> bool" where
  "decimal_arg arg N \<longleftrightarrow>
     (let s = skip_whitespace arg; s = (if deref s = 43 then tl s else s)
      in s \<noteq> [] \<and> 0 \<notin> set s \<and> (\<forall>c\<in>set s. digit_val c < 10)
         \<and> N = number_value 10 s \<and> N < 2 ^ 64)"

definition line_factors :: "nat \<Rightarrow> nat list \<Rightarrow> bool" where
  "line_factors N ps \<longleftrightarrow>
     (if N = 0 then ps = [] else (\<forall>p\<in>set ps. is_prime p) \<and> sorted ps \<and> prod_list ps = N)"

definition factor_line_output :: "nat \<Rightarrow> nat list \<Rightarrow> printed list" where
  "factor_line_output N ps = Label (of_nat N) # numbers ps @ [Newline]"

lemma factorize_line:
  assumes "wheel_tab st = unpack_wheel" "square_count st = 1" "factor_fuel (unat N) \<le> k"
  obtains ps c where "factorize k N st =
      Some (st\<lparr>square_count := c, outp := outp st @ numbers ps @ [Newline]\<rparr>)"
    "line_factors (unat N) ps"
proof (cases "N = 0")
  case True
  obtain k1 where "k = Suc k1" using assms(3) by (cases k) (auto simp: factor_fuel_def)
  then have "factorize k N st
      = Some (st\<lparr>square_count := square_count st, outp := outp st @ numbers [] @ [Newline]\<rparr>)"
    using True by (simp add: factor_end_def put_def)
  then show ?thesis
    by (rule that) (simp add: True line_factors_def)
next
  case False
  have "count_ok (unat N) st"
    using False assms u64_less [of N] by (simp add: count_ok_def Suc_le_eq unat_gt_0)
  then obtain st' where "factorize k N st = Some st'" "printed_factors (unat N) st st'"
    using factorizes_all assms(3) unfolding factorizes_def by blast
  then show ?thesis
    using that False assms(2)
    by (auto simp: printed_factors_def factors_of_def line_factors_def unat_eq_zero)
qed

lemma factorize_numstr_decimal:
  assumes "decimal_arg arg N" "wheel_tab st = unpack_wheel" "factor_fuel (2 ^ 64) \<le> k"
  obtains ps c where "factorize_numstr k (skip_whitespace arg) st =
      Exit_success (st\<lparr>square_count := c, outp := outp st @ factor_line_output N ps\<rparr>)"
    "line_factors N ps"
proof -
  let ?t = "skip_whitespace arg"
  let ?s = "if deref ?t = 43 then tl ?t else ?t"
  let ?N = "of_nat N :: u64"
  have N: "N < 2 ^ 64" "unat ?N = N"
    using assms(1) by (simp_all add: decimal_arg_def Let_def unat_of_nat)
  have s: "bb_strtoull ?s 10 = (?N, [], E_OK)"
    using assms(1) by (intro bb_strtoull_number) (simp_all add: decimal_arg_def Let_def)
  let ?st = "(put (Label ?N) st)\<lparr>square_count := 1\<rparr>"
  have "wheel_tab ?st = unpack_wheel" using assms(2) by (simp add: put_def)
  moreover have "factor_fuel (unat ?N) \<le> k"
    using assms(3) N by (simp add: factor_fuel_def)
  ultimately obtain ps c where ps: "factorize k ?N ?st =
      Some (?st\<lparr>square_count := c, outp := outp ?st @ numbers ps @ [Newline]\<rparr>)"
    "line_factors (unat ?N) ps"
    using factorize_line [of ?st ?N k] by auto
  then show ?thesis
    using that [of ps c] s N by (simp add: factorize_numstr_def factor_line_output_def put_def)
qed

lemma factor_args_decimal:
  assumes "list_all2 decimal_arg argv Ns" "wheel_tab st = unpack_wheel"
    and "factor_fuel (2 ^ 64) \<le> k"
  shows "\<exists>pss st'. factor_args k argv st = Exit_success st' \<and> list_all2 line_factors Ns pss
    \<and> outp st' = outp st @ concat (map2 factor_line_output Ns pss)"
  using assms(1,2)
proof (induction arbitrary: st rule: list_all2_induct)
  case Nil
  then show ?case by (auto intro: exI [of _ "[]"])
next
  case (Cons arg argv N Ns)
  obtain ps c where 1: "factorize_numstr k (skip_whitespace arg) st =
      Exit_success (st\<lparr>square_count := c, outp := outp st @ factor_line_output N ps\<rparr>)"
    "line_factors N ps"
    using Cons.hyps(1) Cons.prems assms(3) by (rule factorize_numstr_decimal)
  let ?st = "st\<lparr>square_count := c, outp := outp st @ factor_line_output N ps\<rparr>"
  obtain pss st' where 2: "factor_args k argv ?st = Exit_success st'"
    "list_all2 line_factors Ns pss"
    "outp st' = outp ?st @ concat (map2 factor_line_output Ns pss)"
    using Cons.IH [of ?st] Cons.prems by auto
  show ?case
    using 1 2 by (intro exI [of _ "ps # pss"] exI [of _ st']) simp
qed

text \<open>
  Property C24. Called with decimal numbers below \<open>2 ^ 64\<close> as its arguments, each with
  leading white space and a plus sign allowed, the applet succeeds and prints for each of them,
  in order, its label, its prime factors in ascending order and the end of the line; zero has
  no factors.
\<close>

theorem factor_main_decimal:
  assumes "list_all2 decimal_arg argv Ns" "argv \<noteq> []" "2 ^ 33 + 2 ^ 64 * 2 ^ 34 \<le> k"
  shows "\<exists>pss st'. factor_main k argv stdin = Exit_success st' \<and> list_all2 line_factors Ns pss
    \<and> outp st' = concat (map2 factor_line_output Ns pss)"
  using factor_args_decimal [OF assms(1), of "\<lparr>square_count = 0, wheel_tab = unpack_wheel, outp = []\<rparr>" k]
    assms(2,3)
  by (simp add: factor_main_def factor_fuel_def Let_def)

lemma factor_main_decimal_witness:
  "\<exists>pss st'. factor_main (2 ^ 33 + 2 ^ 64 * 2 ^ 34) [[49, 56], [32, 43, 55]] [] = Exit_success st'
     \<and> list_all2 line_factors [18, 7] pss
     \<and> outp st' = concat (map2 factor_line_output [18, 7] pss)"
proof -
  have "decimal_arg [49, 56] 18" "decimal_arg [32, 43, 55] 7"
    by (simp_all add: decimal_arg_def deref_def digit_val_def number_value_def word_le_nat_alt)
  then show ?thesis
    by (intro factor_main_decimal) simp_all
qed

end
