(* ===== verification/Spec2Isabelle.thy ===== *)
theory Spec2Isabelle
  imports Hash64 Sha512 Sha3 Tls_Cbc Curve25519 Base64_Bounds Base64_Break Lua_Undump Factor_Correct
begin

text \<open>
  Verification of C programs of the MyGOS repository. MyGOS is a Rust kernel; the C code of the
  repository is the user programs it runs, under \<open>src/testsuits/\<close>. Modelled here are parts of two
  of them, BusyBox (\<open>busybox/\<close>) and Lua (\<open>lua/src/\<close>); paths below are relative to \<open>src/testsuits/\<close>.

  \<^bold>\<open>The parts and how they interact.\<close>

  The cryptographic stack of BusyBox, bottom up. \<open>busybox/libbb/hash_md5_sha.c\<close> holds block
  functions (MD5, SHA-1, SHA-256, SHA-512, Keccak) and streaming contexts that cut a message into
  blocks. \<open>busybox/networking/tls.c\<close> uses the SHA contexts for HMAC, the TLS 1.2 key derivation and
  the record MAC; \<open>tls_aes.c\<close> is the block cipher with its chaining mode and \<open>tls_aesgcm.c\<close> the
  authentication hash of GCM; the record layer of \<open>tls.c\<close> composes them: it frames, authenticates
  and encrypts what is sent, and finds, checks and decrypts records in the stream received.
  \<open>tls_fe.c\<close> is the Diffie-Hellman function Curve25519 of the key exchange.

  The \<open>factor\<close> applet of BusyBox (\<open>coreutils/factor.c\<close>), with the integer square root, number
  parsing and line reading of \<open>libbb/\<close> it calls.

  The base64 and base32 coder of \<open>libbb/uuencode.c\<close>, with the reader that decodes a stream line by
  line in one buffer.

  Lua's binary chunks: \<open>ldump.c\<close> writes a function prototype through a caller's writer, \<open>lundump.c\<close>
  reads one from the buffered stream of \<open>lzio.c\<close>.

  \<^bold>\<open>Theories and the code they model.\<close>

  \<^item> \<open>Prelude\<close>: byte sequences, words in memory (\<open>load32\<close>, \<open>store64\<close>, the byte-swapping macros of
    \<open>include/platform.h\<close>), \<open>blit\<close> for \<open>memcpy\<close> into a buffer, cutting a sequence into blocks, and
    the collection \<open>length_simps\<close>.
  \<^item> \<open>Block_Buffer\<close>: the interface between a streaming hash and its block function, a locale whose
    laws say what absorbing bytes into a buffer of one block means; interpreted in \<open>Hash64\<close> and
    \<open>Sha512\<close>.
  \<^item> \<open>Hash_Ctx\<close>, \<open>Md5\<close>, \<open>Sha1\<close>, \<open>Sha2\<close>: the record \<open>md5_ctx\<close> and the block functions. \<open>Hash64\<close>:
    \<open>md5_begin\<close>, \<open>md5_hash\<close>, \<open>common64_end\<close>, \<open>md5_end\<close>, \<open>sha1_end\<close>, \<open>sha256_end\<close>. \<open>Sha512\<close>: the
    context with the two-word count. \<open>Keccak\<close>, \<open>Sha3\<close>: the permutation and both versions of
    \<open>sha3_hash\<close>. Pointers to block functions are the datatype of the functions they can point to.
  \<^item> \<open>Aes\<close>, \<open>Aes_Sbox\<close>, \<open>Aes_Fips\<close>, \<open>Aes_Cipher\<close>: \<open>networking/tls_aes.c\<close>, its tables, FIPS 197 as a
    specification, and the cipher with its CBC loops.
  \<^item> \<open>Gcm\<close>: \<open>networking/tls_aesgcm.c\<close> and the XOR helpers of \<open>tls.c\<close>, whose pointers into the same
    buffer are kept (\<open>xorbuf3\<close> reads what earlier steps wrote).
  \<^item> \<open>Tls_Hmac\<close>: HMAC and the pseudorandom function of \<open>tls.c\<close>, with a locale for the hash they use,
    interpreted for SHA-1 and SHA-256.
  \<^item> \<open>Tls_Record\<close>: the record layer of \<open>tls.c\<close> on the record \<open>tls_state\<close>, with both buffers as byte
    lists and offsets for pointers. \<open>Tls_Gcm\<close>, \<open>Tls_Read\<close>, \<open>Tls_Cbc\<close>: what is sent with either kind
    of cipher, how a record is found in the stream, and that the content arrives.
  \<^item> \<open>Fe25519\<close>, \<open>Curve25519\<close>: \<open>networking/tls_fe.c\<close>. Field elements are lists of 32 bytes as in the
    code; \<open>Fe25519\<close> has the arithmetic with its carries and incomplete reductions, each operation
    related to the integers modulo \<open>2 ^ 255 - 19\<close>; \<open>Curve25519\<close> the formulas for points, the ladder
    and \<open>curve25519\<close>.
  \<^item> \<open>Base64\<close>: \<open>libbb/uuencode.c\<close>. The decoders share one memory for text and data, as the buffer of
    \<open>read_base64\<close> is used; an access outside it and a pointer moved below it are \<open>None\<close>, in
    \<open>read_base64\<close> itself \<open>Out_of_bounds\<close>. \<open>Base64_Correct\<close>: RFC 4648 as a specification and the
    round trip; \<open>Base64_Bounds\<close>: memory safety on arbitrary streams; \<open>Base64_Break\<close>: text broken
    between its pads.
  \<^item> \<open>Isqrt\<close>, \<open>Strtonum\<close>, \<open>Factor\<close>, \<open>Factor_Wheel\<close>, \<open>Factor_Correct\<close>: \<open>libbb/isqrt.c\<close>,
    \<open>libbb/bb_strtonum.c\<close> with the line reader, and \<open>coreutils/factor.c\<close>.
  \<^item> \<open>Lua_Zio\<close>, \<open>Lua_Dump\<close>, \<open>Lua_Undump\<close>: \<open>lzio.c\<close>, \<open>ldump.c\<close>, \<open>lundump.c\<close>.

  \<^bold>\<open>Conventions.\<close> Bytes and C integers are words of their width, so that arithmetic wraps as in the
  code; lengths of buffers are natural numbers. A function that dies, or that would read or write
  outside its buffer, returns \<open>None\<close> or an error value. What the code does not determine (contents
  of fresh memory and of stack arrays, random bytes, how the network cuts the stream, what a
  caller's reader and writer do) is an argument, and the theorems hold for every value of it.

  \<^bold>\<open>What the lemmas show.\<close> The hash theories prove each block function equal to its standard, for
  every compile-time variant, and the contexts equal to the standard's hash of the whole message
  however it is cut into pieces. A specification lists its constants itself or shares the code's
  tables, which are then proved to be the standard's (\<open>sha2_constants_are_root_fractions\<close>,
  \<open>sbox_is_affine_inverse\<close>; for MD5 the unrolled variant has constants of its own). The AES
  theories prove the cipher of FIPS 197 and that decryption and CBC undo encryption; \<open>Gcm\<close> the
  GHASH of SP 800-38D over the field it defines; \<open>Tls_Hmac\<close> RFC 2104 and the P_hash of RFC 5246.
  The record layer theories prove the format of what is sent, that a record is received however the
  stream is cut, the invariant of the input buffer on every input, and that malformed input is
  refused; they also show that neither the tag nor the MAC of a received record is checked. The
  Curve25519 theories prove that no carry is lost, that the result is the reduced element the
  ladder of RFC 7748 gives, and that this is the multiple of the point wherever the formulas for
  points hold; a set top bit of the coordinate received is not masked. The base64 theories prove
  that text broken into lines gives the data back unless a break falls between the two pads, where
  its last byte is lost, and that every stream is read within the buffer. The factor theories prove
  that the wheel skips only composites and that what is printed is the prime factorisation;
  \<open>Strtonum\<close> which strings \<open>bb_strtoull\<close> accepts as numbers. The Lua theories prove that loading
  undoes dumping, that loading stops on every input, and which integers are refused.

  \<^bold>\<open>Loops and fuel.\<close> Loops are recursive functions with termination proofs. Only three places use
  fuel. For a number \<open>n\<close>, \<open>factorize\<close> has fuel \<open>2 ^ 33 + n * 2 ^ 34\<close>: each scan advances a divisor
  that stays below the root of a 64-bit number, and every division or square root taken leaves a
  number at most half as large; \<open>factorize_prime_factors\<close> proves that it returns. The nesting of
  functions in \<open>loadFunction\<close> is bounded by the bytes left in the stream; \<open>luaU_undump_terminates\<close>
  proves that this fuel is never used up. \<open>read_base64\<close> has fuel for the rounds of its outer loop;
  \<open>read_base64_safe\<close> proves that one more than the bytes of the stream is enough.

  \<^bold>\<open>Not modelled.\<close> The kernel and its crates are Rust. Of BusyBox: the TLS handshake with its
  certificates, RSA and the curve P-256, the old uuencode alphabet, the bit-interleaved variant of
  Keccak for 32-bit machines, and the other applets. Of Lua: the language, its collector and its
  libraries. The benchmark and test suites (iozone, lmbench, UnixBench, libc-bench, libc-test) are
  loops around system and library calls.
\<close>

end
